(* ===== verification/Prelude.thy ===== *)
theory Prelude
  imports Complex_Main "HOL-Library.AList"
begin

text \<open>
  Shared vocabulary of the CacheLab development: Python dictionaries and ordered
  dictionaries as association lists in insertion order, the exceptions the sources
  raise, the types of the model, the lemma collections and the generic lemmas the
  components share.
\<close>

named_theorems dict_laws \<open>lookup, key-set and length laws of Python dictionaries\<close>
named_theorems shard_defs \<open>definitions of the operations that run under a shard lock\<close>
named_theorems frame_laws \<open>fields an operation leaves unchanged\<close>

section \<open>Types\<close>

text \<open>
  Times and durations (Python floats) are reals: rounding, infinities and NaN are not
  modelled. Counters that only count up from zero are naturals; every other Python
  integer is an \<^typ>\<open>int\<close>. Keys and values are type variables: HOL equality of keys
  stands for Python's \<open>==\<close> together with \<open>hash\<close>.
\<close>

type_synonym time = real

text \<open>The exceptions of \<open>core/exceptions.py\<close> and the built-in ones the sources raise.\<close>

datatype cache_error =
    ConfigurationError
  | QueueBackpressureError
  | ShutdownFlushError nat
  | UnsupportedWriteModeError
  | ValidationError
  | RuntimeError
  | OSError
  | ValueError
  | TypeError
  | IndexError
  | LoaderError string

text \<open>
  A call that may raise and that changes a state returns what it returned or raised,
  and the state it leaves behind in either case.
\<close>

type_synonym ('a, 's) outcome = "(cache_error + 'a) \<times> 's"

section \<open>Python dictionaries\<close>

text \<open>
  A dict is an association list in insertion order: assignment replaces a value in
  place or appends, \<open>pop\<close> removes.
\<close>

type_synonym ('k, 'v) dict = "('k \<times> 'v) list"

abbreviation dict_get :: "('k, 'v) dict \<Rightarrow> 'k \<Rightarrow> 'v option" where
  "dict_get d k \<equiv> map_of d k"

abbreviation dict_set :: "'k \<Rightarrow> 'v \<Rightarrow> ('k, 'v) dict \<Rightarrow> ('k, 'v) dict" where
  "dict_set k v d \<equiv> AList.update k v d"

abbreviation dict_pop :: "'k \<Rightarrow> ('k, 'v) dict \<Rightarrow> ('k, 'v) dict" where
  "dict_pop k d \<equiv> AList.delete k d"

abbreviation dict_keys :: "('k, 'v) dict \<Rightarrow> 'k list" where
  "dict_keys d \<equiv> map fst d"

abbreviation dict_values :: "('k, 'v) dict \<Rightarrow> 'v list" where
  "dict_values d \<equiv> map snd d"

abbreviation dict_wf :: "('k, 'v) dict \<Rightarrow> bool" where
  "dict_wf d \<equiv> distinct (map fst d)"

text \<open>\<open>d.get(k, 0)\<close> for the counting dictionaries.\<close>

definition dict_get0 :: "('k, nat) dict \<Rightarrow> 'k \<Rightarrow> nat" where
  "dict_get0 d k = (case map_of d k of None \<Rightarrow> 0 | Some n \<Rightarrow> n)"

declare map_of_eq_Some_iff [simp del] and Some_eq_map_of_iff [simp del]

lemma dict_get_set [simp, dict_laws]:
  "map_of (AList.update k v d) k' = (if k' = k then Some v else map_of d k')"
  by (simp add: update_conv')

lemma dict_get_pop [simp, dict_laws]:
  "map_of (AList.delete k d) k' = (if k' = k then None else map_of d k')"
  by (simp add: delete_conv')

lemma dict_get0_set [simp]:
  "dict_get0 (AList.update k v d) k' = (if k' = k then v else dict_get0 d k')"
  by (simp add: dict_get0_def)

lemma dict_get0_pop [simp]:
  "dict_get0 (AList.delete k d) k' = (if k' = k then 0 else dict_get0 d k')"
  by (simp add: dict_get0_def)

lemma dict_get0_None [simp]: "map_of d k = None \<Longrightarrow> dict_get0 d k = 0"
  by (simp add: dict_get0_def)

lemma dict_get0_Some [simp]: "map_of d k = Some n \<Longrightarrow> dict_get0 d k = n"
  by (simp add: dict_get0_def)

lemma dict_get0_pos: "0 < dict_get0 d k \<Longrightarrow> k \<in> set (map fst d)"
  by (auto simp: dict_get0_def split: option.splits dest!: map_of_SomeD intro: rev_image_eqI)

lemma dict_set_keys [simp, dict_laws]:
  "fst ` set (AList.update k v d) = insert k (fst ` set d)"
  by (simp flip: dom_map_of_conv_image_fst add: update_conv' dom_update)

lemma dict_pop_keys [simp, dict_laws]:
  "fst ` set (AList.delete k d) = fst ` set d - {k}"
proof -
  have "set (map fst (AList.delete k d)) = set (removeAll k (map fst d))"
    by (simp only: delete_keys)
  then show ?thesis by simp
qed

lemma dict_wf_set [simp]: "dict_wf d \<Longrightarrow> dict_wf (AList.update k v d)"
  by (rule distinct_update)

lemma dict_wf_pop [simp]: "dict_wf d \<Longrightarrow> dict_wf (AList.delete k d)"
  by (rule distinct_delete)

lemma dict_length_keys: "dict_wf d \<Longrightarrow> length d = card (fst ` set d)"
  by (metis distinct_card length_map list.set_map)

lemma dict_length_pop:
  assumes "dict_wf d" and "k \<in> fst ` set d"
  shows "Suc (length (AList.delete k d)) = length d"
proof -
  have "length (AList.delete k d) = card (fst ` set d - {k})"
    using assms by (simp add: dict_length_keys)
  also have "Suc \<dots> = card (fst ` set d)"
    using assms(2) by (intro card_Suc_Diff1) auto
  finally show ?thesis using assms(1) by (simp add: dict_length_keys)
qed

lemma dict_pop_absent [simp]: "k \<notin> fst ` set d \<Longrightarrow> AList.delete k d = d"
  by (simp add: delete_id)

lemma dict_length_set:
  "length (AList.update k v d) = (if k \<in> fst ` set d then length d else Suc (length d))"
proof -
  have "length (map fst (AList.update k v d)) =
      length (if k \<in> set (map fst d) then map fst d else map fst d @ [k])"
    by (simp only: update_keys)
  then show ?thesis by simp
qed

lemma dict_get_None: "map_of d k = None \<longleftrightarrow> k \<notin> fst ` set d"
  by (rule map_of_eq_None_iff)

lemma dict_get_in_keys: "map_of d k = Some v \<Longrightarrow> k \<in> fst ` set d"
  by (metis map_of_eq_None_iff option.distinct(1))

lemma dict_mem_get: "dict_wf d \<Longrightarrow> (k, v) \<in> set d \<longleftrightarrow> map_of d k = Some v"
  by (auto dest: map_of_SomeD)

section \<open>Ordered key dictionaries\<close>

text \<open>
  \<open>OrderedDict[Hashable, None]\<close>: only the keys matter, so it is the list of keys in
  order.
\<close>

definition od_set :: "'k \<Rightarrow> 'k list \<Rightarrow> 'k list" where
  "od_set k ks = (if k \<in> set ks then ks else ks @ [k])"

definition od_pop :: "'k \<Rightarrow> 'k list \<Rightarrow> 'k list" where
  "od_pop k ks = remove1 k ks"

definition od_move_to_end :: "'k \<Rightarrow> 'k list \<Rightarrow> 'k list" where
  "od_move_to_end k ks = remove1 k ks @ [k]"

definition od_first :: "'k list \<Rightarrow> 'k option" where
  "od_first ks = (case ks of [] \<Rightarrow> None | k # _ \<Rightarrow> Some k)"

lemma set_od_set [simp]: "set (od_set k ks) = insert k (set ks)"
  by (auto simp: od_set_def)

lemma set_od_pop [simp]: "distinct ks \<Longrightarrow> set (od_pop k ks) = set ks - {k}"
  by (simp add: od_pop_def)

lemma set_od_move_to_end [simp]: "distinct ks \<Longrightarrow> set (od_move_to_end k ks) = insert k (set ks)"
  by (auto simp: od_move_to_end_def)

lemma distinct_od_set [simp]: "distinct ks \<Longrightarrow> distinct (od_set k ks)"
  by (simp add: od_set_def)

lemma distinct_od_pop [simp]: "distinct ks \<Longrightarrow> distinct (od_pop k ks)"
  by (simp add: od_pop_def)

lemma distinct_od_move_to_end [simp]: "distinct ks \<Longrightarrow> distinct (od_move_to_end k ks)"
  by (simp add: od_move_to_end_def)

lemma od_first_None [simp]: "od_first ks = None \<longleftrightarrow> ks = []"
  by (simp add: od_first_def split: list.splits)

lemma od_first_Some: "od_first ks = Some k \<longleftrightarrow> (\<exists>ks'. ks = k # ks')"
  by (simp add: od_first_def split: list.splits)

lemma od_first_mem: "od_first ks = Some k \<Longrightarrow> k \<in> set ks"
  by (auto simp: od_first_Some)

lemma od_pop_absent [simp]: "k \<notin> set ks \<Longrightarrow> od_pop k ks = ks"
  by (simp add: od_pop_def remove1_idem)

section \<open>List updates\<close>

lemma sum_list_update_nat:
  fixes f :: "'a \<Rightarrow> nat"
  assumes "i < length xs"
  shows "sum_list (map f (xs[i := x])) + f (xs ! i) = sum_list (map f xs) + f x"
  using assms
proof (induction xs arbitrary: i)
  case Nil
  then show ?case by simp
next
  case (Cons y ys)
  then show ?case by (cases i) auto
qed

lemma all_nth_update:
  assumes "\<forall>i < length xs. P i (xs ! i)" and "P j x"
  shows "\<forall>i < length (xs[j := x]). P i (xs[j := x] ! i)"
  using assms by (cases "j < length xs") (auto simp: nth_list_update list_update_beyond)

section \<open>Transition systems\<close>

text \<open>An invariant of a step relation holds in every state reachable from an initial one.\<close>

locale step_invariant =
  fixes init :: "'s \<Rightarrow> bool"
    and step :: "'s \<Rightarrow> 's \<Rightarrow> bool"
    and inv :: "'s \<Rightarrow> bool"
  assumes init_inv: "init s \<Longrightarrow> inv s"
    and step_inv: "inv s \<Longrightarrow> step s s' \<Longrightarrow> inv s'"
begin

lemma steps_inv:
  assumes "step\<^sup>*\<^sup>* s s'" and "inv s"
  shows "inv s'"
  using assms by (induction rule: rtranclp_induct) (auto intro: step_inv)

lemma reachable_inv: "init s \<Longrightarrow> step\<^sup>*\<^sup>* s s' \<Longrightarrow> inv s'"
  using steps_inv init_inv by blast

end

end
