(* ===== verification/Policy_Interface.thy ===== *)
theory Policy_Interface
  imports Prelude
begin

text \<open>
  The contract of \<open>EvictionPolicy\<close> (\<open>policies/base.py\<close>) as the cache uses it: a policy
  tracks a finite set of keys, proposes one of them as the next victim exactly when it
  tracks any, and its length is the number of keys it tracks.
\<close>

locale eviction_policy =
  fixes on_get :: "'k \<Rightarrow> 'p \<Rightarrow> 'p"
    and on_put :: "'k \<Rightarrow> 'p \<Rightarrow> 'p"
    and on_delete :: "'k \<Rightarrow> 'p \<Rightarrow> 'p"
    and evict_candidate :: "'p \<Rightarrow> 'k option"
    and clear :: "'p \<Rightarrow> 'p"
    and len :: "'p \<Rightarrow> nat"
    and tracked :: "'p \<Rightarrow> 'k set"
    and inv :: "'p \<Rightarrow> bool"
  assumes inv_on_get: "inv p \<Longrightarrow> inv (on_get k p)"
    and inv_on_put: "inv p \<Longrightarrow> inv (on_put k p)"
    and inv_on_delete: "inv p \<Longrightarrow> inv (on_delete k p)"
    and inv_clear: "inv (clear p)"
    and tracked_on_get: "inv p \<Longrightarrow> tracked (on_get k p) = tracked p"
    and tracked_on_put: "inv p \<Longrightarrow> tracked (on_put k p) = insert k (tracked p)"
    and tracked_on_delete: "inv p \<Longrightarrow> tracked (on_delete k p) = tracked p - {k}"
    and tracked_clear: "tracked (clear p) = {}"
    and candidate_tracked: "inv p \<Longrightarrow> evict_candidate p = Some k \<Longrightarrow> k \<in> tracked p"
    and candidate_exists: "inv p \<Longrightarrow> evict_candidate p = None \<Longrightarrow> tracked p = {}"
    and len_card: "inv p \<Longrightarrow> len p = card (tracked p)"
    and tracked_finite: "inv p \<Longrightarrow> finite (tracked p)"
begin

lemma candidate_None_iff: "inv p \<Longrightarrow> evict_candidate p = None \<longleftrightarrow> tracked p = {}"
  using candidate_exists candidate_tracked by (cases "evict_candidate p") auto

text \<open>Evicting the candidate always makes progress: one key fewer is tracked.\<close>

lemma evict_progress:
  assumes "inv p" and "evict_candidate p = Some k"
  shows "Suc (len (on_delete k p)) = len p"
proof -
  have k: "k \<in> tracked p" using assms by (rule candidate_tracked)
  have "len (on_delete k p) = card (tracked p - {k})"
    using assms(1) by (simp add: len_card inv_on_delete tracked_on_delete)
  also have "Suc \<dots> = card (tracked p)"
    using k tracked_finite [OF assms(1)] by (rule card_Suc_Diff1 [rotated])
  finally show ?thesis using assms(1) by (simp add: len_card)
qed

text \<open>The keys a sequence of gets, puts and deletes leaves tracked.\<close>

lemma tracked_puts: "inv p \<Longrightarrow> tracked (fold on_put ks p) = tracked p \<union> set ks"
  by (induction ks arbitrary: p) (auto simp: inv_on_put tracked_on_put)

end

text \<open>
  A policy that never proposes the key it has just been given while it tracks another
  one. FIFO and LRU have this law; LFU does not.
\<close>

locale newcomer_safe_policy = eviction_policy +
  assumes newcomer_safe:
    "inv p \<Longrightarrow> k \<notin> tracked p \<Longrightarrow> tracked p \<noteq> {} \<Longrightarrow> evict_candidate (on_put k p) \<noteq> Some k"
begin

lemma newcomer_survives:
  assumes "inv p" and "k \<notin> tracked p" and "tracked p \<noteq> {}"
  shows "\<exists>v. evict_candidate (on_put k p) = Some v \<and> v \<in> tracked p"
proof -
  have "tracked (on_put k p) \<noteq> {}" using assms(1) by (simp add: tracked_on_put)
  then obtain v where v: "evict_candidate (on_put k p) = Some v"
    using candidate_None_iff [OF inv_on_put [OF assms(1)]] by (cases "evict_candidate (on_put k p)") auto
  then have "v \<in> insert k (tracked p)"
    using candidate_tracked [OF inv_on_put [OF assms(1)]] assms(1) by (simp add: tracked_on_put)
  with v newcomer_safe [OF assms] show ?thesis by auto
qed

end

end
