(* ===== verification/Ordered_Policies.thy ===== *)
theory Ordered_Policies
  imports Policy_Interface
begin

text \<open>
  \<open>policies/fifo.py\<close> and \<open>policies/lru.py\<close>: both keep one \<open>OrderedDict\<close> of keys, the
  list of keys in order, and evict its first key. Each is interpreted in the policy
  interface and characterised by the trace of the accesses it has seen.
\<close>

section \<open>FIFO\<close>

type_synonym 'k fifo_policy = "'k list"

definition fifo_on_get :: "'k \<Rightarrow> 'k fifo_policy \<Rightarrow> 'k fifo_policy" where
  "fifo_on_get k order = order"

definition fifo_on_put :: "'k \<Rightarrow> 'k fifo_policy \<Rightarrow> 'k fifo_policy" where
  "fifo_on_put k order = (if k \<notin> set order then od_set k order else order)"

definition fifo_on_delete :: "'k \<Rightarrow> 'k fifo_policy \<Rightarrow> 'k fifo_policy" where
  "fifo_on_delete k order = od_pop k order"

definition fifo_evict_candidate :: "'k fifo_policy \<Rightarrow> 'k option" where
  "fifo_evict_candidate order = od_first order"

definition fifo_clear :: "'k fifo_policy \<Rightarrow> 'k fifo_policy" where
  "fifo_clear order = []"

definition fifo_metadata_size :: "'k fifo_policy \<Rightarrow> nat" where
  "fifo_metadata_size order = length order"

definition fifo_len :: "'k fifo_policy \<Rightarrow> nat" where
  "fifo_len order = length order"

lemmas fifo_defs = fifo_on_get_def fifo_on_put_def fifo_on_delete_def
  fifo_evict_candidate_def fifo_clear_def fifo_metadata_size_def fifo_len_def

section \<open>LRU\<close>

type_synonym 'k lru_policy = "'k list"

definition lru_on_get :: "'k \<Rightarrow> 'k lru_policy \<Rightarrow> 'k lru_policy" where
  "lru_on_get k order = (if k \<in> set order then od_move_to_end k order else order)"

definition lru_on_put :: "'k \<Rightarrow> 'k lru_policy \<Rightarrow> 'k lru_policy" where
  "lru_on_put k order = od_move_to_end k (od_set k order)"

definition lru_on_delete :: "'k \<Rightarrow> 'k lru_policy \<Rightarrow> 'k lru_policy" where
  "lru_on_delete k order = od_pop k order"

definition lru_evict_candidate :: "'k lru_policy \<Rightarrow> 'k option" where
  "lru_evict_candidate order = od_first order"

definition lru_clear :: "'k lru_policy \<Rightarrow> 'k lru_policy" where
  "lru_clear order = []"

definition lru_metadata_size :: "'k lru_policy \<Rightarrow> nat" where
  "lru_metadata_size order = length order"

definition lru_len :: "'k lru_policy \<Rightarrow> nat" where
  "lru_len order = length order"

lemmas lru_defs = lru_on_get_def lru_on_put_def lru_on_delete_def
  lru_evict_candidate_def lru_clear_def lru_metadata_size_def lru_len_def

section \<open>The interface laws\<close>

lemma fifo_newcomer_last: "k \<notin> set order \<Longrightarrow> fifo_on_put k order = order @ [k]"
  by (simp add: fifo_defs od_set_def)

lemma lru_put_last: "distinct order \<Longrightarrow> lru_on_put k order = od_pop k order @ [k]"
  by (auto simp: lru_defs od_set_def od_pop_def od_move_to_end_def remove1_append remove1_idem)

lemma od_first_append: "xs \<noteq> [] \<Longrightarrow> od_first (xs @ ys) = Some (hd xs)"
  by (cases xs) (auto simp: od_first_def)

interpretation fifo: newcomer_safe_policy
  fifo_on_get fifo_on_put fifo_on_delete fifo_evict_candidate fifo_clear fifo_len set distinct
proof (standard, goal_cases)
  case (13 p k)
  then have "fifo_evict_candidate (fifo_on_put k p) = Some (hd p)"
    by (simp add: fifo_newcomer_last fifo_evict_candidate_def od_first_append)
  with 13 show ?case by auto
qed (auto simp: fifo_defs od_first_mem distinct_card)

interpretation lru: newcomer_safe_policy
  lru_on_get lru_on_put lru_on_delete lru_evict_candidate lru_clear lru_len set distinct
proof (standard, goal_cases)
  case (13 p k)
  then have "lru_evict_candidate (lru_on_put k p) = Some (hd p)"
    by (simp add: lru_put_last lru_evict_candidate_def od_first_append)
  with 13 show ?case by auto
qed (auto simp: lru_defs od_first_mem distinct_card)

section \<open>Characterisation by the access trace\<close>

text \<open>
  From an empty policy, LRU's order after a sequence of accesses is the accessed keys by
  their last access, and FIFO's by their first.
\<close>

lemma remdups_snoc: "remdups (xs @ [x]) = od_pop x (remdups xs) @ [x]"
  by (induction xs) (auto simp: od_pop_def remove1_idem)

lemma lru_trace: "fold lru_on_put ks [] = remdups ks"
proof (induction ks rule: rev_induct)
  case Nil
  then show ?case by simp
next
  case (snoc k ks)
  then show ?case by (simp add: lru_put_last remdups_snoc)
qed

definition first_occurrences :: "'k list \<Rightarrow> 'k list" where
  "first_occurrences ks = rev (remdups (rev ks))"

lemma fifo_trace: "fold fifo_on_put ks [] = first_occurrences ks"
proof (induction ks rule: rev_induct)
  case Nil
  then show ?case by (simp add: first_occurrences_def)
next
  case (snoc k ks)
  have "set (first_occurrences ks) = set ks" by (simp add: first_occurrences_def)
  with snoc show ?case
    by (auto simp: fifo_defs od_set_def first_occurrences_def)
qed

lemma lru_get_is_put: "k \<in> set order \<Longrightarrow> lru_on_get k order = lru_on_put k order"
  by (simp add: lru_defs od_set_def)

end
