(* ===== verification/Lfu_Policy.thy ===== *)
theory Lfu_Policy
  imports Policy_Interface
begin

text \<open>
  \<open>policies/lfu.py\<close>: the constant-time LFU policy with its key-to-frequency map, its
  frequency buckets and its running minimum. It is interpreted in the policy interface
  and shown to refine a reference LFU that keeps one list of keys with their counts in
  order of last access and searches it for the victim.
\<close>

section \<open>The policy\<close>

record 'k lfu_policy =
  lfu_key_to_freq :: "('k, nat) dict"
  lfu_freq_to_keys :: "(nat, 'k list) dict"
  lfu_min_freq :: nat

definition lfu_init :: "'k lfu_policy" where
  "lfu_init = \<lparr>lfu_key_to_freq = [], lfu_freq_to_keys = [], lfu_min_freq = 0\<rparr>"

text \<open>Reading a missing bucket of the \<open>defaultdict\<close> gives an empty one.\<close>

definition lfu_bucket :: "'k lfu_policy \<Rightarrow> nat \<Rightarrow> 'k list" where
  "lfu_bucket p f = (case dict_get (lfu_freq_to_keys p) f of None \<Rightarrow> [] | Some b \<Rightarrow> b)"

text \<open>\<open>min(self._freq_to_keys, default=0)\<close>\<close>

definition dict_min_key :: "(nat, 'a) dict \<Rightarrow> nat" where
  "dict_min_key d = (case dict_keys d of [] \<Rightarrow> 0 | f # fs \<Rightarrow> fold min fs f)"

definition lfu_bump :: "'k \<Rightarrow> nat \<Rightarrow> 'k lfu_policy \<Rightarrow> 'k lfu_policy" where
  "lfu_bump k old_freq p =
     (let old_bucket = od_pop k (lfu_bucket p old_freq);
          p1 = (if old_bucket = []
                then p\<lparr>lfu_freq_to_keys := dict_pop old_freq (lfu_freq_to_keys p),
                       lfu_min_freq :=
                         (if lfu_min_freq p = old_freq then old_freq + 1 else lfu_min_freq p)\<rparr>
                else p\<lparr>lfu_freq_to_keys := dict_set old_freq old_bucket (lfu_freq_to_keys p)\<rparr>);
          new_freq = old_freq + 1
      in p1\<lparr>lfu_key_to_freq := dict_set k new_freq (lfu_key_to_freq p1),
            lfu_freq_to_keys :=
              dict_set new_freq (od_set k (lfu_bucket p1 new_freq)) (lfu_freq_to_keys p1)\<rparr>)"

definition lfu_on_get :: "'k \<Rightarrow> 'k lfu_policy \<Rightarrow> 'k lfu_policy" where
  "lfu_on_get k p =
     (case dict_get (lfu_key_to_freq p) k of None \<Rightarrow> p | Some f \<Rightarrow> lfu_bump k f p)"

definition lfu_on_put :: "'k \<Rightarrow> 'k lfu_policy \<Rightarrow> 'k lfu_policy" where
  "lfu_on_put k p =
     (case dict_get (lfu_key_to_freq p) k of
        Some f \<Rightarrow> lfu_bump k f p
      | None \<Rightarrow>
          p\<lparr>lfu_key_to_freq := dict_set k 1 (lfu_key_to_freq p),
            lfu_freq_to_keys := dict_set 1 (od_set k (lfu_bucket p 1)) (lfu_freq_to_keys p),
            lfu_min_freq := 1\<rparr>)"

definition lfu_on_delete :: "'k \<Rightarrow> 'k lfu_policy \<Rightarrow> 'k lfu_policy" where
  "lfu_on_delete k p =
     (case dict_get (lfu_key_to_freq p) k of
        None \<Rightarrow> p
      | Some f \<Rightarrow>
          (let p1 = p\<lparr>lfu_key_to_freq := dict_pop k (lfu_key_to_freq p)\<rparr>;
               bucket = od_pop k (lfu_bucket p1 f)
           in if bucket = []
              then (let ftk = dict_pop f (lfu_freq_to_keys p1) in
                    p1\<lparr>lfu_freq_to_keys := ftk,
                       lfu_min_freq :=
                         (if lfu_min_freq p1 = f then dict_min_key ftk else lfu_min_freq p1)\<rparr>)
              else p1\<lparr>lfu_freq_to_keys := dict_set f bucket (lfu_freq_to_keys p1)\<rparr>))"

definition lfu_evict_candidate :: "'k lfu_policy \<Rightarrow> 'k option" where
  "lfu_evict_candidate p =
     (if lfu_min_freq p = 0 then None
      else (case dict_get (lfu_freq_to_keys p) (lfu_min_freq p) of
              None \<Rightarrow> None
            | Some bucket \<Rightarrow> if bucket = [] then None else od_first bucket))"

definition lfu_clear :: "'k lfu_policy \<Rightarrow> 'k lfu_policy" where
  "lfu_clear p = p\<lparr>lfu_key_to_freq := [], lfu_freq_to_keys := [], lfu_min_freq := 0\<rparr>"

definition lfu_metadata_size :: "'k lfu_policy \<Rightarrow> nat" where
  "lfu_metadata_size p =
     length (lfu_key_to_freq p) + sum_list (map length (dict_values (lfu_freq_to_keys p)))"

definition lfu_len :: "'k lfu_policy \<Rightarrow> nat" where
  "lfu_len p = length (lfu_key_to_freq p)"

section \<open>The reference policy\<close>

text \<open>
  The specification: the tracked keys with their access counts, least recently accessed
  first. The victim is the first key of minimal count.
\<close>

type_synonym 'k lfu_spec = "('k \<times> nat) list"

definition spec_touch :: "'k \<Rightarrow> 'k lfu_spec \<Rightarrow> 'k lfu_spec" where
  "spec_touch k h = dict_pop k h @ [(k, Suc (dict_get0 h k))]"

definition spec_get :: "'k \<Rightarrow> 'k lfu_spec \<Rightarrow> 'k lfu_spec" where
  "spec_get k h = (if k \<in> fst ` set h then spec_touch k h else h)"

definition spec_delete :: "'k \<Rightarrow> 'k lfu_spec \<Rightarrow> 'k lfu_spec" where
  "spec_delete k h = dict_pop k h"

definition spec_candidate :: "'k lfu_spec \<Rightarrow> 'k option" where
  "spec_candidate h =
     (if h = [] then None
      else map_option fst (find (\<lambda>p. \<forall>q \<in> set h. snd p \<le> snd q) h))"

text \<open>
  The simulation relation: the frequency map is the counts of the reference list, the
  bucket of a frequency is the keys of that count in the reference order, and the
  running minimum is the least count (0 when nothing is tracked).
\<close>

definition spec_bucket :: "'k lfu_spec \<Rightarrow> nat \<Rightarrow> 'k list" where
  "spec_bucket h f = map fst (filter (\<lambda>p. snd p = f) h)"

definition lfu_abs :: "'k lfu_policy \<Rightarrow> 'k lfu_spec \<Rightarrow> bool" where
  "lfu_abs p h \<longleftrightarrow>
     dict_wf h \<and> dict_wf (lfu_key_to_freq p) \<and> dict_wf (lfu_freq_to_keys p) \<and>
     (\<forall>q \<in> set h. 0 < snd q) \<and>
     map_of (lfu_key_to_freq p) = map_of h \<and>
     (\<forall>f. dict_get (lfu_freq_to_keys p) f =
        (if spec_bucket h f = [] then None else Some (spec_bucket h f))) \<and>
     lfu_min_freq p = (if h = [] then 0 else Min (snd ` set h))"

definition lfu_inv :: "'k lfu_policy \<Rightarrow> bool" where
  "lfu_inv p \<longleftrightarrow> (\<exists>h. lfu_abs p h)"

definition lfu_tracked :: "'k lfu_policy \<Rightarrow> 'k set" where
  "lfu_tracked p = fst ` set (lfu_key_to_freq p)"

section \<open>Refinement\<close>

lemma spec_bucket_append [simp]: "spec_bucket (h @ h') f = spec_bucket h f @ spec_bucket h' f"
  by (simp add: spec_bucket_def)

lemma spec_bucket_Cons: "spec_bucket (q # h) f = (if snd q = f then fst q # spec_bucket h f else spec_bucket h f)"
  by (simp add: spec_bucket_def)

lemma spec_bucket_Nil [simp]: "spec_bucket [] f = []"
  by (simp add: spec_bucket_def)

lemma spec_bucket_keys: "set (spec_bucket h f) \<subseteq> fst ` set h"
  by (auto simp: spec_bucket_def)

lemma spec_bucket_mem: "dict_wf h \<Longrightarrow> k \<in> set (spec_bucket h f) \<longleftrightarrow> map_of h k = Some f"
  by (auto simp: spec_bucket_def dest!: map_of_SomeD intro: rev_image_eqI)

lemma spec_bucket_distinct: "dict_wf h \<Longrightarrow> distinct (spec_bucket h f)"
  by (induction h) (auto simp: spec_bucket_Cons dest: set_mp [OF spec_bucket_keys])

lemma spec_bucket_pop:
  "dict_wf h \<Longrightarrow> spec_bucket (dict_pop k h) f = od_pop k (spec_bucket h f)"
proof (induction h)
  case Nil
  then show ?case by (simp add: od_pop_def)
next
  case (Cons q h)
  obtain k' f' where q: "q = (k', f')" by fastforce
  have nk: "k' \<notin> set (spec_bucket h f)"
    using Cons.prems spec_bucket_keys [of h f] by (auto simp: q)
  have "k' \<notin> fst ` set h" using Cons.prems by (simp add: q)
  with Cons nk show ?case by (auto simp: q spec_bucket_Cons od_pop_def remove1_idem)
qed

lemma spec_bucket_empty: "spec_bucket h f = [] \<longleftrightarrow> f \<notin> snd ` set h"
  by (force simp: spec_bucket_def filter_empty_conv)

lemma fold_min_Min: "fold min fs f = Min (set (f # fs))" for f :: nat
  by (simp only: Min.set_eq_fold)

lemma dict_min_key_Min: "dict_min_key d = (if d = [] then 0 else Min (fst ` set d))"
  by (cases d) (simp_all add: dict_min_key_def fold_min_Min)

text \<open>Arithmetic of the running minimum when one count goes from \<open>f\<close> to \<open>f + 1\<close>.\<close>

lemma Min_bump:
  assumes "finite A"
  shows "Min (insert (Suc f) A) =
     (if f \<notin> A \<and> Min (insert f A) = f then Suc f else Min (insert f A))"
proof (cases "A = {}")
  case True
  then show ?thesis by simp
next
  case False
  with assms have M: "Min A \<in> A" and le: "f \<in> A \<Longrightarrow> Min A \<le> f" by auto
  have ne: "f \<notin> A \<Longrightarrow> Min A \<noteq> f" using M by metis
  have ins: "Min (insert x A) = min x (Min A)" for x
    using assms False by (rule Min_insert)
  obtain m where m: "Min A = m" by simp
  show ?thesis unfolding ins m using le ne unfolding m
    by (cases "f \<in> A") (auto simp: min_def)
qed

lemma lfu_absD:
  assumes "lfu_abs p h"
  shows "dict_wf h" "dict_wf (lfu_key_to_freq p)" "dict_wf (lfu_freq_to_keys p)"
    and "\<And>q. q \<in> set h \<Longrightarrow> 0 < snd q"
    and "map_of (lfu_key_to_freq p) = map_of h"
    and "\<And>f. dict_get (lfu_freq_to_keys p) f =
        (if spec_bucket h f = [] then None else Some (spec_bucket h f))"
    and "lfu_bucket p f = spec_bucket h f"
    and "lfu_min_freq p = (if h = [] then 0 else Min (snd ` set h))"
  using assms by (auto simp: lfu_abs_def lfu_bucket_def)

lemma snd_pop_insert:
  assumes "dict_wf h" and "map_of h k = Some f"
  shows "snd ` set h = insert f (snd ` set (dict_pop k h))"
  using assms
proof (induction h)
  case Nil
  then show ?case by simp
next
  case (Cons q h)
  then show ?case by (cases q) (auto split: if_splits)
qed

lemma lfu_key_tracked: "lfu_abs p h \<Longrightarrow> lfu_tracked p = fst ` set h"
  unfolding lfu_tracked_def by (metis dom_map_of_conv_image_fst lfu_absD(5))

lemma lfu_absI:
  assumes "dict_wf h" and "dict_wf (lfu_key_to_freq p)" and "dict_wf (lfu_freq_to_keys p)"
    and "\<And>q. q \<in> set h \<Longrightarrow> 0 < snd q"
    and "\<And>k. dict_get (lfu_key_to_freq p) k = map_of h k"
    and "\<And>f. dict_get (lfu_freq_to_keys p) f =
        (if spec_bucket h f = [] then None else Some (spec_bucket h f))"
    and "lfu_min_freq p = (if h = [] then 0 else Min (snd ` set h))"
  shows "lfu_abs p h"
  using assms by (simp add: lfu_abs_def fun_eq_iff)

definition lfu_drop :: "'k \<Rightarrow> nat \<Rightarrow> 'k lfu_policy \<Rightarrow> (nat, 'k list) dict" where
  "lfu_drop k f p =
     (let bucket = od_pop k (lfu_bucket p f) in
      if bucket = [] then dict_pop f (lfu_freq_to_keys p)
      else dict_set f bucket (lfu_freq_to_keys p))"

text \<open>Taking a key out of its bucket, as both a bump and a delete do.\<close>

lemma lfu_drop_get:
  assumes "lfu_abs p h" and "map_of h k = Some f"
  shows "dict_get (lfu_drop k f p) g =
     (if od_pop k (spec_bucket h g) = [] then None else Some (od_pop k (spec_bucket h g)))"
  using lfu_absD(6,7) [OF assms(1)] spec_bucket_mem [of h k g] lfu_absD(1) [OF assms(1)] assms(2)
  by (auto simp: lfu_drop_def Let_def)

lemma lfu_drop_wf: "dict_wf (lfu_freq_to_keys p) \<Longrightarrow> dict_wf (lfu_drop k f p)"
  by (simp add: lfu_drop_def Let_def)

lemma lfu_bump_fields:
  "lfu_key_to_freq (lfu_bump k f p) = dict_set k (Suc f) (lfu_key_to_freq p)"
  "lfu_freq_to_keys (lfu_bump k f p) =
     dict_set (Suc f)
       (od_set k (case dict_get (lfu_drop k f p) (Suc f) of None \<Rightarrow> [] | Some b \<Rightarrow> b))
       (lfu_drop k f p)"
  "lfu_min_freq (lfu_bump k f p) =
     (if od_pop k (lfu_bucket p f) = [] \<and> lfu_min_freq p = f then Suc f else lfu_min_freq p)"
  by (simp_all add: lfu_bump_def lfu_drop_def lfu_bucket_def Let_def)

lemma lfu_delete_fields:
  assumes "dict_get (lfu_key_to_freq p) k = Some f"
  shows "lfu_key_to_freq (lfu_on_delete k p) = dict_pop k (lfu_key_to_freq p)"
    and "lfu_freq_to_keys (lfu_on_delete k p) = lfu_drop k f p"
    and "lfu_min_freq (lfu_on_delete k p) =
      (if od_pop k (lfu_bucket p f) = [] \<and> lfu_min_freq p = f
       then dict_min_key (lfu_drop k f p) else lfu_min_freq p)"
  using assms by (simp_all add: lfu_on_delete_def lfu_drop_def lfu_bucket_def Let_def)

lemma spec_pop_pos:
  "(\<And>q. q \<in> set h \<Longrightarrow> 0 < snd q) \<Longrightarrow> q \<in> set (dict_pop k h) \<Longrightarrow> 0 < (snd q :: nat)"
  by (auto simp: AList.delete_eq)

lemma lfu_abs_init: "lfu_abs lfu_init []"
  by (simp add: lfu_abs_def lfu_init_def)

lemma lfu_bump_abs:
  assumes abs: "lfu_abs p h" and k: "map_of h k = Some f"
  shows "lfu_abs (lfu_bump k f p) (spec_touch k h)"
proof -
  note D = lfu_absD [OF abs]
  let ?A = "snd ` set (dict_pop k h)"
  have touch: "spec_touch k h = dict_pop k h @ [(k, Suc f)]" using k by (simp add: spec_touch_def)
  have ne: "h \<noteq> []" using k by auto
  have notin: "k \<notin> set (spec_bucket h (Suc f))" using D(1) k by (simp add: spec_bucket_mem)
  have emp: "od_pop k (spec_bucket h f) = [] \<longleftrightarrow> f \<notin> ?A"
    using D(1) spec_bucket_pop [of h k f] spec_bucket_empty [of "dict_pop k h" f] by simp
  show ?thesis unfolding touch
  proof (rule lfu_absI, goal_cases)
    case 1
    show ?case using D(1) by auto
  next
    case (4 q)
    then show ?case using spec_pop_pos [of h q k] D(4) by auto
  next
    case (5 j)
    show ?case using D(5) by (simp add: lfu_bump_fields map_of_append map_add_def split: option.splits)
  next
    case (6 g)
    show ?case
      using notin D(1)
      by (simp add: lfu_bump_fields lfu_drop_get [OF abs k] od_set_def spec_bucket_pop spec_bucket_Cons)
  next
    case 7
    show ?case
      using Min_bump [of ?A f] snd_pop_insert [OF D(1) k] emp ne D(8)
      by (simp add: lfu_bump_fields D(7))
  qed (simp_all add: D(2,3) lfu_bump_fields lfu_drop_wf)
qed

lemma lfu_on_put_abs:
  assumes abs: "lfu_abs p h"
  shows "lfu_abs (lfu_on_put k p) (spec_touch k h)"
proof (cases "map_of h k")
  case (Some f)
  then show ?thesis using lfu_bump_abs [OF abs Some] lfu_absD(5) [OF abs] by (simp add: lfu_on_put_def)
next
  case None
  note D = lfu_absD [OF abs]
  from None have kh: "k \<notin> fst ` set h" by (simp add: dict_get_None)
  then have touch: "spec_touch k h = h @ [(k, 1)]" using None by (simp add: spec_touch_def)
  have notin: "k \<notin> set (spec_bucket h 1)" using D(1) None by (simp add: spec_bucket_mem)
  have one: "Min (insert 1 (snd ` set h)) = 1"
    using D(4) by (intro Min_eqI) (auto simp: Suc_le_eq)
  show ?thesis
    using D kh notin one None
    by (auto simp: lfu_abs_def lfu_on_put_def touch map_of_append fun_eq_iff map_add_def
        od_set_def spec_bucket_Cons Suc_le_eq split: option.splits)
qed

lemma lfu_on_get_abs:
  assumes "lfu_abs p h"
  shows "lfu_abs (lfu_on_get k p) (spec_get k h)"
proof (cases "map_of h k")
  case (Some f)
  then show ?thesis
    using lfu_bump_abs [OF assms Some] lfu_absD(5) [OF assms] dict_get_in_keys [OF Some]
    by (simp add: lfu_on_get_def spec_get_def)
next
  case None
  then have "k \<notin> fst ` set h" by (simp add: dict_get_None)
  with None show ?thesis
    using assms lfu_absD(5) [OF assms] by (simp add: lfu_on_get_def spec_get_def)
qed

lemma lfu_on_delete_abs:
  assumes abs: "lfu_abs p h"
  shows "lfu_abs (lfu_on_delete k p) (spec_delete k h)"
proof (cases "map_of h k")
  case None
  then have "k \<notin> fst ` set h" by (simp add: dict_get_None)
  with None show ?thesis
    using abs lfu_absD(5) [OF abs] by (simp add: lfu_on_delete_def spec_delete_def)
next
  case (Some f)
  note D = lfu_absD [OF abs]
  let ?A = "snd ` set (dict_pop k h)"
  have get: "dict_get (lfu_key_to_freq p) k = Some f" using D(5) Some by simp
  note F = lfu_delete_fields [OF get]
  have emp: "od_pop k (spec_bucket h f) = [] \<longleftrightarrow> f \<notin> ?A"
    using D(1) spec_bucket_pop [of h k f] spec_bucket_empty [of "dict_pop k h" f] by simp
  have counts: "snd ` set h = insert f ?A" using D(1) Some by (rule snd_pop_insert)
  have "g \<in> fst ` set (lfu_drop k f p) \<longleftrightarrow> g \<in> ?A" for g
    using spec_bucket_empty [of "dict_pop k h" g] D(1) dict_get_None [of "lfu_drop k f p" g]
    by (simp add: lfu_drop_get [OF abs Some] spec_bucket_pop split: if_splits)
  then have keys: "fst ` set (lfu_drop k f p) = ?A" by blast
  show ?thesis unfolding spec_delete_def
  proof (rule lfu_absI, goal_cases)
    case (4 q)
    then show ?case using spec_pop_pos [of h q k] D(4) by auto
  next
    case (6 g)
    show ?case using D(1) by (simp add: F lfu_drop_get [OF abs Some] spec_bucket_pop)
  next
    case 7
    have ne: "lfu_drop k f p = [] \<longleftrightarrow> dict_pop k h = []" using keys by (metis image_is_empty set_empty)
    show ?case
    proof (cases "f \<in> ?A")
      case True
      then have "insert f ?A = ?A" and "dict_pop k h \<noteq> []" and "h \<noteq> []" using Some by (auto simp: insert_absorb)
      with True show ?thesis using D(8) emp counts by (simp add: F D(7))
    next
      case False
      have "?A \<noteq> {} \<Longrightarrow> Min (insert f ?A) = min f (Min ?A)" by simp
      moreover have "?A \<noteq> {} \<Longrightarrow> Min ?A \<noteq> f" using False Min_in [of ?A] by auto
      ultimately show ?thesis
        using False Some D(8) emp counts keys ne
        by (auto simp: F D(7) dict_min_key_Min min_def)
    qed
  qed (simp_all add: D F lfu_drop_wf)
qed

lemma lfu_clear_abs: "lfu_abs (lfu_clear p) []"
  by (simp add: lfu_abs_def lfu_clear_def)

lemma find_filter: "find P xs = (case filter P xs of [] \<Rightarrow> None | x # _ \<Rightarrow> Some x)"
  by (induction xs) auto

lemma lfu_candidate_abs:
  assumes abs: "lfu_abs p h"
  shows "lfu_evict_candidate p = spec_candidate h"
proof (cases "h = []")
  case True
  then show ?thesis using lfu_absD(8) [OF abs] by (simp add: lfu_evict_candidate_def spec_candidate_def)
next
  case False
  note D = lfu_absD [OF abs]
  let ?m = "Min (snd ` set h)"
  have mem: "?m \<in> snd ` set h" using False by (intro Min_in) auto
  have pos: "0 < ?m" using mem D(4) by auto
  have least: "q \<in> set h \<Longrightarrow> (\<forall>r \<in> set h. snd q \<le> snd r) \<longleftrightarrow> snd q = ?m" for q
    using False by (auto intro!: antisym Min_le simp: Min_ge_iff)
  have "filter (\<lambda>q. \<forall>r \<in> set h. snd q \<le> snd r) h = filter (\<lambda>q. snd q = ?m) h"
    using least by (intro filter_cong) auto
  then have "spec_candidate h = od_first (spec_bucket h ?m)"
    using False
    by (simp add: spec_candidate_def find_filter spec_bucket_def od_first_def split: list.splits)
  moreover have "spec_bucket h ?m \<noteq> []" using mem by (simp add: spec_bucket_empty)
  moreover obtain m where m: "?m = m" by simp
  ultimately show ?thesis
    using D(6) [of m] D(8) False pos unfolding m by (simp add: lfu_evict_candidate_def)
qed

lemma spec_candidate_least:
  assumes "h \<noteq> []"
  shows "\<exists>k f. spec_candidate h = Some k \<and> (k, f) \<in> set h \<and> (\<forall>q \<in> set h. f \<le> snd q)"
proof -
  let ?P = "\<lambda>p. \<forall>q \<in> set h. snd p \<le> snd q"
  have "Min (snd ` set h) \<in> snd ` set h" using assms by (intro Min_in) auto
  then obtain p where p: "p \<in> set h" "snd p = Min (snd ` set h)" by auto
  then have "?P p" by simp
  with p(1) have "find ?P h \<noteq> None" unfolding find_None_iff by blast
  then obtain q where q: "find ?P h = Some q" by auto
  then have "?P q" and "q \<in> set h" by (auto simp: find_Some_iff)
  with q assms show ?thesis
    by (intro exI [of _ "fst q"] exI [of _ "snd q"]) (simp add: spec_candidate_def)
qed

section \<open>The interface laws\<close>

lemma spec_touch_keys: "fst ` set (spec_touch k h) = insert k (fst ` set h)"
  by (auto simp: spec_touch_def)

lemma lfu_invI: "lfu_abs p h \<Longrightarrow> lfu_inv p"
  by (auto simp: lfu_inv_def)

lemma lfu_inv_init: "lfu_inv lfu_init"
  using lfu_abs_init by (rule lfu_invI)

lemma lfu_tracked_candidate:
  assumes "lfu_abs p h"
  shows "case lfu_evict_candidate p of None \<Rightarrow> lfu_tracked p = {} | Some k \<Rightarrow> k \<in> lfu_tracked p"
proof (cases "h = []")
  case True
  then show ?thesis
    using assms by (simp add: lfu_candidate_abs lfu_key_tracked spec_candidate_def)
next
  case False
  then obtain k f where "spec_candidate h = Some k" and "(k, f) \<in> set h"
    using spec_candidate_least by blast
  then show ?thesis using assms by (force simp: lfu_candidate_abs lfu_key_tracked)
qed

interpretation lfu: eviction_policy
  lfu_on_get lfu_on_put lfu_on_delete lfu_evict_candidate lfu_clear lfu_len lfu_tracked lfu_inv
proof (standard, goal_cases)
  case (1 p k)
  then show ?case by (auto simp: lfu_inv_def intro: lfu_on_get_abs)
next
  case (2 p k)
  then show ?case by (auto simp: lfu_inv_def intro: lfu_on_put_abs)
next
  case (3 p k)
  then show ?case by (auto simp: lfu_inv_def intro: lfu_on_delete_abs)
next
  case (4 p)
  show ?case by (rule lfu_invI [OF lfu_clear_abs])
next
  case (5 p k)
  then obtain h where h: "lfu_abs p h" by (auto simp: lfu_inv_def)
  then show ?case
    by (auto simp: lfu_key_tracked [OF h] lfu_key_tracked [OF lfu_on_get_abs [OF h]] spec_get_def spec_touch_keys)
next
  case (6 p k)
  then obtain h where h: "lfu_abs p h" by (auto simp: lfu_inv_def)
  then show ?case
    by (simp add: lfu_key_tracked [OF h] lfu_key_tracked [OF lfu_on_put_abs [OF h]] spec_touch_keys)
next
  case (7 p k)
  then obtain h where h: "lfu_abs p h" by (auto simp: lfu_inv_def)
  then show ?case
    by (simp add: lfu_key_tracked [OF h] lfu_key_tracked [OF lfu_on_delete_abs [OF h]] spec_delete_def)
next
  case (8 p)
  show ?case by (simp add: lfu_clear_def lfu_tracked_def)
next
  case (9 p k)
  then show ?case using lfu_tracked_candidate by (fastforce simp: lfu_inv_def)
next
  case (10 p)
  then show ?case using lfu_tracked_candidate by (fastforce simp: lfu_inv_def)
next
  case (11 p)
  then show ?case by (auto simp: lfu_inv_def lfu_len_def lfu_tracked_def dest: lfu_absD(2) dict_length_keys)
next
  case (12 p)
  show ?case by (simp add: lfu_tracked_def)
qed

end
