(* ===== verification/Stats.thy ===== *)
theory Stats
  imports Prelude
begin

text \<open>
  \<open>core/stats.py\<close>, \<open>core/lifecycle.py\<close>, \<open>storage/write_modes.py\<close> and the runtime
  counters of \<open>core/cache.py\<close>: the plain data of the cache.
\<close>

record mutable_stats =
  st_hits :: nat
  st_misses :: nat
  st_puts :: nat
  st_deletes :: nat
  st_evictions :: nat
  st_expirations :: nat

definition mutable_stats_init :: mutable_stats where
  "mutable_stats_init =
     \<lparr>st_hits = 0, st_misses = 0, st_puts = 0, st_deletes = 0, st_evictions = 0,
      st_expirations = 0\<rparr>"

record policy_stats =
  ps_name :: string
  ps_evictions :: nat
  ps_tracked_keys :: nat
  ps_metadata_size :: nat

record shard_stats =
  ss_index :: nat
  ss_size :: nat
  ss_capacity :: nat
  ss_hits :: nat
  ss_misses :: nat
  ss_puts :: nat
  ss_deletes :: nat
  ss_evictions :: nat
  ss_expirations :: nat
  ss_lock_contention :: nat
  ss_policy :: policy_stats

record cache_stats =
  cs_hits :: nat
  cs_misses :: nat
  cs_hit_ratio :: real
  cs_puts :: nat
  cs_deletes :: nat
  cs_evictions :: nat
  cs_expirations :: nat
  cs_size :: nat
  cs_capacity :: nat
  cs_queue_depth :: nat
  cs_queue_dropped :: nat
  cs_worker_jobs_completed :: nat
  cs_worker_jobs_failed :: nat
  cs_write_back_retries :: nat
  cs_stale_write_back_jobs_skipped :: nat
  cs_flush_failures :: nat
  cs_shutdown_flush_failures :: nat
  cs_shards :: "shard_stats list"

record runtime_stats =
  rt_worker_jobs_completed :: nat
  rt_worker_jobs_failed :: nat
  rt_write_back_retries :: nat
  rt_stale_write_back_jobs_skipped :: nat
  rt_flush_failures :: nat
  rt_shutdown_flush_failures :: nat

definition runtime_stats_init :: runtime_stats where
  "runtime_stats_init =
     \<lparr>rt_worker_jobs_completed = 0, rt_worker_jobs_failed = 0, rt_write_back_retries = 0,
      rt_stale_write_back_jobs_skipped = 0, rt_flush_failures = 0,
      rt_shutdown_flush_failures = 0\<rparr>"

datatype lifecycle_state = CREATED | STARTED | CLOSING | CLOSED

datatype write_mode = CACHE_ONLY | WRITE_THROUGH | WRITE_BACK

fun write_mode_value :: "write_mode \<Rightarrow> string" where
  "write_mode_value CACHE_ONLY = ''cache-only''"
| "write_mode_value WRITE_THROUGH = ''write-through''"
| "write_mode_value WRITE_BACK = ''write-back''"

text \<open>\<open>WriteMode(mode)\<close>, as \<open>Cache._parse_write_mode\<close> calls it.\<close>

definition parse_write_mode :: "string \<Rightarrow> cache_error + write_mode" where
  "parse_write_mode mode =
     (if mode = ''cache-only'' then Inr CACHE_ONLY
      else if mode = ''write-through'' then Inr WRITE_THROUGH
      else if mode = ''write-back'' then Inr WRITE_BACK
      else Inl UnsupportedWriteModeError)"

lemma parse_write_mode_value: "parse_write_mode (write_mode_value m) = Inr m"
  by (cases m) (simp_all add: parse_write_mode_def)

lemma parse_write_mode_Inr: "parse_write_mode s = Inr m \<longleftrightarrow> s = write_mode_value m"
  by (cases m) (auto simp: parse_write_mode_def)

end
