(* ===== verification/Config.thy ===== *)
theory Config
  imports Stats
begin

text \<open>
  \<open>core/config.py\<close>: the configuration record, the validation of \<open>__post_init__\<close> and
  the normalisation of a TOML table. Reading and parsing the TOML file is I/O; its
  result, a table, is the argument of \<open>config_from_table\<close>.
\<close>

record cache_config =
  cfg_capacity :: int
  cfg_default_ttl :: "time option"
  cfg_policy :: string
  cfg_shard_count :: int
  cfg_worker_count :: int
  cfg_backend :: string
  cfg_write_mode :: string
  cfg_scheduler_interval :: time
  cfg_queue_size :: int
  cfg_write_back_retry_count :: int
  cfg_write_back_retry_delay :: time
  cfg_shutdown_flush :: bool
  cfg_shutdown_timeout :: time
  cfg_active_expiration :: bool
  cfg_queue_put_timeout :: time

definition default_config :: cache_config where
  "default_config =
     \<lparr>cfg_capacity = 128, cfg_default_ttl = None, cfg_policy = ''lru'', cfg_shard_count = 1,
      cfg_worker_count = 0, cfg_backend = ''memory'', cfg_write_mode = ''cache-only'',
      cfg_scheduler_interval = 1, cfg_queue_size = 0, cfg_write_back_retry_count = 2,
      cfg_write_back_retry_delay = 1 / 100, cfg_shutdown_flush = True,
      cfg_shutdown_timeout = 5, cfg_active_expiration = True, cfg_queue_put_timeout = 1\<rparr>"

text \<open>\<open>str.lower\<close> on ASCII letters.\<close>

definition char_lower :: "char \<Rightarrow> char" where
  "char_lower c =
     (let n = (of_char c :: nat) in if 65 \<le> n \<and> n \<le> 90 then char_of (n + 32) else c)"

definition str_lower :: "string \<Rightarrow> string" where
  "str_lower s = map char_lower s"

definition supported_backends :: "string list" where
  "supported_backends = [''memory'']"

definition supported_policies :: "string list" where
  "supported_policies = [''lru'', ''lfu'', ''fifo'']"

definition supported_write_modes :: "string list" where
  "supported_write_modes = map write_mode_value [CACHE_ONLY, WRITE_THROUGH, WRITE_BACK]"

definition config_post_init :: "cache_config \<Rightarrow> cache_error + cache_config" where
  "config_post_init c =
     (if cfg_capacity c < 1 then Inl ConfigurationError
      else if cfg_shard_count c \<le> 0 then Inl ConfigurationError
      else if cfg_capacity c < cfg_shard_count c then Inl ConfigurationError
      else if (case cfg_default_ttl c of None \<Rightarrow> False | Some t \<Rightarrow> t < 0)
        then Inl ConfigurationError
      else if cfg_worker_count c < 0 then Inl ConfigurationError
      else if cfg_queue_size c < 0 then Inl ConfigurationError
      else if cfg_scheduler_interval c < 0 then Inl ConfigurationError
      else if cfg_active_expiration c \<and> cfg_scheduler_interval c \<le> 0
        then Inl ConfigurationError
      else if cfg_write_back_retry_count c < 0 then Inl ConfigurationError
      else if str_lower (cfg_policy c) \<notin> set supported_policies then Inl ConfigurationError
      else if cfg_write_mode c \<notin> set supported_write_modes then Inl ConfigurationError
      else if cfg_backend c \<notin> set supported_backends then Inl ConfigurationError
      else Inr c)"

text \<open>What a constructed configuration promises to the rest of the cache.\<close>

definition config_valid :: "cache_config \<Rightarrow> bool" where
  "config_valid c \<longleftrightarrow>
     1 \<le> cfg_shard_count c \<and> cfg_shard_count c \<le> cfg_capacity c \<and>
     (\<forall>t. cfg_default_ttl c = Some t \<longrightarrow> 0 \<le> t) \<and>
     0 \<le> cfg_worker_count c \<and> 0 \<le> cfg_queue_size c \<and> 0 \<le> cfg_scheduler_interval c \<and>
     (cfg_active_expiration c \<longrightarrow> 0 < cfg_scheduler_interval c) \<and>
     0 \<le> cfg_write_back_retry_count c \<and>
     str_lower (cfg_policy c) \<in> {''lru'', ''lfu'', ''fifo''} \<and>
     (\<exists>m. parse_write_mode (cfg_write_mode c) = Inr m) \<and> cfg_backend c = ''memory''"

lemma supported_write_modes_parse:
  "s \<in> set supported_write_modes \<longleftrightarrow> (\<exists>m. parse_write_mode s = Inr m)"
  by (auto simp: supported_write_modes_def parse_write_mode_def)

lemma config_post_init_iff: "config_post_init c = Inr c' \<longleftrightarrow> c' = c \<and> config_valid c"
  by (auto simp: config_post_init_def config_valid_def supported_policies_def
      supported_backends_def supported_write_modes_parse split: option.splits)

lemma config_post_init_error:
  "config_post_init c = Inl e \<longleftrightarrow> e = ConfigurationError \<and> \<not> config_valid c"
proof -
  have only: "config_post_init c = Inl x \<Longrightarrow> x = ConfigurationError" for x
    by (auto simp: config_post_init_def split: if_splits)
  show ?thesis
  proof (cases "config_post_init c")
    case (Inl x)
    then have "\<not> config_valid c" using config_post_init_iff [of c c] by auto
    with Inl only [of x] show ?thesis by auto
  next
    case (Inr x)
    then show ?thesis using config_post_init_iff [of c x] by auto
  qed
qed

section \<open>TOML tables\<close>

datatype toml =
    TInt int
  | TFloat time
  | TStr string
  | TBool bool
  | TTable "(string \<times> toml) list"

definition config_aliases :: "(string, string) dict" where
  "config_aliases =
     [(''default TTL'', ''default_ttl''), (''default_ttl_seconds'', ''default_ttl''),
      (''shards'', ''shard_count''), (''workers'', ''worker_count''),
      (''queue_maxsize'', ''queue_size''), (''retry_count'', ''write_back_retry_count''),
      (''retry_delay'', ''write_back_retry_delay'')]"

definition config_fields :: "string list" where
  "config_fields =
     [''capacity'', ''default_ttl'', ''policy'', ''shard_count'', ''worker_count'',
      ''backend'', ''write_mode'', ''scheduler_interval'', ''queue_size'',
      ''write_back_retry_count'', ''write_back_retry_delay'', ''shutdown_flush'',
      ''shutdown_timeout'', ''active_expiration'', ''queue_put_timeout'']"

definition config_field_name :: "string \<Rightarrow> string" where
  "config_field_name key = (case dict_get config_aliases key of None \<Rightarrow> key | Some f \<Rightarrow> f)"

fun normalize_loop ::
  "(string, 'a) dict \<Rightarrow> (string, 'a) dict \<Rightarrow> string list \<Rightarrow> (string, 'a) dict \<times> string list"
where
  "normalize_loop [] normalized unknown = (normalized, unknown)"
| "normalize_loop ((key, v) # data) normalized unknown =
     (let f = config_field_name key in
      if f \<in> set config_fields then normalize_loop data (dict_set f v normalized) unknown
      else normalize_loop data normalized (unknown @ [key]))"

definition normalize_config :: "(string, 'a) dict \<Rightarrow> cache_error + (string, 'a) dict" where
  "normalize_config data =
     (case normalize_loop data [] [] of (normalized, unknown) \<Rightarrow>
        if unknown \<noteq> [] then Inl ConfigurationError else Inr normalized)"

text \<open>
  \<open>cls(**normalized)\<close>: the fields given replace the defaults, then \<open>__post_init__\<close>
  runs. A value whose TOML type is not the field's annotated type is outside the model
  (\<open>None\<close>): Python does not check it here.
\<close>

definition config_set_field :: "string \<times> toml \<Rightarrow> cache_config \<Rightarrow> cache_config option" where
  "config_set_field fv c =
     (case fv of (f, v) \<Rightarrow>
       (case v of
          TInt n \<Rightarrow>
            if f = ''capacity'' then Some (c\<lparr>cfg_capacity := n\<rparr>)
            else if f = ''default_ttl'' then Some (c\<lparr>cfg_default_ttl := Some (of_int n)\<rparr>)
            else if f = ''shard_count'' then Some (c\<lparr>cfg_shard_count := n\<rparr>)
            else if f = ''worker_count'' then Some (c\<lparr>cfg_worker_count := n\<rparr>)
            else if f = ''scheduler_interval'' then Some (c\<lparr>cfg_scheduler_interval := of_int n\<rparr>)
            else if f = ''queue_size'' then Some (c\<lparr>cfg_queue_size := n\<rparr>)
            else if f = ''write_back_retry_count''
              then Some (c\<lparr>cfg_write_back_retry_count := n\<rparr>)
            else if f = ''write_back_retry_delay''
              then Some (c\<lparr>cfg_write_back_retry_delay := of_int n\<rparr>)
            else if f = ''shutdown_timeout'' then Some (c\<lparr>cfg_shutdown_timeout := of_int n\<rparr>)
            else if f = ''queue_put_timeout'' then Some (c\<lparr>cfg_queue_put_timeout := of_int n\<rparr>)
            else None
        | TFloat x \<Rightarrow>
            if f = ''default_ttl'' then Some (c\<lparr>cfg_default_ttl := Some x\<rparr>)
            else if f = ''scheduler_interval'' then Some (c\<lparr>cfg_scheduler_interval := x\<rparr>)
            else if f = ''write_back_retry_delay''
              then Some (c\<lparr>cfg_write_back_retry_delay := x\<rparr>)
            else if f = ''shutdown_timeout'' then Some (c\<lparr>cfg_shutdown_timeout := x\<rparr>)
            else if f = ''queue_put_timeout'' then Some (c\<lparr>cfg_queue_put_timeout := x\<rparr>)
            else None
        | TStr s \<Rightarrow>
            if f = ''policy'' then Some (c\<lparr>cfg_policy := s\<rparr>)
            else if f = ''backend'' then Some (c\<lparr>cfg_backend := s\<rparr>)
            else if f = ''write_mode'' then Some (c\<lparr>cfg_write_mode := s\<rparr>)
            else None
        | TBool b \<Rightarrow>
            if f = ''shutdown_flush'' then Some (c\<lparr>cfg_shutdown_flush := b\<rparr>)
            else if f = ''active_expiration'' then Some (c\<lparr>cfg_active_expiration := b\<rparr>)
            else None
        | TTable _ \<Rightarrow> None))"

fun config_set_fields :: "(string, toml) dict \<Rightarrow> cache_config \<Rightarrow> cache_config option" where
  "config_set_fields [] c = Some c"
| "config_set_fields (fv # fvs) c =
     (case config_set_field fv c of None \<Rightarrow> None | Some c' \<Rightarrow> config_set_fields fvs c')"

definition config_from_table :: "(string, toml) dict \<Rightarrow> (cache_error + cache_config) option" where
  "config_from_table data =
     (case dict_get data ''cache'' of
        Some (TTable t) \<Rightarrow>
          (case normalize_config t of
             Inl e \<Rightarrow> Some (Inl e)
           | Inr flds \<Rightarrow> map_option config_post_init (config_set_fields flds default_config))
      | Some _ \<Rightarrow> None
      | None \<Rightarrow>
          (case normalize_config data of
             Inl e \<Rightarrow> Some (Inl e)
           | Inr flds \<Rightarrow> map_option config_post_init (config_set_fields flds default_config)))"

lemma normalize_loop_unknown:
  "normalize_loop data n u = (n', u') \<Longrightarrow>
     u' = u @ filter (\<lambda>k. config_field_name k \<notin> set config_fields) (dict_keys data)"
  by (induction data n u arbitrary: n' u' rule: normalize_loop.induct)
     (auto simp: Let_def split: if_splits)

lemma normalize_loop_keys:
  "normalize_loop data n u = (n', u') \<Longrightarrow> fst ` set n \<subseteq> set config_fields \<Longrightarrow>
     fst ` set n' \<subseteq> set config_fields"
  by (induction data n u arbitrary: n' u' rule: normalize_loop.induct)
     (auto simp: Let_def split: if_splits)

lemma normalize_config_Inr:
  assumes "normalize_config data = Inr flds"
  shows "(\<forall>k \<in> set (dict_keys data). config_field_name k \<in> set config_fields) \<and>
     fst ` set flds \<subseteq> set config_fields"
proof -
  obtain n u where nl: "normalize_loop data [] [] = (n, u)" by fastforce
  with assms have "u = []" and "n = flds"
    by (auto simp: normalize_config_def split: if_splits)
  with normalize_loop_unknown [OF nl] normalize_loop_keys [OF nl] show ?thesis
    by (simp add: filter_empty_conv eq_commute [of "[]"])
qed

lemma config_from_table_valid:
  "config_from_table data = Some (Inr c) \<Longrightarrow> config_valid c"
  by (auto simp: config_from_table_def config_post_init_iff
      split: option.splits toml.splits sum.splits)

end
