(* ===== verification/Policy.thy ===== *)
theory Policy
  imports Ordered_Policies Lfu_Policy Config
begin

text \<open>
  \<open>make_policy\<close> (\<open>policies/base.py\<close>) and the dynamic dispatch of the cache over the
  three policy classes. The dispatched operations satisfy the policy interface.
\<close>

datatype 'k policy =
    FIFOPolicy "'k fifo_policy"
  | LRUPolicy "'k lru_policy"
  | LFUPolicy "'k lfu_policy"

definition make_policy :: "string \<Rightarrow> cache_error + 'k policy" where
  "make_policy name =
     (let normalized = str_lower name in
      if normalized = ''fifo'' then Inr (FIFOPolicy [])
      else if normalized = ''lru'' then Inr (LRUPolicy [])
      else if normalized = ''lfu'' then Inr (LFUPolicy lfu_init)
      else Inl ConfigurationError)"

fun policy_name :: "'k policy \<Rightarrow> string" where
  "policy_name (FIFOPolicy p) = ''fifo''"
| "policy_name (LRUPolicy p) = ''lru''"
| "policy_name (LFUPolicy p) = ''lfu''"

fun policy_on_get :: "'k \<Rightarrow> 'k policy \<Rightarrow> 'k policy" where
  "policy_on_get k (FIFOPolicy p) = FIFOPolicy (fifo_on_get k p)"
| "policy_on_get k (LRUPolicy p) = LRUPolicy (lru_on_get k p)"
| "policy_on_get k (LFUPolicy p) = LFUPolicy (lfu_on_get k p)"

fun policy_on_put :: "'k \<Rightarrow> 'k policy \<Rightarrow> 'k policy" where
  "policy_on_put k (FIFOPolicy p) = FIFOPolicy (fifo_on_put k p)"
| "policy_on_put k (LRUPolicy p) = LRUPolicy (lru_on_put k p)"
| "policy_on_put k (LFUPolicy p) = LFUPolicy (lfu_on_put k p)"

fun policy_on_delete :: "'k \<Rightarrow> 'k policy \<Rightarrow> 'k policy" where
  "policy_on_delete k (FIFOPolicy p) = FIFOPolicy (fifo_on_delete k p)"
| "policy_on_delete k (LRUPolicy p) = LRUPolicy (lru_on_delete k p)"
| "policy_on_delete k (LFUPolicy p) = LFUPolicy (lfu_on_delete k p)"

fun policy_evict_candidate :: "'k policy \<Rightarrow> 'k option" where
  "policy_evict_candidate (FIFOPolicy p) = fifo_evict_candidate p"
| "policy_evict_candidate (LRUPolicy p) = lru_evict_candidate p"
| "policy_evict_candidate (LFUPolicy p) = lfu_evict_candidate p"

fun policy_clear :: "'k policy \<Rightarrow> 'k policy" where
  "policy_clear (FIFOPolicy p) = FIFOPolicy (fifo_clear p)"
| "policy_clear (LRUPolicy p) = LRUPolicy (lru_clear p)"
| "policy_clear (LFUPolicy p) = LFUPolicy (lfu_clear p)"

fun policy_metadata_size :: "'k policy \<Rightarrow> nat" where
  "policy_metadata_size (FIFOPolicy p) = fifo_metadata_size p"
| "policy_metadata_size (LRUPolicy p) = lru_metadata_size p"
| "policy_metadata_size (LFUPolicy p) = lfu_metadata_size p"

fun policy_len :: "'k policy \<Rightarrow> nat" where
  "policy_len (FIFOPolicy p) = fifo_len p"
| "policy_len (LRUPolicy p) = lru_len p"
| "policy_len (LFUPolicy p) = lfu_len p"

fun policy_tracked :: "'k policy \<Rightarrow> 'k set" where
  "policy_tracked (FIFOPolicy p) = set p"
| "policy_tracked (LRUPolicy p) = set p"
| "policy_tracked (LFUPolicy p) = lfu_tracked p"

fun policy_inv :: "'k policy \<Rightarrow> bool" where
  "policy_inv (FIFOPolicy p) = distinct p"
| "policy_inv (LRUPolicy p) = distinct p"
| "policy_inv (LFUPolicy p) = lfu_inv p"

fun is_lfu :: "'k policy \<Rightarrow> bool" where
  "is_lfu (LFUPolicy p) = True"
| "is_lfu p = False"

interpretation pol: eviction_policy
  policy_on_get policy_on_put policy_on_delete policy_evict_candidate policy_clear policy_len
  policy_tracked policy_inv
proof (standard, goal_cases)
  case (1 p k)
  then show ?case by (cases p) (auto intro: fifo.inv_on_get lru.inv_on_get lfu.inv_on_get)
next
  case (2 p k)
  then show ?case by (cases p) (auto intro: fifo.inv_on_put lru.inv_on_put lfu.inv_on_put)
next
  case (3 p k)
  then show ?case by (cases p) (auto intro: fifo.inv_on_delete lru.inv_on_delete lfu.inv_on_delete)
next
  case (4 p)
  show ?case by (cases p) (simp_all add: fifo.inv_clear lru.inv_clear lfu.inv_clear)
next
  case (5 p k)
  then show ?case
    by (cases p) (simp_all add: fifo.tracked_on_get lru.tracked_on_get lfu.tracked_on_get)
next
  case (6 p k)
  then show ?case
    by (cases p) (simp_all add: fifo.tracked_on_put lru.tracked_on_put lfu.tracked_on_put)
next
  case (7 p k)
  then show ?case
    by (cases p) (simp_all add: fifo.tracked_on_delete lru.tracked_on_delete lfu.tracked_on_delete)
next
  case (8 p)
  show ?case by (cases p) (simp_all add: fifo_clear_def lru_clear_def lfu.tracked_clear)
next
  case (9 p k)
  then show ?case
    by (cases p) (auto intro: fifo.candidate_tracked lru.candidate_tracked lfu.candidate_tracked)
next
  case (10 p)
  then show ?case
    by (cases p) (auto dest: fifo.candidate_exists lru.candidate_exists lfu.candidate_exists)
next
  case (11 p)
  then show ?case by (cases p) (simp_all add: fifo.len_card lru.len_card lfu.len_card)
next
  case (12 p)
  then show ?case by (cases p) (simp_all add: lfu.tracked_finite)
qed

text \<open>The laws in the form the shard proofs use them.\<close>

lemmas policy_inv_laws [simp] = pol.inv_on_get pol.inv_on_put pol.inv_on_delete pol.inv_clear
lemmas policy_tracked_laws [simp] = pol.tracked_on_get pol.tracked_on_put pol.tracked_on_delete
  pol.tracked_clear

lemma is_lfu_stable [simp]:
  "is_lfu (policy_on_get k p) = is_lfu p" "is_lfu (policy_on_put k p) = is_lfu p"
  "is_lfu (policy_on_delete k p) = is_lfu p" "is_lfu (policy_clear p) = is_lfu p"
  by (cases p; simp)+

lemma policy_newcomer_safe:
  assumes "policy_inv p" and "\<not> is_lfu p" and "k \<notin> policy_tracked p" and "policy_tracked p \<noteq> {}"
  shows "policy_evict_candidate (policy_on_put k p) \<noteq> Some k"
  using assms by (cases p) (auto dest: fifo.newcomer_safe lru.newcomer_safe)

lemma make_policy_ok:
  assumes "make_policy name = Inr p"
  shows "policy_inv p" and "policy_tracked p = {}"
  using assms lfu_inv_init
  by (auto simp: make_policy_def Let_def lfu_tracked_def lfu_init_def split: if_splits)

lemma make_policy_total:
  "str_lower name \<in> {''lru'', ''lfu'', ''fifo''} \<Longrightarrow> \<exists>p. make_policy name = Inr p"
  by (auto simp: make_policy_def Let_def)

end
