(* ===== verification/Clock.thy ===== *)
theory Clock
  imports Prelude
begin

text \<open>
  \<open>core/clock.py\<close>: the \<open>Clock\<close> protocol as an interface and \<open>FakeClock\<close> as its
  model. \<open>MonotonicClock\<close> only forwards to the operating system; a reading of it is
  a reading of a clock that the environment advances between calls.
\<close>

record fake_clock =
  fc_now :: time

definition fake_clock_init :: "time \<Rightarrow> fake_clock" where
  "fake_clock_init start = \<lparr>fc_now = start\<rparr>"

definition clock_now :: "fake_clock \<Rightarrow> time" where
  "clock_now c = fc_now c"

definition clock_advance :: "time \<Rightarrow> fake_clock \<Rightarrow> (unit, fake_clock) outcome" where
  "clock_advance seconds c =
     (if seconds < 0 then (Inl ValueError, c)
      else (Inr (), c\<lparr>fc_now := fc_now c + seconds\<rparr>))"

definition clock_sleep :: "time \<Rightarrow> fake_clock \<Rightarrow> fake_clock" where
  "clock_sleep seconds c = snd (clock_advance (max 0 seconds) c)"

text \<open>
  What the cache relies on: a reading never goes down, and sleeping for a
  non-negative time lets at least that time pass.
\<close>

locale monotonic_clock =
  fixes now :: "'c \<Rightarrow> time"
    and sleep :: "time \<Rightarrow> 'c \<Rightarrow> 'c"
  assumes sleep_monotone: "now c \<le> now (sleep s c)"
    and sleep_at_least: "0 \<le> s \<Longrightarrow> now c + s \<le> now (sleep s c)"
begin

lemma sleeps_monotone: "now c \<le> now (fold sleep ss c)"
proof (induction ss arbitrary: c)
  case Nil
  then show ?case by simp
next
  case (Cons s ss)
  have "now c \<le> now (sleep s c)" by (rule sleep_monotone)
  also have "\<dots> \<le> now (fold sleep ss (sleep s c))" by (rule Cons.IH)
  finally show ?case by simp
qed

end

lemma clock_now_sleep [simp]: "clock_now (clock_sleep s c) = clock_now c + max 0 s"
  by (simp add: clock_now_def clock_sleep_def clock_advance_def)

interpretation fake: monotonic_clock clock_now clock_sleep
  by unfold_locales simp_all

lemma clock_advance_monotone:
  "clock_advance s c = (r, c') \<Longrightarrow> clock_now c \<le> clock_now c'"
  by (auto simp: clock_advance_def clock_now_def split: if_splits)

end
