(* ===== verification/Entry.thy ===== *)
theory Entry
  imports Clock
begin

text \<open>
  \<open>core/entry.py\<close>: cache entries and their read-only snapshots, with the expiry test
  every read and every sweep of the cache uses.
\<close>

record ('k, 'v) cache_entry =
  ce_key :: 'k
  ce_value :: 'v
  ce_created_at :: time
  ce_last_accessed_at :: time
  ce_hit_count :: int
  ce_expires_at :: "time option"
  ce_ttl :: "time option"
  ce_version :: nat
  ce_dirty :: bool

record ('k, 'v) entry_snapshot =
  es_key :: 'k
  es_value :: 'v
  es_created_at :: time
  es_last_accessed_at :: time
  es_hit_count :: int
  es_expires_at :: "time option"
  es_ttl :: "time option"
  es_ttl_remaining :: "time option"
  es_version :: nat
  es_dirty :: bool

definition is_expired :: "time \<Rightarrow> ('k, 'v) cache_entry \<Rightarrow> bool" where
  "is_expired now e = (case ce_expires_at e of None \<Rightarrow> False | Some t \<Rightarrow> t \<le> now)"

definition touch :: "time \<Rightarrow> ('k, 'v) cache_entry \<Rightarrow> ('k, 'v) cache_entry" where
  "touch now e = e\<lparr>ce_last_accessed_at := now, ce_hit_count := ce_hit_count e + 1\<rparr>"

definition snapshot_of :: "time \<Rightarrow> ('k, 'v) cache_entry \<Rightarrow> ('k, 'v) entry_snapshot" where
  "snapshot_of now e =
     \<lparr>es_key = ce_key e, es_value = ce_value e, es_created_at = ce_created_at e,
      es_last_accessed_at = ce_last_accessed_at e, es_hit_count = ce_hit_count e,
      es_expires_at = ce_expires_at e, es_ttl = ce_ttl e,
      es_ttl_remaining =
        (case ce_expires_at e of None \<Rightarrow> None | Some t \<Rightarrow> Some (max 0 (t - now))),
      es_version = ce_version e, es_dirty = ce_dirty e\<rparr>"

lemma touch_fields [simp]:
  "ce_key (touch now e) = ce_key e" "ce_value (touch now e) = ce_value e"
  "ce_expires_at (touch now e) = ce_expires_at e" "ce_ttl (touch now e) = ce_ttl e"
  "ce_version (touch now e) = ce_version e" "ce_dirty (touch now e) = ce_dirty e"
  "ce_created_at (touch now e) = ce_created_at e"
  "ce_hit_count (touch now e) = ce_hit_count e + 1"
  by (simp_all add: touch_def)

lemma is_expired_touch [simp]: "is_expired t (touch now e) = is_expired t e"
  by (simp add: is_expired_def)

text \<open>Expiry is final: on a monotonic clock an expired entry stays expired.\<close>

lemma is_expired_mono: "is_expired t e \<Longrightarrow> t \<le> t' \<Longrightarrow> is_expired t' e"
  by (auto simp: is_expired_def split: option.splits)

lemma snapshot_fields [simp]:
  "es_key (snapshot_of now e) = ce_key e" "es_value (snapshot_of now e) = ce_value e"
  "es_hit_count (snapshot_of now e) = ce_hit_count e"
  "es_dirty (snapshot_of now e) = ce_dirty e"
  by (simp_all add: snapshot_of_def)

lemma snapshot_ttl_positive:
  "\<not> is_expired now e \<Longrightarrow> es_ttl_remaining (snapshot_of now e) = Some r \<Longrightarrow> 0 < r"
  by (auto simp: is_expired_def snapshot_of_def split: option.splits)

end
