(* ===== verification/Storage.thy ===== *)
theory Storage
  imports Entry
begin

text \<open>
  \<open>storage/base.py\<close>, \<open>storage/memory.py\<close> and \<open>storage/slow_dict.py\<close>: the entry store of a
  shard and the slow source of truth behind the cache, each with its contract as a
  locale interpreted on the code's model.
\<close>

section \<open>The entry store\<close>

text \<open>The contract of \<open>StorageBackend\<close>: a finite map from keys to the entries that carry them.\<close>

locale storage_backend =
  fixes get_entry :: "'k \<Rightarrow> 'b \<Rightarrow> ('k, 'v) cache_entry option"
    and put_entry :: "('k, 'v) cache_entry \<Rightarrow> 'b \<Rightarrow> 'b"
    and delete_entry :: "'k \<Rightarrow> 'b \<Rightarrow> bool \<times> 'b"
    and clear :: "'b \<Rightarrow> 'b"
    and contains :: "'k \<Rightarrow> 'b \<Rightarrow> bool"
    and size :: "'b \<Rightarrow> nat"
    and keys :: "'b \<Rightarrow> 'k list"
    and entries :: "'b \<Rightarrow> ('k, 'v) cache_entry list"
    and inv :: "'b \<Rightarrow> bool"
  assumes inv_put: "inv b \<Longrightarrow> inv (put_entry e b)"
    and inv_delete: "inv b \<Longrightarrow> inv (snd (delete_entry k b))"
    and inv_clear: "inv (clear b)"
    and get_put: "inv b \<Longrightarrow> get_entry k (put_entry e b) = (if k = ce_key e then Some e else get_entry k b)"
    and get_delete: "inv b \<Longrightarrow>
      get_entry j (snd (delete_entry k b)) = (if j = k then None else get_entry j b)"
    and delete_reports: "inv b \<Longrightarrow> fst (delete_entry k b) \<longleftrightarrow> get_entry k b \<noteq> None"
    and get_clear: "get_entry k (clear b) = None"
    and contains_get: "inv b \<Longrightarrow> contains k b \<longleftrightarrow> get_entry k b \<noteq> None"
    and keys_get: "inv b \<Longrightarrow> set (keys b) = {k. get_entry k b \<noteq> None}"
    and keys_distinct: "inv b \<Longrightarrow> distinct (keys b)"
    and entries_keys: "inv b \<Longrightarrow> map ce_key (entries b) = keys b"
    and entries_get: "inv b \<Longrightarrow> e \<in> set (entries b) \<longleftrightarrow> get_entry (ce_key e) b = Some e"
    and size_keys: "inv b \<Longrightarrow> size b = length (keys b)"
begin

lemma size_entries: "inv b \<Longrightarrow> size b = length (entries b)"
  by (metis size_keys entries_keys length_map)

lemma delete_absent: "inv b \<Longrightarrow> \<not> fst (delete_entry k b) \<Longrightarrow> get_entry j (snd (delete_entry k b)) = get_entry j b"
  by (auto simp: get_delete delete_reports)

lemma entry_key: "inv b \<Longrightarrow> get_entry k b = Some e \<Longrightarrow> ce_key e = k"
proof -
  assume inv: "inv b" and get: "get_entry k b = Some e"
  then have "k \<in> set (keys b)" by (simp add: keys_get)
  then obtain e' where e': "e' \<in> set (entries b)" "ce_key e' = k"
    using entries_keys [OF inv] by (metis imageE list.set_map)
  then have "get_entry k b = Some e'" using entries_get [OF inv] by metis
  with get e'(2) show ?thesis by simp
qed

end

text \<open>\<open>InMemoryBackend\<close>: one dict from keys to entries.\<close>

type_synonym ('k, 'v) memory_backend = "('k, ('k, 'v) cache_entry) dict"

definition mem_get_entry :: "'k \<Rightarrow> ('k, 'v) memory_backend \<Rightarrow> ('k, 'v) cache_entry option" where
  "mem_get_entry k b = dict_get b k"

definition mem_put_entry :: "('k, 'v) cache_entry \<Rightarrow> ('k, 'v) memory_backend \<Rightarrow> ('k, 'v) memory_backend" where
  "mem_put_entry e b = dict_set (ce_key e) e b"

definition mem_delete_entry :: "'k \<Rightarrow> ('k, 'v) memory_backend \<Rightarrow> bool \<times> ('k, 'v) memory_backend" where
  "mem_delete_entry k b = (dict_get b k \<noteq> None, dict_pop k b)"

definition mem_clear :: "('k, 'v) memory_backend \<Rightarrow> ('k, 'v) memory_backend" where
  "mem_clear b = []"

definition mem_contains :: "'k \<Rightarrow> ('k, 'v) memory_backend \<Rightarrow> bool" where
  "mem_contains k b \<longleftrightarrow> k \<in> set (dict_keys b)"

definition mem_size :: "('k, 'v) memory_backend \<Rightarrow> nat" where
  "mem_size b = length b"

definition mem_keys :: "('k, 'v) memory_backend \<Rightarrow> 'k list" where
  "mem_keys b = dict_keys b"

definition mem_entries :: "('k, 'v) memory_backend \<Rightarrow> ('k, 'v) cache_entry list" where
  "mem_entries b = dict_values b"

definition mem_inv :: "('k, 'v) memory_backend \<Rightarrow> bool" where
  "mem_inv b \<longleftrightarrow> dict_wf b \<and> (\<forall>p \<in> set b. ce_key (snd p) = fst p)"

lemmas mem_defs = mem_get_entry_def mem_put_entry_def mem_delete_entry_def mem_clear_def
  mem_contains_def mem_size_def mem_keys_def mem_entries_def

lemma mem_inv_keys: "mem_inv b \<Longrightarrow> (k, e) \<in> set b \<Longrightarrow> ce_key e = k"
  by (auto simp: mem_inv_def)

lemma bspec_subset: "\<forall>x \<in> B. P x \<Longrightarrow> A \<subseteq> B \<Longrightarrow> \<forall>x \<in> A. P x"
  by blast

lemma set_update_subset: "set (AList.update k v d) \<subseteq> insert (k, v) (set d)"
  by (induction d) auto

interpretation mem: storage_backend
  mem_get_entry mem_put_entry mem_delete_entry mem_clear mem_contains mem_size mem_keys
  mem_entries mem_inv
proof (standard, goal_cases)
  case (1 b e)
  then have "\<forall>p \<in> insert (ce_key e, e) (set b). ce_key (snd p) = fst p" by (simp add: mem_inv_def)
  then have "\<forall>p \<in> set (mem_put_entry e b). ce_key (snd p) = fst p"
    unfolding mem_put_entry_def using set_update_subset by (rule bspec_subset)
  with 1 show ?case by (simp add: mem_inv_def mem_defs)
next
  case (2 b k)
  then show ?case by (simp add: mem_inv_def mem_defs) (simp add: AList.delete_eq)
next
  case (11 b)
  then show ?case by (auto simp: mem_defs mem_inv_def)
next
  case (12 b e)
  then show ?case
    using dict_mem_get [of b "ce_key e" e] by (auto simp: mem_defs mem_inv_def rev_image_eqI split: prod.splits)
qed (auto simp: mem_defs mem_inv_def dict_get_None dest: dict_get_in_keys map_of_SomeD)

section \<open>The source of truth\<close>

text \<open>
  The contract of \<open>SourceBackend\<close> (\<open>workers/write_back_worker.py\<close>): a call either fails and
  leaves the stored values alone, or stores or removes one key.
\<close>

locale source_backend =
  fixes put_value :: "'k \<Rightarrow> 'v \<Rightarrow> 's \<Rightarrow> (unit, 's) outcome"
    and delete_value :: "'k \<Rightarrow> 's \<Rightarrow> (unit, 's) outcome"
    and contents :: "'s \<Rightarrow> 'k \<Rightarrow> 'v option"
  assumes put_ok: "put_value k v s = (Inr u, s') \<Longrightarrow> contents s' = (contents s)(k \<mapsto> v)"
    and put_fail: "put_value k v s = (Inl e, s') \<Longrightarrow> contents s' = contents s"
    and delete_ok: "delete_value k s = (Inr u, s') \<Longrightarrow> contents s' = (contents s)(k := None)"
    and delete_fail: "delete_value k s = (Inl e, s') \<Longrightarrow> contents s' = contents s"
begin

lemma put_other: "put_value k v s = (r, s') \<Longrightarrow> j \<noteq> k \<Longrightarrow> contents s' j = contents s j"
  by (cases r) (auto dest: put_ok put_fail)

lemma delete_other: "delete_value k s = (r, s') \<Longrightarrow> j \<noteq> k \<Longrightarrow> contents s' j = contents s j"
  by (cases r) (auto dest: delete_ok delete_fail)

end

record ('k, 'v) slow_dict =
  sd_delay :: time
  sd_clock :: fake_clock
  sd_data :: "('k, 'v) dict"
  sd_failures_remaining :: int

definition slow_dict_init :: "time \<Rightarrow> fake_clock \<Rightarrow> ('k, 'v) slow_dict" where
  "slow_dict_init delay clock =
     \<lparr>sd_delay = delay, sd_clock = clock, sd_data = [], sd_failures_remaining = 0\<rparr>"

definition sd_fail_next :: "int \<Rightarrow> ('k, 'v) slow_dict \<Rightarrow> ('k, 'v) slow_dict" where
  "sd_fail_next count b = b\<lparr>sd_failures_remaining := sd_failures_remaining b + count\<rparr>"

definition sd_maybe_delay_and_fail ::
  "bool \<Rightarrow> ('k, 'v) slow_dict \<Rightarrow> (unit, ('k, 'v) slow_dict) outcome" where
  "sd_maybe_delay_and_fail delay_only b =
     (let b1 = (if 0 < sd_delay b then b\<lparr>sd_clock := clock_sleep (sd_delay b) (sd_clock b)\<rparr> else b)
      in if delay_only then (Inr (), b1)
         else if 0 < sd_failures_remaining b1
         then (Inl OSError, b1\<lparr>sd_failures_remaining := sd_failures_remaining b1 - 1\<rparr>)
         else (Inr (), b1))"

definition sd_put_value ::
  "'k \<Rightarrow> 'v \<Rightarrow> ('k, 'v) slow_dict \<Rightarrow> (unit, ('k, 'v) slow_dict) outcome" where
  "sd_put_value k v b =
     (case sd_maybe_delay_and_fail False b of
        (Inl e, b1) \<Rightarrow> (Inl e, b1)
      | (Inr u, b1) \<Rightarrow> (Inr (), b1\<lparr>sd_data := dict_set k v (sd_data b1)\<rparr>))"

definition sd_delete_value ::
  "'k \<Rightarrow> ('k, 'v) slow_dict \<Rightarrow> (unit, ('k, 'v) slow_dict) outcome" where
  "sd_delete_value k b =
     (case sd_maybe_delay_and_fail False b of
        (Inl e, b1) \<Rightarrow> (Inl e, b1)
      | (Inr u, b1) \<Rightarrow> (Inr (), b1\<lparr>sd_data := dict_pop k (sd_data b1)\<rparr>))"

definition sd_get_value :: "'k \<Rightarrow> ('k, 'v) slow_dict \<Rightarrow> 'v option \<times> ('k, 'v) slow_dict" where
  "sd_get_value k b =
     (let b1 = snd (sd_maybe_delay_and_fail True b) in (dict_get (sd_data b1) k, b1))"

definition sd_snapshot :: "('k, 'v) slow_dict \<Rightarrow> ('k, 'v) dict" where
  "sd_snapshot b = sd_data b"

abbreviation sd_contents :: "('k, 'v) slow_dict \<Rightarrow> 'k \<Rightarrow> 'v option" where
  "sd_contents b \<equiv> map_of (sd_data b)"

lemmas sd_defs = sd_put_value_def sd_delete_value_def sd_get_value_def
  sd_maybe_delay_and_fail_def sd_snapshot_def

interpretation sd: source_backend sd_put_value sd_delete_value sd_contents
  by unfold_locales (auto simp: sd_defs Let_def fun_eq_iff split: if_splits)

text \<open>A call fails exactly when a failure is injected, and uses one injected failure up.\<close>

lemma sd_put_fails_iff: "(\<exists>e. fst (sd_put_value k v b) = Inl e) \<longleftrightarrow> 0 < sd_failures_remaining b"
  by (simp add: sd_defs Let_def)

lemma sd_delete_fails_iff: "(\<exists>e. fst (sd_delete_value k b) = Inl e) \<longleftrightarrow> 0 < sd_failures_remaining b"
  by (simp add: sd_defs Let_def)

lemma sd_failures_after:
  "sd_failures_remaining (snd (sd_put_value k v b)) =
     (if 0 < sd_failures_remaining b then sd_failures_remaining b - 1 else sd_failures_remaining b)"
  "sd_failures_remaining (snd (sd_delete_value k b)) =
     (if 0 < sd_failures_remaining b then sd_failures_remaining b - 1 else sd_failures_remaining b)"
  by (simp_all add: sd_defs Let_def)

end
