(* ===== verification/Jobs.thy ===== *)
theory Jobs
  imports Storage
begin

text \<open>
  \<open>workers/messages.py\<close>, \<open>workers/queue.py\<close> and \<open>workers/write_back_worker.py\<close>: the job
  messages, the bounded job queue, and the staleness test and application of a
  write-back job.
\<close>

section \<open>Messages\<close>

record ('k, 'v) flush_job =
  fj_shard_index :: nat
  fj_key :: 'k
  fj_value :: "'v option"
  fj_version :: nat
  fj_operation :: string
  fj_retries_left :: int
  fj_attempt :: nat

text \<open>
  A loader is a callable; what matters of a call is what it returns or raises. The
  \<open>ttl\<close> of a preload is \<open>None\<close> for no expiry, and counts only when \<open>ttl_supplied\<close>.
\<close>

type_synonym 'v loader = "cache_error + 'v"

record ('k, 'v) preload_job =
  pj_shard_index :: nat
  pj_key :: 'k
  pj_loader :: "'v loader"
  pj_ttl :: "time option"
  pj_ttl_supplied :: bool

datatype ('k, 'v) job =
    ExpireShard nat
  | FlushWriteBack "('k, 'v) flush_job"
  | PreloadKey "('k, 'v) preload_job"
  | SnapshotStats string
  | StopWorker string

section \<open>The job queue\<close>

text \<open>
  \<open>queue.Queue\<close>: the waiting items, the bound (none when it is not positive) and the
  number of items put and not yet marked done.
\<close>

record 'j job_queue =
  jq_items :: "'j list"
  jq_maxsize :: int
  jq_unfinished :: nat
  jq_dropped :: nat

definition jq_init :: "int \<Rightarrow> 'j job_queue" where
  "jq_init maxsize = \<lparr>jq_items = [], jq_maxsize = maxsize, jq_unfinished = 0, jq_dropped = 0\<rparr>"

definition jq_full :: "'j job_queue \<Rightarrow> bool" where
  "jq_full q \<longleftrightarrow> 0 < jq_maxsize q \<and> jq_maxsize q \<le> int (length (jq_items q))"

definition jq_put_nowait :: "'j \<Rightarrow> 'j job_queue \<Rightarrow> 'j job_queue option" where
  "jq_put_nowait job q =
     (if jq_full q then None
      else Some (q\<lparr>jq_items := jq_items q @ [job], jq_unfinished := Suc (jq_unfinished q)\<rparr>))"

text \<open>
  \<open>put(job, block=True, timeout=timeout)\<close> decided at the moment it returns: it succeeds
  if there is room then, and raises \<open>queue.Full\<close> if the queue is still full when the
  timeout has passed. Other threads' steps before that moment are steps of their own.
\<close>

definition jq_put_blocking :: "'j \<Rightarrow> 'j job_queue \<Rightarrow> 'j job_queue option" where
  "jq_put_blocking job q = jq_put_nowait job q"

definition jq_put :: "'j \<Rightarrow> bool \<Rightarrow> 'j job_queue \<Rightarrow> bool \<times> 'j job_queue" where
  "jq_put job critical q =
     (case (if critical then jq_put_blocking job q else jq_put_nowait job q) of
        Some q' \<Rightarrow> (True, q')
      | None \<Rightarrow> (False, q\<lparr>jq_dropped := Suc (jq_dropped q)\<rparr>))"

definition jq_offer :: "'j \<Rightarrow> 'j job_queue \<Rightarrow> bool \<times> 'j job_queue" where
  "jq_offer job q = (case jq_put_nowait job q of Some q' \<Rightarrow> (True, q') | None \<Rightarrow> (False, q))"

text \<open>\<open>None\<close> is \<open>queue.Empty\<close>.\<close>

definition jq_get :: "'j job_queue \<Rightarrow> ('j \<times> 'j job_queue) option" where
  "jq_get q =
     (case jq_items q of [] \<Rightarrow> None | job # rest \<Rightarrow> Some (job, q\<lparr>jq_items := rest\<rparr>))"

definition jq_task_done :: "'j job_queue \<Rightarrow> (unit, 'j job_queue) outcome" where
  "jq_task_done q =
     (if jq_unfinished q = 0 then (Inl ValueError, q)
      else (Inr (), q\<lparr>jq_unfinished := jq_unfinished q - 1\<rparr>))"

fun jq_drain_items :: "'j list \<Rightarrow> 'j job_queue \<Rightarrow> nat \<Rightarrow> nat \<times> 'j job_queue" where
  "jq_drain_items [] q removed = (removed, q\<lparr>jq_items := []\<rparr>)"
| "jq_drain_items (job # rest) q removed =
     jq_drain_items rest (snd (jq_task_done (q\<lparr>jq_items := rest\<rparr>))) (Suc removed)"

definition jq_drain :: "'j job_queue \<Rightarrow> nat \<times> 'j job_queue" where
  "jq_drain q = jq_drain_items (jq_items q) q 0"

definition jq_depth :: "'j job_queue \<Rightarrow> nat" where
  "jq_depth q = length (jq_items q)"

lemmas jq_defs = jq_full_def jq_put_nowait_def jq_put_blocking_def jq_put_def jq_offer_def
  jq_get_def jq_task_done_def jq_depth_def

text \<open>
  The contract of a bounded FIFO queue with a count of unfinished items: every waiting
  item is unfinished, the bound holds, an accepted item is the last one, items leave in
  order, and a rejected item leaves the waiting ones alone.
\<close>

locale bounded_fifo =
  fixes put :: "'j \<Rightarrow> bool \<Rightarrow> 'q \<Rightarrow> bool \<times> 'q"
    and get :: "'q \<Rightarrow> ('j \<times> 'q) option"
    and items :: "'q \<Rightarrow> 'j list"
    and inv :: "'q \<Rightarrow> bool"
  assumes inv_put: "inv q \<Longrightarrow> inv (snd (put j c q))"
    and inv_get: "inv q \<Longrightarrow> get q = Some (j, q') \<Longrightarrow> inv q'"
    and put_accepted: "put j c q = (True, q') \<Longrightarrow> items q' = items q @ [j]"
    and put_rejected: "put j c q = (False, q') \<Longrightarrow> items q' = items q"
    and get_first: "get q = Some (j, q') \<Longrightarrow> items q = j # items q'"
    and get_empty: "get q = None \<longleftrightarrow> items q = []"
begin

text \<open>Accepted items come out in the order they went in.\<close>

fun puts :: "'j list \<Rightarrow> 'q \<Rightarrow> 'j list \<times> 'q" where
  "puts [] q = ([], q)"
| "puts (j # js) q =
     (case put j True q of (ok, q') \<Rightarrow>
        (case puts js q' of (acc, q'') \<Rightarrow> (if ok then j # acc else acc, q'')))"

lemma puts_items: "puts js q = (acc, q') \<Longrightarrow> items q' = items q @ acc"
proof (induction js arbitrary: q acc)
  case Nil
  then show ?case by simp
next
  case (Cons j js)
  obtain ok q1 where p: "put j True q = (ok, q1)" by fastforce
  obtain acc1 where r: "puts js q1 = (acc1, q')" and acc: "acc = (if ok then j # acc1 else acc1)"
    using Cons.prems p by (auto split: prod.splits)
  have "items q' = items q1 @ acc1" using r by (rule Cons.IH)
  with p acc show ?case by (cases ok) (auto dest: put_accepted put_rejected)
qed

end

definition jq_inv :: "'j job_queue \<Rightarrow> bool" where
  "jq_inv q \<longleftrightarrow> length (jq_items q) \<le> jq_unfinished q \<and>
     (0 < jq_maxsize q \<longrightarrow> int (length (jq_items q)) \<le> jq_maxsize q)"

interpretation jq: bounded_fifo jq_put jq_get jq_items jq_inv
  by unfold_locales (auto simp: jq_defs jq_inv_def split: if_splits list.splits option.splits)

lemma jq_drain_items:
  assumes "length js \<le> jq_unfinished q"
  shows "jq_drain_items js q n =
    (n + length js, q\<lparr>jq_items := [], jq_unfinished := jq_unfinished q - length js\<rparr>)"
  using assms
proof (induction js arbitrary: q n)
  case Nil
  then show ?case by simp
next
  case (Cons j js)
  then show ?case by (simp add: jq_task_done_def)
qed

lemma jq_drain_settles:
  assumes "jq_inv q"
  shows "jq_drain q =
    (jq_depth q, q\<lparr>jq_items := [], jq_unfinished := jq_unfinished q - jq_depth q\<rparr>)"
  using assms by (simp add: jq_drain_def jq_drain_items jq_inv_def jq_depth_def)

lemma jq_put_accepts_iff: "fst (jq_put j c q) \<longleftrightarrow> \<not> jq_full q"
  by (simp add: jq_defs)

lemma jq_put_fields [simp]:
  "jq_maxsize (snd (jq_put j c q)) = jq_maxsize q"
  "jq_unfinished (snd (jq_put j c q)) = (if jq_full q then jq_unfinished q else Suc (jq_unfinished q))"
  "jq_items (snd (jq_put j c q)) = (if jq_full q then jq_items q else jq_items q @ [j])"
  "jq_dropped (snd (jq_put j c q)) = (if jq_full q then Suc (jq_dropped q) else jq_dropped q)"
  by (simp_all add: jq_put_def jq_put_nowait_def jq_put_blocking_def)

section \<open>Write-back jobs\<close>

definition is_stale_write_back ::
  "('k, nat) dict \<Rightarrow> ('k, nat) dict \<Rightarrow> ('k, 'v) flush_job \<Rightarrow> bool" where
  "is_stale_write_back version_marks tombstones job =
     (let current_version = dict_get0 version_marks (fj_key job);
          tombstone_version = dict_get tombstones (fj_key job)
      in if fj_operation job = ''put''
         then current_version \<noteq> fj_version job \<or>
              (case tombstone_version of None \<Rightarrow> False | Some t \<Rightarrow> fj_version job \<le> t)
         else if fj_operation job = ''delete''
         then current_version \<noteq> fj_version job \<or> tombstone_version \<noteq> Some (fj_version job)
         else True)"

text \<open>
  A put job carries the value it was made with; a put job without one cannot be built
  by the sources and is refused like an unknown operation.
\<close>

definition apply_write_back ::
  "('k, 'v) flush_job \<Rightarrow> ('k, 'v) slow_dict \<Rightarrow> (unit, ('k, 'v) slow_dict) outcome" where
  "apply_write_back job source =
     (if fj_operation job = ''put''
      then (case fj_value job of
              Some v \<Rightarrow> sd_put_value (fj_key job) v source
            | None \<Rightarrow> (Inl ValidationError, source))
      else if fj_operation job = ''delete'' then sd_delete_value (fj_key job) source
      else (Inl ValidationError, source))"

lemma apply_write_back_contents:
  assumes "apply_write_back job s = (Inr u, s')"
  shows "sd_contents s' = (sd_contents s)
    (fj_key job := (if fj_operation job = ''put'' then fj_value job else None))"
  using assms
  by (auto simp: apply_write_back_def dest: sd.put_ok sd.delete_ok split: if_splits option.splits)

lemma apply_write_back_fail:
  assumes "apply_write_back job s = (Inl e, s')"
  shows "sd_contents s' = sd_contents s"
  using assms
  by (auto simp: apply_write_back_def dest: sd.put_fail sd.delete_fail split: if_splits option.splits)

end
