(* ===== verification/Shard_Inv.thy ===== *)
theory Shard_Inv
  imports Shard
begin

text \<open>
  The shard invariant and its preservation by the operations that run under the shard
  lock; termination of the eviction loop.
\<close>

section \<open>The invariant\<close>

abbreviation sh_live :: "('k, 'v) shard \<Rightarrow> 'k set" where
  "sh_live sh \<equiv> fst ` set (sh_backend sh)"

abbreviation sh_pending :: "('k, 'v) shard \<Rightarrow> 'k set" where
  "sh_pending sh \<equiv> fst ` set (sh_pending_flushes sh)"

abbreviation sh_tombs :: "('k, 'v) shard \<Rightarrow> 'k set" where
  "sh_tombs sh \<equiv> fst ` set (sh_tombstones sh)"

text \<open>
  The store and the policy agree on the live keys; a live key has its entry's version as
  its version mark and no tombstone; a tombstone carries the version mark of a key with
  an outstanding flush; every version mark belongs to a live key or to one with an
  outstanding flush; outstanding counts are positive.
\<close>

definition store_ok :: "('k, 'v) shard \<Rightarrow> bool" where
  "store_ok sh \<longleftrightarrow> mem_inv (sh_backend sh) \<and> policy_inv (sh_policy sh) \<and>
     policy_tracked (sh_policy sh) = sh_live sh"

definition marks_ok :: "('k, 'v) shard \<Rightarrow> bool" where
  "marks_ok sh \<longleftrightarrow>
     (\<forall>k e. dict_get (sh_backend sh) k = Some e \<longrightarrow>
        dict_get (sh_version_marks sh) k = Some (ce_version e) \<and>
        dict_get (sh_tombstones sh) k = None) \<and>
     (\<forall>k t. dict_get (sh_tombstones sh) k = Some t \<longrightarrow>
        dict_get (sh_version_marks sh) k = Some t \<and> k \<in> sh_pending sh) \<and>
     fst ` set (sh_version_marks sh) \<subseteq> sh_live sh \<union> sh_pending sh"

definition pending_ok :: "('k, 'v) shard \<Rightarrow> bool" where
  "pending_ok sh \<longleftrightarrow> dict_wf (sh_version_marks sh) \<and> dict_wf (sh_tombstones sh) \<and>
     dict_wf (sh_pending_flushes sh) \<and>
     (\<forall>k n. dict_get (sh_pending_flushes sh) k = Some n \<longrightarrow> 0 < n)"

definition shard_core :: "('k, 'v) shard \<Rightarrow> bool" where
  "shard_core sh \<longleftrightarrow> store_ok sh \<and> marks_ok sh \<and> pending_ok sh \<and> 1 \<le> sh_capacity sh"

definition shard_inv :: "('k, 'v) shard \<Rightarrow> bool" where
  "shard_inv sh \<longleftrightarrow> shard_core sh \<and> mem_size (sh_backend sh) \<le> sh_capacity sh"

lemmas core_defs = shard_core_def store_ok_def marks_ok_def pending_ok_def

lemma shard_init_inv:
  assumes "1 \<le> capacity" and "policy_inv p" and "policy_tracked p = {}"
  shows "shard_inv (shard_init index capacity p)"
  using assms by (simp add: shard_inv_def core_defs shard_init_def mem_inv_def mem_size_def)

lemma pending_pos_iff:
  "pending_ok sh \<Longrightarrow> 0 < dict_get0 (sh_pending_flushes sh) k \<longleftrightarrow> k \<in> sh_pending sh"
  using dict_get_None [of "sh_pending_flushes sh" k]
  by (auto simp: pending_ok_def dict_get0_def split: option.splits)

section \<open>Fields the operations leave alone\<close>

lemma prune_fields [simp]:
  "sh_backend (maybe_prune_marks_locked k sh) = sh_backend sh"
  "sh_policy (maybe_prune_marks_locked k sh) = sh_policy sh"
  "sh_capacity (maybe_prune_marks_locked k sh) = sh_capacity sh"
  "sh_index (maybe_prune_marks_locked k sh) = sh_index sh"
  "sh_stats (maybe_prune_marks_locked k sh) = sh_stats sh"
  "sh_pending_flushes (maybe_prune_marks_locked k sh) = sh_pending_flushes sh"
  "sh_singleflight (maybe_prune_marks_locked k sh) = sh_singleflight sh"
  "sh_contentions (maybe_prune_marks_locked k sh) = sh_contentions sh"
  by (simp_all add: maybe_prune_marks_locked_def)

lemma remove_fields [simp]:
  "fst (remove_entry_locked k r sh) \<longleftrightarrow> k \<in> sh_live sh"
  "sh_backend (snd (remove_entry_locked k r sh)) = dict_pop k (sh_backend sh)"
  "sh_policy (snd (remove_entry_locked k r sh)) = policy_on_delete k (sh_policy sh)"
  "sh_capacity (snd (remove_entry_locked k r sh)) = sh_capacity sh"
  "sh_index (snd (remove_entry_locked k r sh)) = sh_index sh"
  "sh_pending_flushes (snd (remove_entry_locked k r sh)) = sh_pending_flushes sh"
  "sh_singleflight (snd (remove_entry_locked k r sh)) = sh_singleflight sh"
  "sh_contentions (snd (remove_entry_locked k r sh)) = sh_contentions sh"
  by (simp_all add: remove_entry_locked_def mem_delete_entry_def Let_def dict_get_None)

lemma remove_marks:
  "sh_version_marks (snd (remove_entry_locked k r sh)) =
     (if 0 < dict_get0 (sh_pending_flushes sh) k then sh_version_marks sh
      else dict_pop k (sh_version_marks sh))"
  "sh_tombstones (snd (remove_entry_locked k r sh)) =
     (if 0 < dict_get0 (sh_pending_flushes sh) k then sh_tombstones sh
      else dict_pop k (sh_tombstones sh))"
  by (simp_all add: remove_entry_locked_def mem_delete_entry_def Let_def
      maybe_prune_marks_locked_def mem_get_entry_def)

section \<open>Preservation of the core\<close>

lemma core_remove:
  assumes "shard_core sh"
  shows "shard_core (snd (remove_entry_locked k r sh))"
proof -
  have st: "store_ok sh" and mk: "marks_ok sh" and pd: "pending_ok sh"
    using assms by (simp_all add: shard_core_def)
  have "store_ok (snd (remove_entry_locked k r sh))"
    using st mem.inv_delete [of "sh_backend sh" k]
    by (simp add: store_ok_def mem_delete_entry_def)
  moreover have "marks_ok (snd (remove_entry_locked k r sh))"
    using mk pending_pos_iff [OF pd, of k]
    by (auto simp: marks_ok_def remove_marks)
  moreover have "pending_ok (snd (remove_entry_locked k r sh))"
    using pd by (simp add: pending_ok_def remove_marks)
  ultimately show ?thesis using assms by (simp add: shard_core_def)
qed

lemma core_prune:
  assumes st: "store_ok sh" and pd: "pending_ok sh" and cap: "1 \<le> sh_capacity sh"
    and live: "\<And>k e. dict_get (sh_backend sh) k = Some e \<Longrightarrow>
        dict_get (sh_version_marks sh) k = Some (ce_version e) \<and> dict_get (sh_tombstones sh) k = None"
    and tomb: "\<And>j t. dict_get (sh_tombstones sh) j = Some t \<Longrightarrow>
        dict_get (sh_version_marks sh) j = Some t \<and> (j \<noteq> k \<longrightarrow> j \<in> sh_pending sh)"
    and marks: "fst ` set (sh_version_marks sh) \<subseteq> insert k (sh_live sh \<union> sh_pending sh)"
  shows "shard_core (maybe_prune_marks_locked k sh)"
proof -
  have "store_ok (maybe_prune_marks_locked k sh)" using st by (simp add: store_ok_def)
  moreover have "pending_ok (maybe_prune_marks_locked k sh)"
    using pd by (simp add: pending_ok_def maybe_prune_marks_locked_def)
  moreover have "marks_ok (maybe_prune_marks_locked k sh)"
  proof (cases "k \<in> sh_pending sh \<or> k \<in> sh_live sh")
    case True
    then have same: "maybe_prune_marks_locked k sh = sh"
      using pending_pos_iff [OF pd, of k] by (auto simp: maybe_prune_marks_locked_def mem_get_entry_def dict_get_None)
    have "dict_get (sh_tombstones sh) j = Some t \<Longrightarrow> j \<in> sh_pending sh" for j t
    proof (cases "j = k")
      case jk: True
      assume "dict_get (sh_tombstones sh) j = Some t"
      then have "dict_get (sh_backend sh) k = None" using live [of k] jk by fastforce
      then show ?thesis using True jk by (simp add: dict_get_None)
    qed (simp add: tomb)
    with same live tomb marks True show ?thesis by (auto simp: marks_ok_def)
  next
    case False
    then have pruned: "maybe_prune_marks_locked k sh =
        sh\<lparr>sh_version_marks := dict_pop k (sh_version_marks sh), sh_tombstones := dict_pop k (sh_tombstones sh)\<rparr>"
      using pending_pos_iff [OF pd, of k] dict_get_None [of "sh_backend sh" k]
      by (simp add: maybe_prune_marks_locked_def mem_get_entry_def)
    show ?thesis
      unfolding pruned using live tomb marks False
      by (auto simp: marks_ok_def dest: dict_get_in_keys)
  qed
  ultimately show ?thesis using cap by (simp add: shard_core_def)
qed

lemma core_resolve:
  assumes "shard_core sh"
  shows "shard_core (resolve_pending_locked k sh)"
  unfolding resolve_pending_locked_def Let_def
proof (rule core_prune, goal_cases)
  case (5 j t)
  then show ?case using assms by (auto simp: core_defs split: if_splits)
qed (use assms in \<open>auto simp: core_defs split: if_splits\<close>)

lemma core_clear_pending:
  assumes "shard_core sh"
  shows "shard_core (clear_pending_flushes_locked k sh)"
  unfolding clear_pending_flushes_locked_def
  by (rule core_prune) (use assms in \<open>auto simp: core_defs\<close>)

lemma core_register:
  assumes "shard_core sh"
  shows "shard_core (register_pending_locked k sh)"
  using assms by (auto simp: core_defs register_pending_locked_def)

lemma core_stats [simp]: "shard_core (sh\<lparr>sh_stats := s\<rparr>) = shard_core sh"
  by (simp add: core_defs)

lemma core_flight [simp]: "shard_core (sh\<lparr>sh_singleflight := s\<rparr>) = shard_core sh"
  by (simp add: core_defs)

text \<open>Replacing a live entry by one of the same key and version.\<close>

lemma core_replace:
  assumes "shard_core sh" and "dict_get (sh_backend sh) (ce_key e') = Some e"
    and "ce_version e' = ce_version e"
  shows "shard_core (sh\<lparr>sh_backend := mem_put_entry e' (sh_backend sh)\<rparr>)"
  using assms mem.inv_put [of "sh_backend sh" e'] dict_get_in_keys [OF assms(2)]
  by (auto simp: core_defs mem_put_entry_def insert_absorb)

section \<open>The eviction loop\<close>

lemma enforce_loop_ok:
  assumes "shard_core sh" and "policy_len (sh_policy sh) < fuel"
  shows "\<exists>sh'. enforce_loop fuel sh = Some sh' \<and> shard_inv sh'"
  using assms
proof (induction fuel arbitrary: sh)
  case 0
  then show ?case by simp
next
  case (Suc fuel)
  have pi: "policy_inv (sh_policy sh)" and tr: "policy_tracked (sh_policy sh) = sh_live sh"
    using Suc.prems(1) by (simp_all add: core_defs)
  show ?case
  proof (cases "sh_capacity sh < mem_size (sh_backend sh)")
    case False
    with Suc.prems show ?thesis by (simp add: shard_inv_def)
  next
    case over: True
    then have "sh_live sh \<noteq> {}" by (auto simp: mem_size_def)
    then obtain c where c: "policy_evict_candidate (sh_policy sh) = Some c"
      using pol.candidate_exists [OF pi] tr by (cases "policy_evict_candidate (sh_policy sh)") auto
    let ?sh1 = "snd (remove_entry_locked c ''evict'' sh)"
    have "policy_len (sh_policy ?sh1) < fuel"
      using pol.evict_progress [OF pi c] Suc.prems(2) by simp
    moreover have "shard_core ?sh1" using Suc.prems(1) by (rule core_remove)
    ultimately show ?thesis using Suc.IH over c by simp
  qed
qed

lemma enforce_capacity_ok:
  assumes "shard_core sh"
  shows "enforce_loop (Suc (policy_len (sh_policy sh))) sh = Some (enforce_capacity_locked sh)"
    and "shard_inv (enforce_capacity_locked sh)"
  using enforce_loop_ok [OF assms, of "Suc (policy_len (sh_policy sh))"]
  by (auto simp: enforce_capacity_locked_def)

lemma enforce_loop_more_fuel:
  "enforce_loop fuel sh = Some sh' \<Longrightarrow> fuel \<le> fuel' \<Longrightarrow> enforce_loop fuel' sh = Some sh'"
proof (induction fuel arbitrary: fuel' sh)
  case 0
  then show ?case by simp
next
  case (Suc fuel)
  then obtain m where m: "fuel' = Suc m" and "fuel \<le> m" by (cases fuel') auto
  with Suc show ?case by (auto split: if_splits option.splits)
qed

text \<open>What an eviction loop may change: it only removes keys.\<close>

lemma enforce_loop_frame:
  assumes "enforce_loop fuel sh = Some sh'"
  shows "sh_live sh' \<subseteq> sh_live sh"
    and "\<And>k. k \<in> sh_live sh' \<Longrightarrow> dict_get (sh_backend sh') k = dict_get (sh_backend sh) k"
    and "sh_pending_flushes sh' = sh_pending_flushes sh" and "sh_capacity sh' = sh_capacity sh"
    and "sh_index sh' = sh_index sh" and "sh_singleflight sh' = sh_singleflight sh"
    and "is_lfu (sh_policy sh') = is_lfu (sh_policy sh)" and "sh_tombs sh' \<subseteq> sh_tombs sh"
proof -
  have "sh_live sh' \<subseteq> sh_live sh \<and>
      (\<forall>k \<in> sh_live sh'. dict_get (sh_backend sh') k = dict_get (sh_backend sh) k) \<and>
      sh_pending_flushes sh' = sh_pending_flushes sh \<and> sh_capacity sh' = sh_capacity sh \<and>
      sh_index sh' = sh_index sh \<and> sh_singleflight sh' = sh_singleflight sh \<and>
      is_lfu (sh_policy sh') = is_lfu (sh_policy sh) \<and> sh_tombs sh' \<subseteq> sh_tombs sh"
    using assms
  proof (induction fuel arbitrary: sh)
    case 0
    then show ?case by simp
  next
    case (Suc fuel)
    show ?case
    proof (cases "\<exists>c. sh_capacity sh < mem_size (sh_backend sh) \<and> policy_evict_candidate (sh_policy sh) = Some c")
      case True
      then obtain c where c: "sh_capacity sh < mem_size (sh_backend sh)"
        "policy_evict_candidate (sh_policy sh) = Some c" by blast
      with Suc.prems have "enforce_loop fuel (snd (remove_entry_locked c ''evict'' sh)) = Some sh'" by simp
      note IH = Suc.IH [OF this]
      have "sh_tombs (snd (remove_entry_locked c ''evict'' sh)) \<subseteq> sh_tombs sh"
        by (auto simp: remove_marks)
      with IH have "sh_tombs sh' \<subseteq> sh_tombs sh" by (elim conjE) (rule subset_trans)
      with IH show ?thesis by auto
    next
      case False
      with Suc.prems show ?thesis by (auto split: if_splits option.splits)
    qed
  qed
  then show "sh_live sh' \<subseteq> sh_live sh"
    and "\<And>k. k \<in> sh_live sh' \<Longrightarrow> dict_get (sh_backend sh') k = dict_get (sh_backend sh) k"
    and "sh_pending_flushes sh' = sh_pending_flushes sh" and "sh_capacity sh' = sh_capacity sh"
    and "sh_index sh' = sh_index sh" and "sh_singleflight sh' = sh_singleflight sh"
    and "is_lfu (sh_policy sh') = is_lfu (sh_policy sh)" and "sh_tombs sh' \<subseteq> sh_tombs sh"
    by blast+
qed

lemmas enforce_frame = enforce_loop_frame [OF enforce_capacity_ok(1)]

lemma enforce_within_capacity:
  "mem_size (sh_backend sh) \<le> sh_capacity sh \<Longrightarrow> enforce_capacity_locked sh = sh"
  by (simp add: enforce_capacity_locked_def)

end
