(* ===== verification/Shard_Ops.thy ===== *)
theory Shard_Ops
  imports Shard_Inv
begin

text \<open>
  The critical sections of \<open>Cache.put\<close>, \<open>delete\<close>, \<open>clear\<close>, \<open>inspect\<close>, \<open>dump\<close> and the flush
  bookkeeping of \<open>core/cache.py\<close>: everything these methods do while they hold one
  shard's lock. The source of truth is written inside the section in write-through
  mode only.
\<close>

section \<open>Write sections\<close>

definition flush_put_job :: "('k, 'v) shard \<Rightarrow> 'k \<Rightarrow> 'v \<Rightarrow> nat \<Rightarrow> int \<Rightarrow> ('k, 'v) flush_job" where
  "flush_put_job sh k v version retries =
     \<lparr>fj_shard_index = sh_index sh, fj_key = k, fj_value = Some v, fj_version = version,
      fj_operation = ''put'', fj_retries_left = retries, fj_attempt = 0\<rparr>"

definition flush_delete_job :: "('k, 'v) shard \<Rightarrow> 'k \<Rightarrow> nat \<Rightarrow> int \<Rightarrow> ('k, 'v) flush_job" where
  "flush_delete_job sh k version retries =
     \<lparr>fj_shard_index = sh_index sh, fj_key = k, fj_value = None, fj_version = version,
      fj_operation = ''delete'', fj_retries_left = retries, fj_attempt = 0\<rparr>"

text \<open>Lazy expiry at the start of \<open>put\<close>: the entry to update, if one is still alive.\<close>

definition put_existing ::
  "time \<Rightarrow> 'k \<Rightarrow> ('k, 'v) shard \<Rightarrow> ('k, 'v) cache_entry option \<times> ('k, 'v) shard" where
  "put_existing now k sh =
     (case mem_get_entry k (sh_backend sh) of
        None \<Rightarrow> (None, sh)
      | Some e \<Rightarrow> if is_expired now e then (None, snd (remove_entry_locked k ''expire'' sh))
                 else (Some e, sh))"

text \<open>The in-memory part of a put, from \<open>next_version\<close> to the capacity check.\<close>

definition put_store ::
  "write_mode \<Rightarrow> time option \<Rightarrow> time \<Rightarrow> 'k \<Rightarrow> 'v \<Rightarrow> ttl_arg \<Rightarrow> ('k, 'v) cache_entry option \<Rightarrow>
     ('k, 'v) shard \<Rightarrow> nat \<times> ('k, 'v) shard" where
  "put_store mode default_ttl now k v ttl existing sh =
     (case next_version k sh of (version, sh1) \<Rightarrow>
       (let sh2 = sh1\<lparr>sh_tombstones := dict_pop k (sh_tombstones sh1)\<rparr>;
            (effective_ttl, expires_at) = resolve_ttl default_ttl existing ttl now;
            entry = \<lparr>ce_key = k, ce_value = v,
                     ce_created_at = (case existing of None \<Rightarrow> now | Some e \<Rightarrow> ce_created_at e),
                     ce_last_accessed_at = now,
                     ce_hit_count = (case existing of None \<Rightarrow> 0 | Some e \<Rightarrow> ce_hit_count e),
                     ce_expires_at = expires_at, ce_ttl = effective_ttl, ce_version = version,
                     ce_dirty = (mode = WRITE_BACK)\<rparr>;
            sh3 = sh2\<lparr>sh_backend := mem_put_entry entry (sh_backend sh2),
                      sh_policy := policy_on_put k (sh_policy sh2),
                      sh_stats := (sh_stats sh2)\<lparr>st_puts := st_puts (sh_stats sh2) + 1\<rparr>\<rparr>
        in (version, enforce_capacity_locked sh3)))"

definition put_locked ::
  "write_mode \<Rightarrow> time option \<Rightarrow> int \<Rightarrow> time \<Rightarrow> 'k \<Rightarrow> 'v \<Rightarrow> ttl_arg \<Rightarrow>
     ('k, 'v) slow_dict \<Rightarrow> ('k, 'v) shard \<Rightarrow>
     (('k, 'v) flush_job option, ('k, 'v) slow_dict \<times> ('k, 'v) shard) outcome" where
  "put_locked mode default_ttl retries now k v ttl source sh =
     (case put_existing now k sh of (existing, sh0) \<Rightarrow>
       (case (if mode = WRITE_THROUGH then sd_put_value k v source else (Inr (), source)) of
          (Inl err, source1) \<Rightarrow> (Inl err, source1, sh0)
        | (Inr u, source1) \<Rightarrow>
            (case put_store mode default_ttl now k v ttl existing sh0 of (version, sh1) \<Rightarrow>
               if mode = WRITE_BACK
               then (Inr (Some (flush_put_job sh k v version retries)), source1,
                     register_pending_locked k sh1)
               else (Inr None, source1, sh1))))"

text \<open>
  The write-back half of a delete, which \<open>delete\<close> and \<open>clear\<close> share: a new version, a
  tombstone that carries it, a delete job and its outstanding count.
\<close>

definition tombstone_locked ::
  "int \<Rightarrow> 'k \<Rightarrow> ('k, 'v) shard \<Rightarrow> ('k, 'v) flush_job \<times> ('k, 'v) shard" where
  "tombstone_locked retries k sh =
     (case next_version k sh of (version, sh1) \<Rightarrow>
       (flush_delete_job sh k version retries,
        register_pending_locked k (sh1\<lparr>sh_tombstones := dict_set k version (sh_tombstones sh1)\<rparr>)))"

text \<open>Removing one key on behalf of \<open>delete\<close> or \<open>clear\<close>, with the deletes counter.\<close>

definition delete_entry_locked :: "'k \<Rightarrow> ('k, 'v) shard \<Rightarrow> bool \<times> ('k, 'v) shard" where
  "delete_entry_locked k sh =
     (case remove_entry_locked k ''delete'' sh of (existed, sh1) \<Rightarrow>
       (existed, if existed
                 then sh1\<lparr>sh_stats := (sh_stats sh1)\<lparr>st_deletes := st_deletes (sh_stats sh1) + 1\<rparr>\<rparr>
                 else sh1))"

definition delete_locked ::
  "write_mode \<Rightarrow> int \<Rightarrow> 'k \<Rightarrow> ('k, 'v) slow_dict \<Rightarrow> ('k, 'v) shard \<Rightarrow>
     (bool \<times> ('k, 'v) flush_job option, ('k, 'v) slow_dict \<times> ('k, 'v) shard) outcome" where
  "delete_locked mode retries k source sh =
     (case (if mode = WRITE_THROUGH then sd_delete_value k source else (Inr (), source)) of
        (Inl err, source1) \<Rightarrow> (Inl err, source1, sh)
      | (Inr u, source1) \<Rightarrow>
          (let (job, sh1) = (if mode = WRITE_BACK
                             then (case tombstone_locked retries k sh of (j, s) \<Rightarrow> (Some j, s))
                             else (None, sh));
               (existed, sh2) = delete_entry_locked k sh1
           in (Inr (existed, job), source1,
               sh2\<lparr>sh_singleflight := dict_pop k (sh_singleflight sh2)\<rparr>)))"

fun clear_keys_locked ::
  "write_mode \<Rightarrow> int \<Rightarrow> 'k list \<Rightarrow> ('k, 'v) flush_job list \<Rightarrow> ('k, 'v) slow_dict \<Rightarrow> ('k, 'v) shard \<Rightarrow>
     (('k, 'v) flush_job list, ('k, 'v) slow_dict \<times> ('k, 'v) shard) outcome" where
  "clear_keys_locked mode retries [] jobs source sh = (Inr jobs, source, sh)"
| "clear_keys_locked mode retries (k # ks) jobs source sh =
     (case (if mode = WRITE_THROUGH then sd_delete_value k source else (Inr (), source)) of
        (Inl err, source1) \<Rightarrow> (Inl err, source1, sh)
      | (Inr u, source1) \<Rightarrow>
          (let (jobs1, sh1) = (if mode = WRITE_BACK
                               then (case tombstone_locked retries k sh of (j, s) \<Rightarrow> (jobs @ [j], s))
                               else (jobs, sh))
           in clear_keys_locked mode retries ks jobs1 source1 (snd (delete_entry_locked k sh1))))"

definition clear_locked ::
  "write_mode \<Rightarrow> int \<Rightarrow> ('k, 'v) flush_job list \<Rightarrow> ('k, 'v) slow_dict \<Rightarrow> ('k, 'v) shard \<Rightarrow>
     (('k, 'v) flush_job list, ('k, 'v) slow_dict \<times> ('k, 'v) shard) outcome" where
  "clear_locked mode retries jobs source sh =
     (case clear_keys_locked mode retries (mem_keys (sh_backend sh)) jobs source sh of
        (Inl err, st) \<Rightarrow> (Inl err, st)
      | (Inr jobs1, source1, sh1) \<Rightarrow>
          (Inr jobs1, source1,
           sh1\<lparr>sh_policy := policy_clear (sh_policy sh1), sh_singleflight := []\<rparr>))"

section \<open>Diagnostic sections\<close>

definition inspect_locked ::
  "time \<Rightarrow> 'k \<Rightarrow> ('k, 'v) shard \<Rightarrow> ('k, 'v) entry_snapshot option \<times> ('k, 'v) shard" where
  "inspect_locked now k sh =
     (case mem_get_entry k (sh_backend sh) of
        None \<Rightarrow> (None, sh)
      | Some e \<Rightarrow> if is_expired now e then (None, snd (remove_entry_locked k ''expire'' sh))
                 else (Some (snapshot_of now e), sh))"

fun dump_entries_locked ::
  "time \<Rightarrow> ('k, 'v) cache_entry list \<Rightarrow> ('k, 'v) entry_snapshot list \<Rightarrow> ('k, 'v) shard \<Rightarrow>
     ('k, 'v) entry_snapshot list \<times> ('k, 'v) shard" where
  "dump_entries_locked now [] snaps sh = (snaps, sh)"
| "dump_entries_locked now (e # es) snaps sh =
     (if is_expired now e
      then dump_entries_locked now es snaps (snd (remove_entry_locked (ce_key e) ''expire'' sh))
      else dump_entries_locked now es (snaps @ [snapshot_of now e]) sh)"

text \<open>The last section of \<open>_flush_write_back_job\<close>: a flushed put cleans its own version.\<close>

definition mark_clean_locked :: "'k \<Rightarrow> nat \<Rightarrow> ('k, 'v) shard \<Rightarrow> ('k, 'v) shard" where
  "mark_clean_locked k version sh =
     (case mem_get_entry k (sh_backend sh) of
        Some e \<Rightarrow> if ce_version e = version
                  then sh\<lparr>sh_backend := mem_put_entry (e\<lparr>ce_dirty := False\<rparr>) (sh_backend sh)\<rparr>
                  else sh
      | None \<Rightarrow> sh)"

definition restore_hit_count_locked :: "'k \<Rightarrow> int \<Rightarrow> ('k, 'v) shard \<Rightarrow> ('k, 'v) shard" where
  "restore_hit_count_locked k hit_count sh =
     (case mem_get_entry k (sh_backend sh) of
        Some e \<Rightarrow> sh\<lparr>sh_backend := mem_put_entry (e\<lparr>ce_hit_count := hit_count\<rparr>) (sh_backend sh)\<rparr>
      | None \<Rightarrow> sh)"

section \<open>Frame of one key\<close>

text \<open>
  What a section may do to a key it does not write: keep its outstanding count, keep its
  marks while a flush is outstanding, and drop its entry or keep value, version and
  dirtiness.
\<close>

definition key_frame :: "'k \<Rightarrow> ('k, 'v) shard \<Rightarrow> ('k, 'v) shard \<Rightarrow> bool" where
  "key_frame k sh sh' \<longleftrightarrow>
     dict_get0 (sh_pending_flushes sh') k = dict_get0 (sh_pending_flushes sh) k \<and>
     (0 < dict_get0 (sh_pending_flushes sh) k \<longrightarrow>
        dict_get0 (sh_version_marks sh') k = dict_get0 (sh_version_marks sh) k \<and>
        dict_get (sh_tombstones sh') k = dict_get (sh_tombstones sh) k) \<and>
     (\<forall>e'. dict_get (sh_backend sh') k = Some e' \<longrightarrow>
        (\<exists>e. dict_get (sh_backend sh) k = Some e \<and> ce_value e' = ce_value e \<and>
             ce_version e' = ce_version e \<and> ce_dirty e' = ce_dirty e))"

lemma key_frame_refl [simp]: "key_frame k sh sh"
  by (simp add: key_frame_def)

lemma key_frame_trans: "key_frame k sh sh' \<Longrightarrow> key_frame k sh' sh'' \<Longrightarrow> key_frame k sh sh''"
  unfolding key_frame_def by (elim conjE, intro conjI allI impI) (simp, simp, simp, fastforce)

lemma key_frame_stats [simp]:
  "key_frame k sh (sh'\<lparr>sh_stats := s\<rparr>) = key_frame k sh sh'"
  "key_frame k sh (sh'\<lparr>sh_singleflight := f\<rparr>) = key_frame k sh sh'"
  "key_frame k sh (sh'\<lparr>sh_policy := p\<rparr>) = key_frame k sh sh'"
  by (simp_all add: key_frame_def)

lemma key_frame_remove: "key_frame k sh (snd (remove_entry_locked j r sh))"
  by (auto simp: key_frame_def remove_marks)

lemma key_frame_enforce_loop: "enforce_loop fuel sh = Some sh' \<Longrightarrow> key_frame k sh sh'"
proof (induction fuel arbitrary: sh)
  case 0
  then show ?case by simp
next
  case (Suc fuel)
  then show ?case
    by (auto split: if_splits option.splits intro: key_frame_trans [OF key_frame_remove])
qed

lemma key_frame_enforce: "key_frame k sh (enforce_capacity_locked sh)"
  by (auto simp: enforce_capacity_locked_def simp del: enforce_loop.simps
      intro: key_frame_enforce_loop split: option.splits)

lemma key_frame_expire_keys: "key_frame k sh (snd (expire_keys_locked ks sh n))"
proof (induction ks arbitrary: sh n)
  case Nil
  then show ?case by simp
next
  case (Cons j ks)
  obtain r sh1 where r: "remove_entry_locked j ''expire'' sh = (r, sh1)" by fastforce
  then have "key_frame k sh sh1" using key_frame_remove [of k sh j "''expire''"] by simp
  then show ?case using r Cons.IH by (auto intro: key_frame_trans)
qed

lemma key_frame_inspect: "key_frame k sh (snd (inspect_locked now j sh))"
  by (auto simp: inspect_locked_def key_frame_remove split: option.splits)

lemma key_frame_put_existing: "key_frame k sh (snd (put_existing now j sh))"
  by (auto simp: put_existing_def key_frame_remove split: option.splits)

lemma key_frame_dump: "key_frame k sh (snd (dump_entries_locked now es snaps sh))"
  by (induction now es snaps sh rule: dump_entries_locked.induct)
     (auto intro: key_frame_trans [OF key_frame_remove])

section \<open>Preservation of the shard invariant\<close>

lemma inv_remove: "shard_inv sh \<Longrightarrow> shard_inv (snd (remove_entry_locked k r sh))"
  by (simp add: shard_inv_def core_remove mem_size_def le_trans [OF length_delete_le])

lemma inv_resolve: "shard_inv sh \<Longrightarrow> shard_inv (resolve_pending_locked k sh)"
  by (simp add: shard_inv_def core_resolve) (simp add: resolve_pending_locked_def Let_def)

lemma inv_clear_pending: "shard_inv sh \<Longrightarrow> shard_inv (clear_pending_flushes_locked k sh)"
  by (simp add: shard_inv_def core_clear_pending) (simp add: clear_pending_flushes_locked_def)

lemma inv_register: "shard_inv sh \<Longrightarrow> shard_inv (register_pending_locked k sh)"
  by (simp add: shard_inv_def core_register) (simp add: register_pending_locked_def)

lemma inv_stats [simp]: "shard_inv (sh\<lparr>sh_stats := s\<rparr>) = shard_inv sh"
  by (simp add: shard_inv_def)

lemma inv_flight [simp]: "shard_inv (sh\<lparr>sh_singleflight := s\<rparr>) = shard_inv sh"
  by (simp add: shard_inv_def)

lemma inv_replace:
  assumes "shard_inv sh" and "dict_get (sh_backend sh) (ce_key e') = Some e"
    and "ce_version e' = ce_version e"
  shows "shard_inv (sh\<lparr>sh_backend := mem_put_entry e' (sh_backend sh)\<rparr>)"
  using assms core_replace [of sh e' e] dict_get_in_keys [OF assms(2)]
  by (simp add: shard_inv_def mem_size_def mem_put_entry_def dict_length_set)

lemma inv_entry_key: "shard_inv sh \<Longrightarrow> dict_get (sh_backend sh) k = Some e \<Longrightarrow> ce_key e = k"
  using mem.entry_key [of "sh_backend sh" k e] by (simp add: shard_inv_def core_defs mem_get_entry_def)

lemma key_frame_replace:
  assumes "dict_get (sh_backend sh) (ce_key e') = Some e" and "ce_value e' = ce_value e"
    and "ce_version e' = ce_version e" and "ce_dirty e' = ce_dirty e"
  shows "key_frame k sh (sh\<lparr>sh_backend := mem_put_entry e' (sh_backend sh)\<rparr>)"
  using assms by (simp add: key_frame_def mem_put_entry_def)

lemma key_frame_read:
  assumes "shard_inv sh"
  shows "key_frame k sh (snd (read_value_locked t c now j sh))"
proof (cases "dict_get (sh_backend sh) j")
  case None
  then show ?thesis by (simp add: read_value_locked_def mem_get_entry_def)
next
  case (Some e)
  with key_frame_replace [of sh "touch now e" e k] inv_entry_key [OF assms Some]
  show ?thesis by (simp add: read_value_locked_def mem_get_entry_def Let_def key_frame_remove)
qed

lemma key_frame_restore:
  assumes "shard_inv sh"
  shows "key_frame k sh (restore_hit_count_locked j n sh)"
  using key_frame_replace [of sh _ _ k] inv_entry_key [OF assms]
  by (auto simp: restore_hit_count_locked_def mem_get_entry_def split: option.splits)

lemma inv_policy_get: "shard_inv sh \<Longrightarrow> shard_inv (sh\<lparr>sh_policy := policy_on_get k (sh_policy sh)\<rparr>)"
  by (simp add: shard_inv_def core_defs)

lemma inv_read:
  assumes "shard_inv sh"
  shows "shard_inv (snd (read_value_locked t c now k sh))"
proof (cases "dict_get (sh_backend sh) k")
  case None
  then show ?thesis using assms by (simp add: read_value_locked_def mem_get_entry_def)
next
  case (Some e)
  have key: "ce_key (touch now e) = k" using inv_entry_key [OF assms Some] by simp
  have "shard_inv (sh\<lparr>sh_backend := mem_put_entry (touch now e) (sh_backend sh)\<rparr>)"
    using inv_replace [OF assms, of "touch now e" e] Some key by simp
  from inv_policy_get [OF this, of k] Some assms inv_remove [OF assms] show ?thesis
    by (simp add: read_value_locked_def mem_get_entry_def Let_def)
qed

lemma inv_expire_keys: "shard_inv sh \<Longrightarrow> shard_inv (snd (expire_keys_locked ks sh n))"
proof (induction ks arbitrary: sh n)
  case (Cons j ks)
  then show ?case using inv_remove [OF Cons.prems, of j "''expire''"] by (auto split: prod.splits)
qed simp

lemma inv_put_existing: "shard_inv sh \<Longrightarrow> shard_inv (snd (put_existing now k sh))"
  by (auto simp: put_existing_def inv_remove split: option.splits)

lemma inv_inspect: "shard_inv sh \<Longrightarrow> shard_inv (snd (inspect_locked now k sh))"
  by (auto simp: inspect_locked_def inv_remove split: option.splits)

lemma inv_dump: "shard_inv sh \<Longrightarrow> shard_inv (snd (dump_entries_locked now es snaps sh))"
  by (induction now es snaps sh rule: dump_entries_locked.induct) (auto simp: inv_remove)

lemma inv_mark_clean: "shard_inv sh \<Longrightarrow> shard_inv (mark_clean_locked k v sh)"
  by (auto simp: mark_clean_locked_def mem_get_entry_def split: option.splits
      intro!: inv_replace dest: inv_entry_key)

lemma inv_restore: "shard_inv sh \<Longrightarrow> shard_inv (restore_hit_count_locked k n sh)"
  by (auto simp: restore_hit_count_locked_def mem_get_entry_def split: option.splits
      intro!: inv_replace dest: inv_entry_key)

end
