(* ===== verification/Shard_Write.thy ===== *)
theory Shard_Write
  imports Shard_Ops
begin

text \<open>
  The effect of the write sections on the shard: the invariant is kept, the written key
  gets the new version, and every other key is framed.
\<close>

section \<open>Put\<close>

text \<open>The shard just before the capacity check of a put.\<close>

definition put_entry_of ::
  "write_mode \<Rightarrow> time option \<Rightarrow> time \<Rightarrow> 'k \<Rightarrow> 'v \<Rightarrow> ttl_arg \<Rightarrow> ('k, 'v) cache_entry option \<Rightarrow>
     ('k, 'v) shard \<Rightarrow> ('k, 'v) cache_entry" where
  "put_entry_of mode default_ttl now k v ttl existing sh =
     \<lparr>ce_key = k, ce_value = v,
      ce_created_at = (case existing of None \<Rightarrow> now | Some e \<Rightarrow> ce_created_at e),
      ce_last_accessed_at = now,
      ce_hit_count = (case existing of None \<Rightarrow> 0 | Some e \<Rightarrow> ce_hit_count e),
      ce_expires_at = snd (resolve_ttl default_ttl existing ttl now),
      ce_ttl = fst (resolve_ttl default_ttl existing ttl now),
      ce_version = Suc (dict_get0 (sh_version_marks sh) k), ce_dirty = (mode = WRITE_BACK)\<rparr>"

definition put_insert :: "('k, 'v) cache_entry \<Rightarrow> ('k, 'v) shard \<Rightarrow> ('k, 'v) shard" where
  "put_insert e sh =
     sh\<lparr>sh_version_marks := dict_set (ce_key e) (ce_version e) (sh_version_marks sh),
        sh_tombstones := dict_pop (ce_key e) (sh_tombstones sh),
        sh_backend := mem_put_entry e (sh_backend sh),
        sh_policy := policy_on_put (ce_key e) (sh_policy sh),
        sh_stats := (sh_stats sh)\<lparr>st_puts := st_puts (sh_stats sh) + 1\<rparr>\<rparr>"

lemma put_entry_of_fields [simp]:
  "ce_key (put_entry_of m d now k v ttl ex sh) = k"
  "ce_value (put_entry_of m d now k v ttl ex sh) = v"
  "ce_version (put_entry_of m d now k v ttl ex sh) = Suc (dict_get0 (sh_version_marks sh) k)"
  "ce_dirty (put_entry_of m d now k v ttl ex sh) = (m = WRITE_BACK)"
  "ce_expires_at (put_entry_of m d now k v ttl ex sh) = snd (resolve_ttl d ex ttl now)"
  by (simp_all add: put_entry_of_def)

lemma put_store_eq:
  "put_store m d now k v ttl ex sh =
     (Suc (dict_get0 (sh_version_marks sh) k),
      enforce_capacity_locked (put_insert (put_entry_of m d now k v ttl ex sh) sh))"
  by (simp add: put_store_def next_version_def put_insert_def put_entry_of_def Let_def
      split: prod.splits)

lemma put_insert_fields [simp]:
  "sh_capacity (put_insert e sh) = sh_capacity sh"
  "sh_index (put_insert e sh) = sh_index sh"
  "sh_backend (put_insert e sh) = dict_set (ce_key e) e (sh_backend sh)"
  "sh_policy (put_insert e sh) = policy_on_put (ce_key e) (sh_policy sh)"
  "sh_pending_flushes (put_insert e sh) = sh_pending_flushes sh"
  "sh_singleflight (put_insert e sh) = sh_singleflight sh"
  "sh_version_marks (put_insert e sh) = dict_set (ce_key e) (ce_version e) (sh_version_marks sh)"
  "sh_tombstones (put_insert e sh) = dict_pop (ce_key e) (sh_tombstones sh)"
  by (simp_all add: put_insert_def mem_put_entry_def)

lemma put_insert_core:
  assumes "shard_core sh"
  shows "shard_core (put_insert e sh)"
proof -
  have "store_ok (put_insert e sh)"
    using assms mem.inv_put [of "sh_backend sh" e]
    by (simp add: shard_core_def store_ok_def mem_put_entry_def)
  moreover have "marks_ok (put_insert e sh)"
    using assms by (auto simp: shard_core_def marks_ok_def)
  moreover have "pending_ok (put_insert e sh)"
    using assms by (simp add: shard_core_def pending_ok_def)
  ultimately show ?thesis using assms by (simp add: shard_core_def)
qed

lemma put_store_inv: "shard_inv sh \<Longrightarrow> shard_inv (snd (put_store m d now k v ttl ex sh))"
  by (simp add: put_store_eq enforce_capacity_ok put_insert_core shard_inv_def [of sh])

lemma put_insert_frame: "j \<noteq> ce_key e \<Longrightarrow> key_frame j sh (put_insert e sh)"
  by (simp add: key_frame_def)

lemma put_store_frame: "j \<noteq> k \<Longrightarrow> key_frame j sh (snd (put_store m d now k v ttl ex sh))"
  by (auto simp: put_store_eq intro: key_frame_trans [OF put_insert_frame key_frame_enforce])

text \<open>An overfull shard evicts exactly once when it holds one entry too many.\<close>

lemma enforce_once:
  assumes core: "shard_core sh" and size: "mem_size (sh_backend sh) = Suc (sh_capacity sh)"
    and c: "policy_evict_candidate (sh_policy sh) = Some c"
  shows "enforce_capacity_locked sh = snd (remove_entry_locked c ''evict'' sh)"
proof -
  let ?sh1 = "snd (remove_entry_locked c ''evict'' sh)"
  have pi: "policy_inv (sh_policy sh)" and tr: "policy_tracked (sh_policy sh) = sh_live sh"
    and wf: "dict_wf (sh_backend sh)"
    using core by (simp_all add: core_defs mem_inv_def)
  have "c \<in> sh_live sh" using pol.candidate_tracked [OF pi c] tr by simp
  then have stop: "mem_size (sh_backend ?sh1) \<le> sh_capacity ?sh1"
    using dict_length_pop [OF wf] size by (simp add: mem_size_def)
  have "0 < policy_len (sh_policy sh)"
    using pol.evict_progress [OF pi c] by simp
  then obtain n where "policy_len (sh_policy sh) = Suc n" by (cases "policy_len (sh_policy sh)") auto
  with stop c size show ?thesis by (simp add: enforce_capacity_locked_def)
qed

text \<open>The written key survives its own capacity check, unless LFU picks the newcomer.\<close>

definition put_room :: "'k \<Rightarrow> ('k, 'v) shard \<Rightarrow> bool" where
  "put_room k sh \<longleftrightarrow> k \<in> sh_live sh \<or> mem_size (sh_backend sh) < sh_capacity sh \<or> \<not> is_lfu (sh_policy sh)"

lemma put_insert_survives:
  assumes inv: "shard_inv sh" and room: "put_room (ce_key e) sh"
  shows "enforce_capacity_locked (put_insert e sh) = put_insert e sh \<or>
    (\<exists>c. c \<noteq> ce_key e \<and>
       enforce_capacity_locked (put_insert e sh) =
         snd (remove_entry_locked c ''evict'' (put_insert e sh)))"
proof (cases "mem_size (sh_backend (put_insert e sh)) \<le> sh_capacity (put_insert e sh)")
  case True
  then show ?thesis by (simp add: enforce_within_capacity)
next
  case False
  let ?k = "ce_key e" and ?sh1 = "put_insert e sh"
  have core: "shard_core ?sh1" using inv by (simp add: shard_inv_def put_insert_core)
  have new: "?k \<notin> sh_live sh" and size: "mem_size (sh_backend ?sh1) = Suc (sh_capacity ?sh1)"
    and full: "length (sh_backend sh) = sh_capacity sh"
    using False inv by (auto simp: shard_inv_def mem_size_def dict_length_set split: if_splits)
  then have nl: "\<not> is_lfu (sh_policy sh)" using room by (simp add: put_room_def mem_size_def)
  have pi: "policy_inv (sh_policy sh)" and tr: "policy_tracked (sh_policy sh) = sh_live sh"
    using inv by (auto simp: shard_inv_def core_defs)
  have ne: "sh_live sh \<noteq> {}" using full inv by (auto simp: shard_inv_def core_defs)
  have "policy_tracked (sh_policy ?sh1) \<noteq> {}" using pi by simp
  then obtain c where c: "policy_evict_candidate (sh_policy ?sh1) = Some c"
    using pol.candidate_exists [of "sh_policy ?sh1"] pi
    by (cases "policy_evict_candidate (sh_policy ?sh1)") auto
  have "c \<noteq> ?k" using policy_newcomer_safe [OF pi nl, of ?k] new ne tr c by auto
  with enforce_once [OF core size c] show ?thesis by blast
qed

lemma put_store_key:
  assumes inv: "shard_inv sh" and room: "put_room k sh"
  shows "dict_get (sh_backend (snd (put_store m d now k v ttl ex sh))) k =
      Some (put_entry_of m d now k v ttl ex sh)"
    and "dict_get0 (sh_version_marks (snd (put_store m d now k v ttl ex sh))) k =
      Suc (dict_get0 (sh_version_marks sh) k)"
    and "dict_get (sh_tombstones (snd (put_store m d now k v ttl ex sh))) k = None"
    and "dict_get0 (sh_pending_flushes (snd (put_store m d now k v ttl ex sh))) k =
      dict_get0 (sh_pending_flushes sh) k"
  using put_insert_survives [OF inv, of "put_entry_of m d now k v ttl ex sh"] room
  by (auto simp: put_store_eq remove_marks)

lemma put_store_pending [simp]:
  assumes "shard_inv sh"
  shows "sh_pending_flushes (snd (put_store m d now k v ttl ex sh)) = sh_pending_flushes sh"
    and "sh_index (snd (put_store m d now k v ttl ex sh)) = sh_index sh"
    and "sh_capacity (snd (put_store m d now k v ttl ex sh)) = sh_capacity sh"
    and "is_lfu (sh_policy (snd (put_store m d now k v ttl ex sh))) = is_lfu (sh_policy sh)"
    and "sh_live (snd (put_store m d now k v ttl ex sh)) \<subseteq> insert k (sh_live sh)"
    and "sh_tombs (snd (put_store m d now k v ttl ex sh)) \<subseteq> sh_tombs sh"
proof -
  have "shard_core (put_insert (put_entry_of m d now k v ttl ex sh) sh)"
    using assms by (simp add: shard_inv_def put_insert_core)
  note F = enforce_frame [OF this]
  show "sh_pending_flushes (snd (put_store m d now k v ttl ex sh)) = sh_pending_flushes sh"
    and "sh_index (snd (put_store m d now k v ttl ex sh)) = sh_index sh"
    and "sh_capacity (snd (put_store m d now k v ttl ex sh)) = sh_capacity sh"
    and "is_lfu (sh_policy (snd (put_store m d now k v ttl ex sh))) = is_lfu (sh_policy sh)"
    and "sh_live (snd (put_store m d now k v ttl ex sh)) \<subseteq> insert k (sh_live sh)"
    using F(1) by (simp_all add: put_store_eq F)
  show "sh_tombs (snd (put_store m d now k v ttl ex sh)) \<subseteq> sh_tombs sh"
    using F(8) by (auto simp: put_store_eq)
qed

section \<open>Delete\<close>

lemma tombstone_eq:
  "tombstone_locked retries k sh =
     (let version = Suc (dict_get0 (sh_version_marks sh) k) in
      (flush_delete_job sh k version retries,
       sh\<lparr>sh_version_marks := dict_set k version (sh_version_marks sh),
          sh_tombstones := dict_set k version (sh_tombstones sh),
          sh_pending_flushes :=
            dict_set k (dict_get0 (sh_pending_flushes sh) k + 1) (sh_pending_flushes sh)\<rparr>))"
  by (simp add: tombstone_locked_def next_version_def register_pending_locked_def Let_def)

lemma delete_entry_fields [simp]:
  "fst (delete_entry_locked k sh) \<longleftrightarrow> k \<in> sh_live sh"
  "sh_backend (snd (delete_entry_locked k sh)) = dict_pop k (sh_backend sh)"
  "sh_policy (snd (delete_entry_locked k sh)) = policy_on_delete k (sh_policy sh)"
  "sh_capacity (snd (delete_entry_locked k sh)) = sh_capacity sh"
  "sh_index (snd (delete_entry_locked k sh)) = sh_index sh"
  "sh_pending_flushes (snd (delete_entry_locked k sh)) = sh_pending_flushes sh"
  "sh_version_marks (snd (delete_entry_locked k sh)) =
     (if 0 < dict_get0 (sh_pending_flushes sh) k then sh_version_marks sh
      else dict_pop k (sh_version_marks sh))"
  "sh_tombstones (snd (delete_entry_locked k sh)) =
     (if 0 < dict_get0 (sh_pending_flushes sh) k then sh_tombstones sh
      else dict_pop k (sh_tombstones sh))"
  by (simp_all add: delete_entry_locked_def case_prod_beta remove_marks)

lemma delete_entry_inv: "shard_inv sh \<Longrightarrow> shard_inv (snd (delete_entry_locked k sh))"
  using inv_remove [of sh k "''delete''"] by (auto simp: delete_entry_locked_def split: prod.splits)

lemma delete_entry_frame: "key_frame j sh (snd (delete_entry_locked k sh))"
  using key_frame_remove [of j sh k "''delete''"]
  by (auto simp: delete_entry_locked_def split: prod.splits)

text \<open>
  A write-back delete breaks the invariant between the tombstone and the removal of the
  entry, so the two steps are taken together.
\<close>

lemma tombstone_delete_inv:
  assumes "shard_inv sh"
  shows "shard_inv (snd (delete_entry_locked k (snd (tombstone_locked retries k sh))))"
proof -
  let ?sh' = "snd (delete_entry_locked k (snd (tombstone_locked retries k sh)))"
  have "store_ok ?sh'"
    using assms mem.inv_delete [of "sh_backend sh" k]
    by (simp add: shard_inv_def core_defs tombstone_eq Let_def mem_delete_entry_def)
  moreover have "marks_ok ?sh'"
    using assms by (auto simp: shard_inv_def core_defs tombstone_eq Let_def)
  moreover have "pending_ok ?sh'"
    using assms by (auto simp: shard_inv_def core_defs tombstone_eq Let_def)
  ultimately show ?thesis
    using assms
    by (simp add: shard_inv_def shard_core_def tombstone_eq Let_def mem_size_def
        le_trans [OF length_delete_le])
qed

lemma tombstone_frame: "j \<noteq> k \<Longrightarrow> key_frame j sh (snd (tombstone_locked retries k sh))"
  by (simp add: key_frame_def tombstone_eq Let_def)

lemma tombstone_delete_frame:
  "j \<noteq> k \<Longrightarrow> key_frame j sh (snd (delete_entry_locked k (snd (tombstone_locked retries k sh))))"
  by (rule key_frame_trans [OF tombstone_frame delete_entry_frame])

section \<open>Whole sections\<close>

lemma put_locked_inv:
  assumes "shard_inv sh" and "put_locked m d n now k v ttl s sh = (r, s', sh')"
  shows "shard_inv sh'"
proof -
  obtain ex sh0 where e: "put_existing now k sh = (ex, sh0)" by fastforce
  have inv0: "shard_inv sh0" using inv_put_existing [OF assms(1), of now k] e by simp
  have inv1: "shard_inv (snd (put_store m d now k v ttl ex sh0))" using inv0 by (rule put_store_inv)
  show ?thesis
    using assms(2) e inv0 inv1 inv_register [OF inv1, of k]
    by (auto simp: put_locked_def case_prod_beta split: sum.splits if_splits)
qed

lemma delete_locked_inv:
  assumes "shard_inv sh" and "delete_locked m n k s sh = (r, s', sh')"
  shows "shard_inv sh'"
  using assms delete_entry_inv [OF assms(1), of k] tombstone_delete_inv [OF assms(1), of k n]
  by (auto simp: delete_locked_def Let_def split: prod.splits sum.splits if_splits)

text \<open>One round of the loop of \<open>clear\<close>: the source refuses, or the key is gone.\<close>

definition clear_round ::
  "write_mode \<Rightarrow> int \<Rightarrow> 'k \<Rightarrow> ('k, 'v) flush_job list \<Rightarrow> ('k, 'v) slow_dict \<Rightarrow> ('k, 'v) shard \<Rightarrow>
     ('k, 'v) flush_job list \<Rightarrow> ('k, 'v) slow_dict \<Rightarrow> ('k, 'v) shard \<Rightarrow> bool" where
  "clear_round m n k js s sh js1 s1 sh1 \<longleftrightarrow>
     (if m = WRITE_BACK
      then js1 = js @ [fst (tombstone_locked n k sh)] \<and> s1 = s \<and>
           sh1 = snd (delete_entry_locked k (snd (tombstone_locked n k sh)))
      else js1 = js \<and> sh1 = snd (delete_entry_locked k sh) \<and>
           (if m = WRITE_THROUGH then sd_delete_value k s = (Inr (), s1) else s1 = s))"

lemma clear_keys_cases [consumes 1, case_names refused round]:
  assumes "clear_keys_locked m n (k # ks) js s sh = (r, s', sh')"
  obtains e where "m = WRITE_THROUGH" "sd_delete_value k s = (Inl e, s')" "r = Inl e" "sh' = sh"
  | js1 s1 sh1 where "clear_round m n k js s sh js1 s1 sh1"
      "clear_keys_locked m n ks js1 s1 sh1 = (r, s', sh')"
proof (cases "m = WRITE_THROUGH")
  case True
  obtain rd s1 where d: "sd_delete_value k s = (rd, s1)" by fastforce
  show thesis
  proof (cases rd)
    case (Inl e)
    with True d assms that(1) show thesis by simp
  next
    case (Inr u)
    with True d assms that(2) show thesis by (simp add: clear_round_def)
  qed
next
  case False
  with assms that(2) show thesis
    by (cases "m = WRITE_BACK") (simp_all add: clear_round_def case_prod_beta)
qed

lemma clear_round_inv:
  assumes "clear_round m n k js s sh js1 s1 sh1" and "shard_inv sh"
  shows "shard_inv sh1"
  using assms by (auto simp: clear_round_def delete_entry_inv tombstone_delete_inv split: if_splits)

lemma clear_round_fields:
  assumes "clear_round m n k js s sh js1 s1 sh1"
  shows "sh_backend sh1 = dict_pop k (sh_backend sh)" and "sh_index sh1 = sh_index sh"
    and "sh_capacity sh1 = sh_capacity sh" and "is_lfu (sh_policy sh1) = is_lfu (sh_policy sh)"
  using assms by (auto simp: clear_round_def tombstone_eq Let_def split: if_splits)

lemma clear_keys_inv:
  assumes "shard_inv sh" and "clear_keys_locked m n ks js s sh = (r, s', sh')"
  shows "shard_inv sh'" and "r = Inr js' \<Longrightarrow> sh_live sh' = sh_live sh - set ks"
proof -
  have "shard_inv sh' \<and> (\<forall>js'. r = Inr js' \<longrightarrow> sh_live sh' = sh_live sh - set ks)"
    using assms
  proof (induction ks arbitrary: js s sh)
    case Nil
    then show ?case by simp
  next
    case (Cons k ks)
    from Cons.prems(2) show ?case
    proof (cases rule: clear_keys_cases)
      case (refused e)
      with Cons.prems(1) show ?thesis by simp
    next
      case (round js1 s1 sh1)
      have "sh_live sh1 - set ks = sh_live sh - set (k # ks)"
        by (simp add: clear_round_fields(1) [OF round(1)]) blast
      with Cons.IH [OF clear_round_inv [OF round(1) Cons.prems(1)] round(2)] show ?thesis by simp
    qed
  qed
  then show "shard_inv sh'" and "r = Inr js' \<Longrightarrow> sh_live sh' = sh_live sh - set ks" by auto
qed

lemma inv_policy_clear:
  "shard_inv sh \<Longrightarrow> sh_backend sh = [] \<Longrightarrow>
     shard_inv (sh\<lparr>sh_policy := policy_clear (sh_policy sh), sh_singleflight := f\<rparr>)"
  by (simp add: shard_inv_def core_defs)

lemma clear_locked_inv:
  assumes "shard_inv sh" and "clear_locked m n js s sh = (r, s', sh')"
  shows "shard_inv sh'" and "r = Inr js' \<Longrightarrow> sh_backend sh' = []"
proof -
  obtain r1 s1 sh1 where c: "clear_keys_locked m n (mem_keys (sh_backend sh)) js s sh = (r1, s1, sh1)"
    by (metis prod_cases3)
  have inv1: "shard_inv sh1" using clear_keys_inv(1) [OF assms(1) c] .
  have "shard_inv sh' \<and> (\<forall>js'. r = Inr js' \<longrightarrow> sh_backend sh' = [])"
  proof (cases r1)
    case (Inl e)
    with c assms(2) inv1 show ?thesis by (auto simp: clear_locked_def)
  next
    case (Inr js1)
    then have "sh_live sh1 = {}"
      using clear_keys_inv(2) [OF assms(1) c] by (simp add: mem_keys_def)
    then have "sh_backend sh1 = []" by simp
    with c Inr assms(2) inv_policy_clear [OF inv1] show ?thesis
      by (auto simp: clear_locked_def)
  qed
  then show "shard_inv sh'" and "r = Inr js' \<Longrightarrow> sh_backend sh' = []" by auto
qed

end
