(* ===== verification/Cache.thy ===== *)
theory Cache
  imports Shard_Write
begin

text \<open>
  \<open>core/cache.py\<close>: the \<open>Cache\<close> object, its constructor and its public operations, each
  run to completion by its caller. An operation is a sequence of sections: the check of
  the lifecycle state, one section under a shard's lock, and the enqueueing of the
  flush jobs. The sections are functions of their own, so that the interleavings of
  several threads (theory \<open>Write_Back\<close>, theory \<open>Single_Flight\<close>) are made of the same
  pieces. Logging is left out. The stable hash of a key is the parameter \<open>h\<close>; see
  theory \<open>Hashing\<close>.
\<close>

section \<open>State\<close>

text \<open>
  A worker pool keeps the threads it started, each alive or not; the scheduler keeps at
  most one thread. A flight is the object a leader and its waiters share; flights are
  named by their position in \<open>c_flights\<close>.
\<close>

record worker_pool =
  wp_count :: int
  wp_threads :: "bool list"
  wp_started :: bool
  wp_stop_event :: bool

record expiration_scheduler =
  sc_interval :: time
  sc_shard_count :: nat
  sc_stop :: bool
  sc_thread :: "bool option"

record 'v flight =
  fl_event :: bool
  fl_result :: "'v option"
  fl_exception :: "cache_error option"

record ('k, 'v) cache =
  c_config :: cache_config
  c_clock :: fake_clock
  c_write_mode :: write_mode
  c_source :: "('k, 'v) slow_dict"
  c_shards :: "('k, 'v) shard list"
  c_queue :: "('k, 'v) job job_queue"
  c_runtime :: runtime_stats
  c_last_snapshot :: "cache_stats option"
  c_state :: lifecycle_state
  c_warned :: bool
  c_pool :: worker_pool
  c_scheduler :: expiration_scheduler
  c_flights :: "'v flight list"

section \<open>Construction\<close>

text \<open>The keyword arguments of \<open>Cache.__init__\<close>; \<open>None\<close> is \<open>_CONFIG_UNSET\<close>.\<close>

record init_args =
  ia_capacity :: "int option"
  ia_default_ttl :: "time option option"
  ia_policy :: "string option"
  ia_shard_count :: "int option"
  ia_worker_count :: "int option"
  ia_scheduler_interval :: "time option"
  ia_queue_size :: "int option"
  ia_write_mode :: "string option"
  ia_backend :: "string option"

definition init_args_unset :: init_args where
  "init_args_unset =
     \<lparr>ia_capacity = None, ia_default_ttl = None, ia_policy = None, ia_shard_count = None,
      ia_worker_count = None, ia_scheduler_interval = None, ia_queue_size = None,
      ia_write_mode = None, ia_backend = None\<rparr>"

definition init_conflicting :: "init_args \<Rightarrow> bool" where
  "init_conflicting a \<longleftrightarrow>
     ia_capacity a \<noteq> None \<or> ia_default_ttl a \<noteq> None \<or> ia_policy a \<noteq> None \<or>
     ia_shard_count a \<noteq> None \<or> ia_worker_count a \<noteq> None \<or> ia_scheduler_interval a \<noteq> None \<or>
     ia_queue_size a \<noteq> None \<or> ia_write_mode a \<noteq> None \<or> ia_backend a \<noteq> None"

definition arg_or :: "'a option \<Rightarrow> 'a \<Rightarrow> 'a" where
  "arg_or arg dflt = (case arg of None \<Rightarrow> dflt | Some x \<Rightarrow> x)"

definition init_config :: "cache_config option \<Rightarrow> init_args \<Rightarrow> cache_error + cache_config" where
  "init_config config a =
     (case config of
        Some cfg \<Rightarrow> if init_conflicting a then Inl ConfigurationError else Inr cfg
      | None \<Rightarrow> config_post_init (default_config
          \<lparr>cfg_capacity := arg_or (ia_capacity a) 128,
           cfg_default_ttl := arg_or (ia_default_ttl a) None,
           cfg_policy := arg_or (ia_policy a) ''lru'',
           cfg_shard_count := arg_or (ia_shard_count a) 1,
           cfg_worker_count := arg_or (ia_worker_count a) 0,
           cfg_scheduler_interval := arg_or (ia_scheduler_interval a) 1,
           cfg_queue_size := arg_or (ia_queue_size a) 0,
           cfg_write_mode := arg_or (ia_write_mode a) (write_mode_value CACHE_ONLY),
           cfg_backend := arg_or (ia_backend a) ''memory''\<rparr>))"

definition make_backend :: "string \<Rightarrow> cache_error + ('k, 'v) memory_backend" where
  "make_backend name = (if name = ''memory'' then Inr [] else Inl ConfigurationError)"

fun make_shards ::
  "cache_config \<Rightarrow> nat \<Rightarrow> int list \<Rightarrow> cache_error + ('k, 'v) shard list" where
  "make_shards cfg index [] = Inr []"
| "make_shards cfg index (capacity # rest) =
     (case (make_backend (cfg_backend cfg) :: cache_error + ('k, 'v) memory_backend) of
        Inl e \<Rightarrow> Inl e
      | Inr backend \<Rightarrow>
          (case make_policy (cfg_policy cfg) of
             Inl e \<Rightarrow> Inl e
           | Inr policy \<Rightarrow>
               (case make_shards cfg (Suc index) rest of
                  Inl e \<Rightarrow> Inl e
                | Inr shards \<Rightarrow>
                    Inr ((shard_init index (nat capacity) policy)\<lparr>sh_backend := backend\<rparr> # shards))))"

definition cache_init ::
  "cache_config option \<Rightarrow> init_args \<Rightarrow> ('k, 'v) slow_dict option \<Rightarrow> fake_clock \<Rightarrow>
     cache_error + ('k, 'v) cache" where
  "cache_init config a source clock =
     (case init_config config a of
        Inl e \<Rightarrow> Inl e
      | Inr cfg \<Rightarrow>
          (case parse_write_mode (cfg_write_mode cfg) of
             Inl e \<Rightarrow> Inl e
           | Inr mode \<Rightarrow>
               (case make_shards cfg 0 (shard_capacities (cfg_capacity cfg) (cfg_shard_count cfg)) of
                  Inl e \<Rightarrow> Inl e
                | Inr shards \<Rightarrow>
                    Inr \<lparr>c_config = cfg, c_clock = clock, c_write_mode = mode,
                         c_source = arg_or source (slow_dict_init 0 (fake_clock_init 0)),
                         c_shards = shards, c_queue = jq_init (cfg_queue_size cfg),
                         c_runtime = runtime_stats_init, c_last_snapshot = None,
                         c_state = CREATED, c_warned = False,
                         c_pool = \<lparr>wp_count = cfg_worker_count cfg, wp_threads = [],
                                   wp_started = False, wp_stop_event = False\<rparr>,
                         c_scheduler = \<lparr>sc_interval = cfg_scheduler_interval cfg,
                                        sc_shard_count = length shards, sc_stop = False,
                                        sc_thread = None\<rparr>,
                         c_flights = []\<rparr>)))"

section \<open>Guards\<close>

definition require_not_closed :: "('k, 'v) cache \<Rightarrow> cache_error option" where
  "require_not_closed c = (if c_state c \<in> {CLOSED, CLOSING} then Some RuntimeError else None)"

definition require_workers :: "('k, 'v) cache \<Rightarrow> cache_error option" where
  "require_workers c = (if cfg_worker_count (c_config c) \<le> 0 then Some RuntimeError else None)"

definition maybe_warn_cache_not_started :: "('k, 'v) cache \<Rightarrow> ('k, 'v) cache" where
  "maybe_warn_cache_not_started c =
     (if c_warned c then c
      else if c_state c = STARTED then c
      else if cfg_worker_count (c_config c) = 0
      then (if c_write_mode c = WRITE_BACK then c\<lparr>c_warned := True\<rparr> else c)
      else c\<lparr>c_warned := True\<rparr>)"

text \<open>An operation guarded by \<open>_require_not_closed\<close>.\<close>

definition unless_closed ::
  "('k, 'v) cache \<Rightarrow> ('a, ('k, 'v) cache) outcome \<Rightarrow> ('a, ('k, 'v) cache) outcome" where
  "unless_closed c body = (case require_not_closed c of Some e \<Rightarrow> (Inl e, c) | None \<Rightarrow> body)"

section \<open>Sections under a shard's lock\<close>

definition shard_for :: "('k \<Rightarrow> nat) \<Rightarrow> ('k, 'v) cache \<Rightarrow> 'k \<Rightarrow> nat" where
  "shard_for h c k = h k mod length (c_shards c)"

definition cache_now :: "('k, 'v) cache \<Rightarrow> time" where
  "cache_now c = clock_now (c_clock c)"

definition set_shard :: "nat \<Rightarrow> ('k, 'v) shard \<Rightarrow> ('k, 'v) cache \<Rightarrow> ('k, 'v) cache" where
  "set_shard i sh c = c\<lparr>c_shards := (c_shards c)[i := sh]\<rparr>"

text \<open>A section that only changes the shard.\<close>

definition on_shard ::
  "nat \<Rightarrow> (('k, 'v) shard \<Rightarrow> 'a \<times> ('k, 'v) shard) \<Rightarrow> ('k, 'v) cache \<Rightarrow> 'a \<times> ('k, 'v) cache" where
  "on_shard i f c = (case f (c_shards c ! i) of (r, sh) \<Rightarrow> (r, set_shard i sh c))"

text \<open>A section that may also write to the source of truth.\<close>

definition on_shard_source ::
  "nat \<Rightarrow> (('k, 'v) slow_dict \<Rightarrow> ('k, 'v) shard \<Rightarrow> ('a, ('k, 'v) slow_dict \<times> ('k, 'v) shard) outcome) \<Rightarrow>
     ('k, 'v) cache \<Rightarrow> ('a, ('k, 'v) cache) outcome" where
  "on_shard_source i f c =
     (case f (c_source c) (c_shards c ! i) of
        (r, source, sh) \<Rightarrow> (r, (set_shard i sh c)\<lparr>c_source := source\<rparr>))"

definition put_section ::
  "('k \<Rightarrow> nat) \<Rightarrow> 'k \<Rightarrow> 'v \<Rightarrow> ttl_arg \<Rightarrow> ('k, 'v) cache \<Rightarrow>
     (('k, 'v) flush_job option, ('k, 'v) cache) outcome" where
  "put_section h k v ttl c =
     on_shard_source (shard_for h c k)
       (put_locked (c_write_mode c) (cfg_default_ttl (c_config c))
          (cfg_write_back_retry_count (c_config c)) (cache_now c) k v ttl) c"

definition delete_section ::
  "('k \<Rightarrow> nat) \<Rightarrow> 'k \<Rightarrow> ('k, 'v) cache \<Rightarrow>
     (bool \<times> ('k, 'v) flush_job option, ('k, 'v) cache) outcome" where
  "delete_section h k c =
     on_shard_source (shard_for h c k)
       (delete_locked (c_write_mode c) (cfg_write_back_retry_count (c_config c)) k) c"

definition clear_section ::
  "nat \<Rightarrow> ('k, 'v) flush_job list \<Rightarrow> ('k, 'v) cache \<Rightarrow>
     (('k, 'v) flush_job list, ('k, 'v) cache) outcome" where
  "clear_section i jobs c =
     on_shard_source i
       (clear_locked (c_write_mode c) (cfg_write_back_retry_count (c_config c)) jobs) c"

definition read_section ::
  "('k \<Rightarrow> nat) \<Rightarrow> bool \<Rightarrow> 'k \<Rightarrow> ('k, 'v) cache \<Rightarrow> 'v option \<times> ('k, 'v) cache" where
  "read_section h do_touch k c =
     on_shard (shard_for h c k) (read_value_locked do_touch True (cache_now c) k) c"

definition expire_shard :: "nat \<Rightarrow> ('k, 'v) cache \<Rightarrow> nat \<times> ('k, 'v) cache" where
  "expire_shard i c = on_shard i (expire_shard_locked (cache_now c)) c"

section \<open>Enqueueing\<close>

definition enqueue_job ::
  "('k, 'v) job \<Rightarrow> bool \<Rightarrow> ('k, 'v) cache \<Rightarrow> (bool, ('k, 'v) cache) outcome" where
  "enqueue_job job critical c =
     (case jq_put job critical (c_queue c) of
        (ok, q) \<Rightarrow>
          (let c1 = c\<lparr>c_queue := q\<rparr>
           in if ok then (Inr True, c1)
              else if critical then (Inl QueueBackpressureError, c1)
              else (Inr False, c1)))"

definition resolve_pending :: "nat \<Rightarrow> 'k \<Rightarrow> ('k, 'v) cache \<Rightarrow> ('k, 'v) cache" where
  "resolve_pending i k c = set_shard i (resolve_pending_locked k (c_shards c ! i)) c"

fun release_jobs :: "('k, 'v) flush_job list \<Rightarrow> ('k, 'v) cache \<Rightarrow> ('k, 'v) cache" where
  "release_jobs [] c = c"
| "release_jobs (j # js) c = release_jobs js (resolve_pending (fj_shard_index j) (fj_key j) c)"

fun enqueue_flush_jobs ::
  "('k, 'v) flush_job list \<Rightarrow> ('k, 'v) cache \<Rightarrow> (unit, ('k, 'v) cache) outcome" where
  "enqueue_flush_jobs [] c = (Inr (), c)"
| "enqueue_flush_jobs (j # js) c =
     (case enqueue_job (FlushWriteBack j) True c of
        (Inl e, c1) \<Rightarrow> (Inl e, release_jobs (j # js) c1)
      | (Inr ok, c1) \<Rightarrow> enqueue_flush_jobs js c1)"

section \<open>Public operations\<close>

definition cache_get ::
  "('k \<Rightarrow> nat) \<Rightarrow> 'k \<Rightarrow> 'v option \<Rightarrow> ('k, 'v) cache \<Rightarrow> ('v option, ('k, 'v) cache) outcome" where
  "cache_get h k dflt c = unless_closed c
     (case read_section h True k c of (found, c1) \<Rightarrow>
        (Inr (case found of Some v \<Rightarrow> Some v | None \<Rightarrow> dflt), c1))"

definition cache_put ::
  "('k \<Rightarrow> nat) \<Rightarrow> 'k \<Rightarrow> 'v \<Rightarrow> ttl_arg \<Rightarrow> ('k, 'v) cache \<Rightarrow> (unit, ('k, 'v) cache) outcome" where
  "cache_put h k v ttl c = unless_closed c
     (let c1 = maybe_warn_cache_not_started c in
      case validate_explicit_ttl ttl of
        Some e \<Rightarrow> (Inl e, c1)
      | None \<Rightarrow>
          (case put_section h k v ttl c1 of
             (Inl e, c2) \<Rightarrow> (Inl e, c2)
           | (Inr None, c2) \<Rightarrow> (Inr (), c2)
           | (Inr (Some job), c2) \<Rightarrow> enqueue_flush_jobs [job] c2))"

definition cache_delete ::
  "('k \<Rightarrow> nat) \<Rightarrow> 'k \<Rightarrow> ('k, 'v) cache \<Rightarrow> (bool, ('k, 'v) cache) outcome" where
  "cache_delete h k c = unless_closed c
     (case delete_section h k c of
        (Inl e, c1) \<Rightarrow> (Inl e, c1)
      | (Inr (existed, None), c1) \<Rightarrow> (Inr existed, c1)
      | (Inr (existed, Some job), c1) \<Rightarrow>
          (case enqueue_flush_jobs [job] c1 of
             (Inl e, c2) \<Rightarrow> (Inl e, c2)
           | (Inr u, c2) \<Rightarrow> (Inr existed, c2)))"

definition cache_contains ::
  "('k \<Rightarrow> nat) \<Rightarrow> 'k \<Rightarrow> ('k, 'v) cache \<Rightarrow> (bool, ('k, 'v) cache) outcome" where
  "cache_contains h k c = unless_closed c
     (case read_section h False k c of (found, c1) \<Rightarrow> (Inr (found \<noteq> None), c1))"

fun clear_shards ::
  "nat list \<Rightarrow> ('k, 'v) flush_job list \<Rightarrow> ('k, 'v) cache \<Rightarrow>
     (('k, 'v) flush_job list, ('k, 'v) cache) outcome" where
  "clear_shards [] jobs c = (Inr jobs, c)"
| "clear_shards (i # is) jobs c =
     (case clear_section i jobs c of
        (Inl e, c1) \<Rightarrow> (Inl e, c1)
      | (Inr jobs1, c1) \<Rightarrow> clear_shards is jobs1 c1)"

definition cache_clear :: "('k, 'v) cache \<Rightarrow> (unit, ('k, 'v) cache) outcome" where
  "cache_clear c = unless_closed c
     (case clear_shards [0..<length (c_shards c)] [] c of
        (Inl e, c1) \<Rightarrow> (Inl e, c1)
      | (Inr jobs, c1) \<Rightarrow> enqueue_flush_jobs jobs c1)"

definition total_size :: "('k, 'v) cache \<Rightarrow> nat" where
  "total_size c = sum_list (map (\<lambda>sh. mem_size (sh_backend sh)) (c_shards c))"

definition cache_size :: "('k, 'v) cache \<Rightarrow> (nat, ('k, 'v) cache) outcome" where
  "cache_size c = unless_closed c (Inr (total_size c), c)"

definition cache_inspect ::
  "('k \<Rightarrow> nat) \<Rightarrow> 'k \<Rightarrow> ('k, 'v) cache \<Rightarrow> (('k, 'v) entry_snapshot option, ('k, 'v) cache) outcome" where
  "cache_inspect h k c = unless_closed c
     (case on_shard (shard_for h c k) (inspect_locked (cache_now c) k) c of (r, c1) \<Rightarrow> (Inr r, c1))"

fun dump_shards ::
  "nat list \<Rightarrow> ('k, 'v) entry_snapshot list \<Rightarrow> ('k, 'v) cache \<Rightarrow>
     ('k, 'v) entry_snapshot list \<times> ('k, 'v) cache" where
  "dump_shards [] snaps c = (snaps, c)"
| "dump_shards (i # is) snaps c =
     (case on_shard i (\<lambda>sh. dump_entries_locked (cache_now c) (mem_entries (sh_backend sh)) snaps sh) c of
        (snaps1, c1) \<Rightarrow> dump_shards is snaps1 c1)"

text \<open>\<open>snapshots[:limit]\<close>: a negative limit counts from the end.\<close>

definition slice_to :: "int \<Rightarrow> 'a list \<Rightarrow> 'a list" where
  "slice_to limit xs = take (nat (if 0 \<le> limit then limit else int (length xs) + limit)) xs"

definition cache_dump ::
  "int option \<Rightarrow> ('k, 'v) cache \<Rightarrow> (('k, 'v) entry_snapshot list, ('k, 'v) cache) outcome" where
  "cache_dump limit c = unless_closed c
     (case dump_shards [0..<length (c_shards c)] [] c of (snaps, c1) \<Rightarrow>
        (Inr (case limit of None \<Rightarrow> snaps | Some n \<Rightarrow> slice_to n snaps), c1))"

fun expire_shards :: "nat list \<Rightarrow> nat \<Rightarrow> ('k, 'v) cache \<Rightarrow> nat \<times> ('k, 'v) cache" where
  "expire_shards [] acc c = (acc, c)"
| "expire_shards (i # is) acc c =
     (case expire_shard i c of (n, c1) \<Rightarrow> expire_shards is (acc + n) c1)"

definition cache_expire_all :: "('k, 'v) cache \<Rightarrow> (nat, ('k, 'v) cache) outcome" where
  "cache_expire_all c = unless_closed c
     (case expire_shards [0..<length (c_shards c)] 0 c of (n, c1) \<Rightarrow> (Inr n, c1))"

definition restore_entry_metadata ::
  "('k \<Rightarrow> nat) \<Rightarrow> 'k \<Rightarrow> int \<Rightarrow> ('k, 'v) cache \<Rightarrow> (unit, ('k, 'v) cache) outcome" where
  "restore_entry_metadata h k hit_count c = unless_closed c
     (let i = shard_for h c k
      in (Inr (), set_shard i (restore_hit_count_locked k hit_count (c_shards c ! i)) c))"

section \<open>Statistics\<close>

definition shard_snapshot :: "('k, 'v) shard \<Rightarrow> shard_stats" where
  "shard_snapshot sh =
     \<lparr>ss_index = sh_index sh, ss_size = mem_size (sh_backend sh), ss_capacity = sh_capacity sh,
      ss_hits = st_hits (sh_stats sh), ss_misses = st_misses (sh_stats sh),
      ss_puts = st_puts (sh_stats sh), ss_deletes = st_deletes (sh_stats sh),
      ss_evictions = st_evictions (sh_stats sh), ss_expirations = st_expirations (sh_stats sh),
      ss_lock_contention = sh_contentions sh,
      ss_policy = \<lparr>ps_name = policy_name (sh_policy sh), ps_evictions = st_evictions (sh_stats sh),
                   ps_tracked_keys = policy_len (sh_policy sh),
                   ps_metadata_size = policy_metadata_size (sh_policy sh)\<rparr>\<rparr>"

definition cache_stats_of :: "('k, 'v) cache \<Rightarrow> cache_stats" where
  "cache_stats_of c =
     (let shards = map shard_snapshot (c_shards c);
          hits = sum_list (map ss_hits shards);
          misses = sum_list (map ss_misses shards);
          total_reads = hits + misses;
          runtime = c_runtime c
      in \<lparr>cs_hits = hits, cs_misses = misses,
          cs_hit_ratio = (if total_reads = 0 then 0 else real hits / real total_reads),
          cs_puts = sum_list (map ss_puts shards), cs_deletes = sum_list (map ss_deletes shards),
          cs_evictions = sum_list (map ss_evictions shards),
          cs_expirations = sum_list (map ss_expirations shards),
          cs_size = sum_list (map ss_size shards), cs_capacity = sum_list (map ss_capacity shards),
          cs_queue_depth = jq_depth (c_queue c), cs_queue_dropped = jq_dropped (c_queue c),
          cs_worker_jobs_completed = rt_worker_jobs_completed runtime,
          cs_worker_jobs_failed = rt_worker_jobs_failed runtime,
          cs_write_back_retries = rt_write_back_retries runtime,
          cs_stale_write_back_jobs_skipped = rt_stale_write_back_jobs_skipped runtime,
          cs_flush_failures = rt_flush_failures runtime,
          cs_shutdown_flush_failures = rt_shutdown_flush_failures runtime,
          cs_shards = shards\<rparr>)"

section \<open>Requests to the workers\<close>

definition cache_preload ::
  "('k \<Rightarrow> nat) \<Rightarrow> 'k \<Rightarrow> 'v loader \<Rightarrow> ttl_arg \<Rightarrow> ('k, 'v) cache \<Rightarrow> (bool, ('k, 'v) cache) outcome" where
  "cache_preload h k loader ttl c = unless_closed c
     (case validate_explicit_ttl ttl of
        Some e \<Rightarrow> (Inl e, c)
      | None \<Rightarrow>
          (case require_workers c of
             Some e \<Rightarrow> (Inl e, c)
           | None \<Rightarrow>
               (let c1 = maybe_warn_cache_not_started c;
                    job = \<lparr>pj_shard_index = sh_index (c_shards c1 ! shard_for h c1 k), pj_key = k,
                           pj_loader = loader,
                           pj_ttl = (case ttl of TTL_SECONDS t \<Rightarrow> Some t | _ \<Rightarrow> None),
                           pj_ttl_supplied = (ttl \<noteq> TTL_UNSET)\<rparr>
                in enqueue_job (PreloadKey job) False c1)))"

definition request_snapshot :: "string \<Rightarrow> ('k, 'v) cache \<Rightarrow> (bool, ('k, 'v) cache) outcome" where
  "request_snapshot request_id c = unless_closed c
     (case require_workers c of
        Some e \<Rightarrow> (Inl e, c)
      | None \<Rightarrow> enqueue_job (SnapshotStats request_id) False c)"

definition last_snapshot :: "('k, 'v) cache \<Rightarrow> cache_stats option" where
  "last_snapshot c = c_last_snapshot c"

fun tick_jobs :: "nat list \<Rightarrow> ('k, 'v) job job_queue \<Rightarrow> ('k, 'v) job job_queue" where
  "tick_jobs [] q = q"
| "tick_jobs (i # is) q = tick_jobs is (snd (jq_put (ExpireShard i) False q))"

definition tick_once :: "('k, 'v) cache \<Rightarrow> ('k, 'v) cache" where
  "tick_once c = c\<lparr>c_queue := tick_jobs [0..<sc_shard_count (c_scheduler c)] (c_queue c)\<rparr>"

definition scheduler_tick :: "('k, 'v) cache \<Rightarrow> (unit, ('k, 'v) cache) outcome" where
  "scheduler_tick c = unless_closed c (Inr (), tick_once c)"

definition alive_threads :: "('k, 'v) cache \<Rightarrow> nat" where
  "alive_threads c = length (filter id (wp_threads (c_pool c))) +
     (if sc_thread (c_scheduler c) = Some True then 1 else 0)"

section \<open>Start\<close>

definition worker_pool_start :: "worker_pool \<Rightarrow> worker_pool" where
  "worker_pool_start p =
     (if wp_started p \<or> wp_count p = 0 then p
      else p\<lparr>wp_stop_event := False, wp_started := True,
             wp_threads := wp_threads p @ replicate (nat (wp_count p)) True\<rparr>)"

definition scheduler_start :: "expiration_scheduler \<Rightarrow> expiration_scheduler" where
  "scheduler_start sc =
     (if sc_thread sc = Some True then sc else sc\<lparr>sc_stop := False, sc_thread := Some True\<rparr>)"

definition cache_start :: "('k, 'v) cache \<Rightarrow> (unit, ('k, 'v) cache) outcome" where
  "cache_start c =
     (if c_state c = STARTED then (Inr (), c)
      else if c_state c \<in> {CLOSED, CLOSING} then (Inl RuntimeError, c)
      else
        (let c1 = c\<lparr>c_pool := worker_pool_start (c_pool c)\<rparr>;
             c2 = (if cfg_active_expiration (c_config c1) \<and> 0 < cfg_worker_count (c_config c1) \<and>
                      0 < cfg_scheduler_interval (c_config c1)
                   then c1\<lparr>c_scheduler := scheduler_start (c_scheduler c1)\<rparr> else c1);
             c3 = (if c_write_mode c2 = WRITE_BACK \<and> cfg_worker_count (c_config c2) = 0
                   then c2\<lparr>c_warned := True\<rparr> else c2)
         in (Inr (), c3\<lparr>c_state := STARTED\<rparr>)))"

end
