(* ===== verification/Cache_Inv.thy ===== *)
theory Cache_Inv
  imports Cache
begin

text \<open>
  The invariant of the whole cache and its preservation by every public operation: each
  shard keeps its own invariant, a key lives only in the shard its hash selects, the
  shard capacities add up to the configured capacity, and the job queue is well formed.
\<close>

section \<open>What a section may do to its shard\<close>

text \<open>\<open>K\<close> are the keys the section may insert.\<close>

definition shard_evolves :: "'k set \<Rightarrow> ('k, 'v) shard \<Rightarrow> ('k, 'v) shard \<Rightarrow> bool" where
  "shard_evolves K sh sh' \<longleftrightarrow> shard_inv sh' \<and> sh_index sh' = sh_index sh \<and>
     sh_capacity sh' = sh_capacity sh \<and> is_lfu (sh_policy sh') = is_lfu (sh_policy sh) \<and>
     sh_live sh' \<subseteq> sh_live sh \<union> K \<and> sh_tombs sh' \<subseteq> sh_tombs sh \<union> (sh_live sh \<union> K)"

lemma evolvesI:
  assumes "shard_inv sh'" and "sh_index sh' = sh_index sh" and "sh_capacity sh' = sh_capacity sh"
    and "is_lfu (sh_policy sh') = is_lfu (sh_policy sh)" and "sh_live sh' \<subseteq> L"
    and "L \<subseteq> sh_live sh \<union> K" and "sh_tombs sh' \<subseteq> M" and "M \<subseteq> sh_tombs sh \<union> (sh_live sh \<union> K)"
  shows "shard_evolves K sh sh'"
  using assms(1-4) subset_trans [OF assms(5,6)] subset_trans [OF assms(7,8)]
  by (simp add: shard_evolves_def)

lemma evolves_refl: "shard_inv sh \<Longrightarrow> shard_evolves K sh sh"
  by (simp add: shard_evolves_def)

lemma evolves_trans:
  assumes "shard_evolves K sh sh'" and "shard_evolves K sh' sh''"
  shows "shard_evolves K sh sh''"
proof -
  let ?L = "sh_live sh \<union> K"
  have live: "sh_live sh' \<subseteq> ?L" "sh_live sh'' \<subseteq> sh_live sh' \<union> K"
    and tombs: "sh_tombs sh' \<subseteq> sh_tombs sh \<union> ?L" "sh_tombs sh'' \<subseteq> sh_tombs sh' \<union> (sh_live sh' \<union> K)"
    using assms by (simp_all add: shard_evolves_def)
  from live(1) have "sh_live sh' \<union> K \<subseteq> ?L" by blast
  with tombs(1) have "sh_tombs sh' \<union> (sh_live sh' \<union> K) \<subseteq> sh_tombs sh \<union> ?L" by blast
  from evolvesI [OF _ _ _ _ live(2) \<open>sh_live sh' \<union> K \<subseteq> ?L\<close> tombs(2) this] assms show ?thesis
    by (simp add: shard_evolves_def)
qed

lemma evolves_inv: "shard_evolves K sh sh' \<Longrightarrow> shard_inv sh'"
  by (simp add: shard_evolves_def)

lemma evolves_mono: "shard_evolves K sh sh' \<Longrightarrow> K \<subseteq> K' \<Longrightarrow> shard_evolves K' sh sh'"
  by (auto simp: shard_evolves_def)

lemma evolves_irrelevant [simp]:
  "shard_evolves K sh (sh'\<lparr>sh_stats := s\<rparr>) = shard_evolves K sh sh'"
  "shard_evolves K sh (sh'\<lparr>sh_singleflight := f\<rparr>) = shard_evolves K sh sh'"
  by (simp_all add: shard_evolves_def)

lemma evolves_remove: "shard_inv sh \<Longrightarrow> shard_evolves K sh (snd (remove_entry_locked k r sh))"
  by (auto simp: shard_evolves_def inv_remove remove_marks)

lemma resolve_fields [simp]:
  "sh_backend (resolve_pending_locked k sh) = sh_backend sh"
  "sh_policy (resolve_pending_locked k sh) = sh_policy sh"
  "sh_capacity (resolve_pending_locked k sh) = sh_capacity sh"
  "sh_index (resolve_pending_locked k sh) = sh_index sh"
  "sh_stats (resolve_pending_locked k sh) = sh_stats sh"
  "sh_singleflight (resolve_pending_locked k sh) = sh_singleflight sh"
  "sh_backend (clear_pending_flushes_locked k sh) = sh_backend sh"
  "sh_policy (clear_pending_flushes_locked k sh) = sh_policy sh"
  "sh_capacity (clear_pending_flushes_locked k sh) = sh_capacity sh"
  "sh_index (clear_pending_flushes_locked k sh) = sh_index sh"
  "sh_backend (register_pending_locked k sh) = sh_backend sh"
  "sh_policy (register_pending_locked k sh) = sh_policy sh"
  "sh_capacity (register_pending_locked k sh) = sh_capacity sh"
  "sh_index (register_pending_locked k sh) = sh_index sh"
  by (simp_all add: resolve_pending_locked_def clear_pending_flushes_locked_def
      register_pending_locked_def Let_def)

lemma resolve_tombs:
  "sh_tombs (resolve_pending_locked k sh) \<subseteq> sh_tombs sh"
  "sh_tombs (clear_pending_flushes_locked k sh) \<subseteq> sh_tombs sh"
  "sh_tombstones (register_pending_locked k sh) = sh_tombstones sh"
  by (auto simp: resolve_pending_locked_def clear_pending_flushes_locked_def register_pending_locked_def Let_def
      maybe_prune_marks_locked_def)

lemma evolves_resolve: "shard_inv sh \<Longrightarrow> shard_evolves K sh (resolve_pending_locked k sh)"
  using resolve_tombs(1) [of k sh] by (simp add: shard_evolves_def inv_resolve le_supI1)

lemma evolves_clear_pending: "shard_inv sh \<Longrightarrow> shard_evolves K sh (clear_pending_flushes_locked k sh)"
  using resolve_tombs(2) [of k sh] by (simp add: shard_evolves_def inv_clear_pending le_supI1)

lemma evolves_register: "shard_inv sh \<Longrightarrow> shard_evolves K sh (register_pending_locked k sh)"
  by (simp add: shard_evolves_def inv_register resolve_tombs)

lemma evolves_read:
  assumes "shard_inv sh"
  shows "shard_evolves K sh (snd (read_value_locked t c now k sh))"
proof -
  let ?sh' = "snd (read_value_locked t c now k sh)"
  have "sh_index ?sh' = sh_index sh \<and> sh_capacity ?sh' = sh_capacity sh \<and>
      is_lfu (sh_policy ?sh') = is_lfu (sh_policy sh)"
    by (simp add: read_value_locked_def Let_def split: option.splits)
  moreover have "sh_tombs ?sh' \<subseteq> sh_tombs sh"
    by (auto simp: read_value_locked_def Let_def remove_marks split: option.splits if_splits)
  moreover have "sh_live ?sh' \<subseteq> sh_live sh"
    using inv_entry_key [OF assms, of k]
    by (auto simp: read_value_locked_def mem_get_entry_def mem_put_entry_def Let_def
        dest: dict_get_in_keys split: option.splits)
  ultimately show ?thesis using inv_read [OF assms] by (auto simp: shard_evolves_def)
qed

lemma evolves_expire_keys: "shard_inv sh \<Longrightarrow> shard_evolves K sh (snd (expire_keys_locked ks sh n))"
proof (induction ks arbitrary: sh n)
  case Nil
  then show ?case by (simp add: evolves_refl)
next
  case (Cons k ks)
  have step: "shard_evolves K sh (snd (remove_entry_locked k ''expire'' sh))"
    using Cons.prems by (rule evolves_remove)
  from evolves_trans [OF step Cons.IH [OF evolves_inv [OF step]]] show ?case
    by (simp add: case_prod_beta)
qed

lemma evolves_expire: "shard_inv sh \<Longrightarrow> shard_evolves K sh (snd (expire_shard_locked now sh))"
  by (simp add: expire_shard_locked_def evolves_expire_keys)

lemma evolves_inspect: "shard_inv sh \<Longrightarrow> shard_evolves K sh (snd (inspect_locked now k sh))"
  by (auto simp: inspect_locked_def evolves_remove evolves_refl split: option.splits)

lemma evolves_dump: "shard_inv sh \<Longrightarrow> shard_evolves K sh (snd (dump_entries_locked now es snaps sh))"
proof (induction now es snaps sh rule: dump_entries_locked.induct)
  case (1 now snaps sh)
  then show ?case by (simp add: evolves_refl)
next
  case (2 now e es snaps sh)
  have step: "shard_evolves K sh (snd (remove_entry_locked (ce_key e) ''expire'' sh))"
    using "2.prems" by (rule evolves_remove)
  show ?case
    using 2 evolves_trans [OF step] evolves_inv [OF step] by auto
qed

lemma evolves_mark_clean: "shard_inv sh \<Longrightarrow> shard_evolves K sh (mark_clean_locked k v sh)"
  using inv_mark_clean [of sh k v] inv_entry_key [of sh k]
  by (auto simp: shard_evolves_def mark_clean_locked_def mem_get_entry_def mem_put_entry_def
      dest: dict_get_in_keys split: option.splits)

lemma evolves_restore: "shard_inv sh \<Longrightarrow> shard_evolves K sh (restore_hit_count_locked k n sh)"
  using inv_restore [of sh k n] inv_entry_key [of sh k]
  by (auto simp: shard_evolves_def restore_hit_count_locked_def mem_get_entry_def mem_put_entry_def
      dest: dict_get_in_keys split: option.splits)

lemma evolves_put_existing: "shard_inv sh \<Longrightarrow> shard_evolves K sh (snd (put_existing now k sh))"
  by (auto simp: put_existing_def evolves_remove evolves_refl split: option.splits)

lemma evolves_put_store:
  "shard_inv sh \<Longrightarrow> k \<in> K \<Longrightarrow> shard_evolves K sh (snd (put_store m d now k v ttl ex sh))"
  by (rule evolvesI [OF put_store_inv _ _ _ put_store_pending(5) _ put_store_pending(6)]) auto

lemma evolves_put:
  assumes "shard_inv sh" and "k \<in> K"
  shows "shard_evolves K sh (snd (snd (put_locked m d n now k v ttl s sh)))"
proof -
  obtain ex sh0 where e: "put_existing now k sh = (ex, sh0)" by fastforce
  have e0: "shard_evolves K sh sh0" using evolves_put_existing [OF assms(1), of K now k] e by simp
  have e1: "shard_evolves K sh0 (snd (put_store m d now k v ttl ex sh0))"
    using evolves_inv [OF e0] assms(2) by (rule evolves_put_store)
  have e2: "shard_evolves K (snd (put_store m d now k v ttl ex sh0))
      (register_pending_locked k (snd (put_store m d now k v ttl ex sh0)))"
    using evolves_inv [OF e1] by (rule evolves_register)
  show ?thesis
    using e e0 evolves_trans [OF e0 e1] evolves_trans [OF evolves_trans [OF e0 e1] e2]
    by (auto simp: put_locked_def case_prod_beta split: sum.splits)
qed

lemma evolves_delete_entry: "shard_inv sh \<Longrightarrow> shard_evolves K sh (snd (delete_entry_locked k sh))"
  by (auto simp: shard_evolves_def delete_entry_inv)

lemma evolves_tombstone_delete:
  "shard_inv sh \<Longrightarrow> k \<in> sh_live sh \<union> K \<Longrightarrow>
     shard_evolves K sh (snd (delete_entry_locked k (snd (tombstone_locked retries k sh))))"
  by (simp add: shard_evolves_def tombstone_delete_inv) (auto simp: tombstone_eq Let_def)

lemma evolves_delete:
  assumes "shard_inv sh" and "k \<in> K"
  shows "shard_evolves K sh (snd (snd (delete_locked m n k s sh)))"
  using assms evolves_delete_entry [OF assms(1), of K k] evolves_tombstone_delete [OF assms(1), of k K n]
  by (auto simp: delete_locked_def Let_def case_prod_beta evolves_refl split: sum.splits)

lemma clear_keys_fields:
  assumes "clear_keys_locked m n ks js s sh = (r, s', sh')"
  shows "sh_index sh' = sh_index sh \<and> sh_capacity sh' = sh_capacity sh \<and>
    is_lfu (sh_policy sh') = is_lfu (sh_policy sh) \<and> sh_live sh' \<subseteq> sh_live sh \<and>
    sh_tombs sh' \<subseteq> sh_tombs sh \<union> set ks"
  using assms
proof (induction ks arbitrary: js s sh)
  case (Cons k ks)
  from Cons.prems show ?case
  proof (cases rule: clear_keys_cases)
    case (round js1 s1 sh1)
    note F = clear_round_fields [OF round(1)] and IH = Cons.IH [OF round(2)]
    have "sh_live sh1 \<subseteq> sh_live sh" by (simp add: F(1))
    with IH have live: "sh_live sh' \<subseteq> sh_live sh" by (elim conjE) (rule subset_trans)
    have "sh_tombs sh1 \<subseteq> insert k (sh_tombs sh)"
      using round(1) by (auto simp: clear_round_def tombstone_eq Let_def split: if_splits)
    then have "sh_tombs sh1 \<union> set ks \<subseteq> sh_tombs sh \<union> set (k # ks)" by auto
    with IH have "sh_tombs sh' \<subseteq> sh_tombs sh \<union> set (k # ks)" by (elim conjE) (rule subset_trans)
    with live IH F(2-4) show ?thesis by metis
  qed auto
qed simp

lemma evolves_clear:
  assumes "shard_inv sh"
  shows "shard_evolves K sh (snd (snd (clear_locked m n js s sh)))"
proof -
  obtain r1 s1 sh1 where c: "clear_keys_locked m n (mem_keys (sh_backend sh)) js s sh = (r1, s1, sh1)"
    by (metis prod_cases3)
  obtain r s' sh' where l: "clear_locked m n js s sh = (r, s', sh')" by (metis prod_cases3)
  have same: "sh_index sh' = sh_index sh1" "sh_capacity sh' = sh_capacity sh1"
      "is_lfu (sh_policy sh') = is_lfu (sh_policy sh1)" "sh_live sh' = sh_live sh1" "sh_tombs sh' = sh_tombs sh1"
    using c l by (auto simp: clear_locked_def split: sum.splits)
  note f = clear_keys_fields [OF c]
  have "shard_evolves K sh sh'"
    by (rule evolvesI [where L = "sh_live sh1" and M = "sh_tombs sh1", OF clear_locked_inv(1) [OF assms l]])
       (use f same in \<open>simp_all add: le_supI1 mem_keys_def\<close>, blast)
  then show ?thesis using l by simp
qed

section \<open>The cache invariant\<close>

definition shard_at :: "('k \<Rightarrow> nat) \<Rightarrow> cache_config \<Rightarrow> nat \<Rightarrow> nat \<Rightarrow> ('k, 'v) shard \<Rightarrow> bool" where
  "shard_at h cfg n i sh \<longleftrightarrow> shard_inv sh \<and> sh_index sh = i \<and> (\<forall>k \<in> sh_live sh \<union> sh_tombs sh. h k mod n = i) \<and>
     is_lfu (sh_policy sh) = (str_lower (cfg_policy cfg) = ''lfu'') \<and>
     sh_capacity sh = nat (shard_capacities (cfg_capacity cfg) (cfg_shard_count cfg) ! i)"

definition cache_inv :: "('k \<Rightarrow> nat) \<Rightarrow> ('k, 'v) cache \<Rightarrow> bool" where
  "cache_inv h c \<longleftrightarrow> config_valid (c_config c) \<and>
     parse_write_mode (cfg_write_mode (c_config c)) = Inr (c_write_mode c) \<and>
     int (length (c_shards c)) = cfg_shard_count (c_config c) \<and>
     sum_list (map (\<lambda>sh. int (sh_capacity sh)) (c_shards c)) = cfg_capacity (c_config c) \<and>
     jq_inv (c_queue c) \<and> jq_maxsize (c_queue c) = cfg_queue_size (c_config c) \<and>
     sc_shard_count (c_scheduler c) = length (c_shards c) \<and>
     (\<forall>i < length (c_shards c). shard_at h (c_config c) (length (c_shards c)) i (c_shards c ! i))"

lemma cache_inv_shard: "cache_inv h c \<Longrightarrow> i < length (c_shards c) \<Longrightarrow> shard_inv (c_shards c ! i)"
  by (simp add: cache_inv_def shard_at_def)

lemma cache_inv_index: "cache_inv h c \<Longrightarrow> i < length (c_shards c) \<Longrightarrow> sh_index (c_shards c ! i) = i"
  by (simp add: cache_inv_def shard_at_def)

lemma cache_inv_capacity:
  "cache_inv h c \<Longrightarrow> i < length (c_shards c) \<Longrightarrow>
     sh_capacity (c_shards c ! i) = nat (shard_capacities (cfg_capacity (c_config c)) (cfg_shard_count (c_config c)) ! i)"
  by (simp add: cache_inv_def shard_at_def)

lemma cache_inv_nonempty: "cache_inv h c \<Longrightarrow> 0 < length (c_shards c)"
  by (auto simp: cache_inv_def config_valid_def)

lemma shard_for_less: "cache_inv h c \<Longrightarrow> shard_for h c k < length (c_shards c)"
  using cache_inv_nonempty [of h c] by (simp add: shard_for_def)

lemma set_shard_fields [simp]:
  "c_config (set_shard i sh c) = c_config c"
  "c_clock (set_shard i sh c) = c_clock c"
  "c_write_mode (set_shard i sh c) = c_write_mode c"
  "c_source (set_shard i sh c) = c_source c"
  "c_shards (set_shard i sh c) = (c_shards c)[i := sh]"
  "c_queue (set_shard i sh c) = c_queue c"
  "c_runtime (set_shard i sh c) = c_runtime c"
  "c_state (set_shard i sh c) = c_state c"
  "c_warned (set_shard i sh c) = c_warned c"
  "c_pool (set_shard i sh c) = c_pool c"
  "c_scheduler (set_shard i sh c) = c_scheduler c"
  "c_flights (set_shard i sh c) = c_flights c"
  "c_last_snapshot (set_shard i sh c) = c_last_snapshot c"
  by (simp_all add: set_shard_def)

lemma shard_for_set [simp]: "shard_for h (set_shard i sh c) k = shard_for h c k"
  by (simp add: shard_for_def)

lemma cache_inv_set_shard:
  assumes inv: "cache_inv h c" and i: "i < length (c_shards c)"
    and ev: "shard_evolves {k. shard_for h c k = i} (c_shards c ! i) sh'"
  shows "cache_inv h (set_shard i sh' c)"
proof -
  let ?n = "length (c_shards c)"
  have at: "shard_at h (c_config c) ?n i (c_shards c ! i)" using inv i by (simp add: cache_inv_def)
  have "h k mod ?n = i" if "k \<in> sh_live sh' \<union> sh_tombs sh'" for k
  proof -
    have "k \<in> sh_live (c_shards c ! i) \<union> sh_tombs (c_shards c ! i) \<union> {k. shard_for h c k = i}"
      using ev that unfolding shard_evolves_def by blast
    then show ?thesis using at by (auto simp: shard_at_def shard_for_def)
  qed
  then have "shard_at h (c_config c) ?n i sh'"
    using at ev by (simp add: shard_at_def shard_evolves_def)
  moreover have "map (\<lambda>sh. int (sh_capacity sh)) ((c_shards c)[i := sh']) =
      map (\<lambda>sh. int (sh_capacity sh)) (c_shards c)"
    using ev i by (simp add: map_update shard_evolves_def list_update_same_conv)
  ultimately show ?thesis using inv i by (auto simp: cache_inv_def nth_list_update)
qed

lemma cache_inv_irrelevant [simp]:
  "cache_inv h (c\<lparr>c_source := s\<rparr>) = cache_inv h c"
  "cache_inv h (c\<lparr>c_clock := cl\<rparr>) = cache_inv h c"
  "cache_inv h (c\<lparr>c_runtime := r\<rparr>) = cache_inv h c"
  "cache_inv h (c\<lparr>c_state := st\<rparr>) = cache_inv h c"
  "cache_inv h (c\<lparr>c_warned := w\<rparr>) = cache_inv h c"
  "cache_inv h (c\<lparr>c_pool := p\<rparr>) = cache_inv h c"
  "cache_inv h (c\<lparr>c_flights := f\<rparr>) = cache_inv h c"
  "cache_inv h (c\<lparr>c_last_snapshot := l\<rparr>) = cache_inv h c"
  by (simp_all add: cache_inv_def)

lemma cache_inv_queue:
  "cache_inv h c \<Longrightarrow> jq_inv q \<Longrightarrow> jq_maxsize q = jq_maxsize (c_queue c) \<Longrightarrow>
     cache_inv h (c\<lparr>c_queue := q\<rparr>)"
  by (simp add: cache_inv_def)

lemma cache_inv_warn: "cache_inv h c \<Longrightarrow> cache_inv h (maybe_warn_cache_not_started c)"
  by (simp add: maybe_warn_cache_not_started_def)

section \<open>Construction establishes the invariant\<close>

lemma shard_capacities_length: "length (shard_capacities t n) = nat n"
  by (simp add: shard_capacities_def Let_def)

lemma sum_first_ones:
  "sum_list (map (\<lambda>i. b + (if int i < r then 1 else 0)) [0..<n]) = int n * b + min (int n) (max 0 r)"
  by (induction n) (auto simp: algebra_simps)

lemma shard_capacities_sum:
  assumes "1 \<le> n"
  shows "sum_list (shard_capacities t n) = t"
proof -
  have "0 \<le> t mod n" "t mod n < n" using assms by simp_all
  then have "sum_list (shard_capacities t n) = n * (t div n) + t mod n"
    using assms by (simp add: shard_capacities_def Let_def sum_first_ones)
  then show ?thesis by simp
qed

lemma shard_capacities_balanced:
  assumes "x \<in> set (shard_capacities t n)"
  shows "t div n \<le> x \<and> x \<le> t div n + 1"
  using assms by (auto simp: shard_capacities_def Let_def)

lemma shard_capacities_positive:
  assumes "1 \<le> n" and "n \<le> t" and "x \<in> set (shard_capacities t n)"
  shows "1 \<le> x"
proof -
  have "1 \<le> t div n" using assms(1,2) by (metis div_self less_le_not_le zdiv_mono1 zero_less_one linorder_not_less order_less_le_trans)
  then show ?thesis using shard_capacities_balanced [OF assms(3)] by simp
qed

lemma make_shards_ok:
  assumes "cfg_backend cfg = ''memory''" and "make_policy (cfg_policy cfg) = Inr p"
  shows "make_shards cfg i caps =
    Inr (map (\<lambda>j. shard_init (i + j) (nat (caps ! j)) p) [0..<length caps])"
proof (induction caps arbitrary: i)
  case Nil
  then show ?case by simp
next
  case (Cons x caps)
  have "[0..<length (x # caps)] = 0 # map Suc [0..<length caps]"
    by (simp add: map_Suc_upt upt_conv_Cons del: upt_Suc)
  then show ?case using assms Cons by (simp add: make_backend_def shard_init_def o_def)
qed

lemma make_shards_fresh:
  "make_shards cfg i caps = Inr xs \<Longrightarrow> sh \<in> set xs \<Longrightarrow>
     sh_backend sh = [] \<and> sh_pending_flushes sh = [] \<and> sh_version_marks sh = [] \<and> sh_tombstones sh = [] \<and>
     sh_singleflight sh = []"
  by (induction caps arbitrary: i xs)
     (auto simp: make_backend_def shard_init_def split: sum.splits if_splits)

lemma sum_list_map_nth: "map (\<lambda>j. f (xs ! j)) [0..<length xs] = map f xs"
  by (rule nth_equalityI) simp_all

lemma init_config_valid:
  "init_config config a = Inr cfg \<Longrightarrow> (\<And>c. config = Some c \<Longrightarrow> config_valid c) \<Longrightarrow> config_valid cfg"
  by (auto simp: init_config_def config_post_init_iff split: option.splits if_splits)

lemma make_policy_is_lfu: "make_policy name = Inr p \<Longrightarrow> is_lfu p = (str_lower name = ''lfu'')"
  by (auto simp: make_policy_def Let_def split: if_splits)

lemma cache_init_inv:
  assumes init: "cache_init config a source clock = Inr c"
    and valid: "\<And>cfg. config = Some cfg \<Longrightarrow> config_valid cfg"
  shows "cache_inv h (c :: ('k, 'v) cache)"
proof -
  obtain cfg mode shards where cfg: "init_config config a = Inr cfg"
    and mode: "parse_write_mode (cfg_write_mode cfg) = Inr mode"
    and shards: "make_shards cfg 0 (shard_capacities (cfg_capacity cfg) (cfg_shard_count cfg)) =
      Inr (shards :: ('k, 'v) shard list)"
    and c: "c_config c = cfg" "c_write_mode c = mode" "c_shards c = shards"
      "c_queue c = jq_init (cfg_queue_size cfg)" "sc_shard_count (c_scheduler c) = length shards"
    using init by (auto simp: cache_init_def split: sum.splits)
  have v: "config_valid cfg" using init_config_valid [OF cfg] valid by blast
  let ?caps = "shard_capacities (cfg_capacity cfg) (cfg_shard_count cfg)"
  obtain p :: "'k policy" where p: "make_policy (cfg_policy cfg) = Inr p"
    using v make_policy_total [of "cfg_policy cfg"] by (auto simp: config_valid_def)
  have sh: "shards = map (\<lambda>j. shard_init j (nat (?caps ! j)) p) [0..<length ?caps]"
  proof -
    have "cfg_backend cfg = ''memory''" using v by (simp add: config_valid_def)
    from make_shards_ok [OF this p, of 0 ?caps]
    have "make_shards cfg 0 ?caps =
        Inr (map (\<lambda>j. shard_init j (nat (?caps ! j)) p :: ('k, 'v) shard) [0..<length ?caps])" by simp
    with shards show ?thesis by simp
  qed
  have pos: "1 \<le> ?caps ! j" if "j < length ?caps" for j
    using shard_capacities_positive [of "cfg_shard_count cfg" "cfg_capacity cfg"] v that
    by (simp add: config_valid_def)
  have "map (\<lambda>s. int (sh_capacity s)) shards = map (\<lambda>j. ?caps ! j) [0..<length ?caps]"
    unfolding sh using pos by (fastforce simp: shard_init_def)
  then have "sum_list (map (\<lambda>s. int (sh_capacity s)) shards) = cfg_capacity cfg"
    using v by (simp add: map_nth shard_capacities_sum config_valid_def)
  moreover have "shard_at h cfg (length shards) i (shards ! i)" if "i < length shards" for i
  proof -
    have "shard_inv (shard_init i (nat (?caps ! i)) p :: ('k, 'v) shard)"
      using that sh pos [of i] make_policy_ok [OF p] by (intro shard_init_inv) auto
    then show ?thesis
      using that sh make_policy_is_lfu [OF p] by (simp add: shard_at_def) (simp add: shard_init_def)
  qed
  moreover have "int (length shards) = cfg_shard_count cfg"
    using sh v by (simp add: shard_capacities_length config_valid_def)
  ultimately show ?thesis
    using c v mode by (simp add: cache_inv_def jq_inv_def jq_init_def config_valid_def)
qed

text \<open>A validated configuration always builds a cache.\<close>

lemma cache_init_total:
  assumes "init_config config a = Inr cfg" and "config_valid cfg"
  shows "\<exists>c :: ('k, 'v) cache. cache_init config a source clock = Inr c \<and> c_config c = cfg \<and> c_clock c = clock"
proof -
  obtain p :: "'k policy" where p: "make_policy (cfg_policy cfg) = Inr p"
    using assms(2) make_policy_total [of "cfg_policy cfg"] by (auto simp: config_valid_def)
  have "cfg_backend cfg = ''memory''" using assms(2) by (simp add: config_valid_def)
  from make_shards_ok [OF this p] obtain shards :: "('k, 'v) shard list"
    where shards: "make_shards cfg 0 (shard_capacities (cfg_capacity cfg) (cfg_shard_count cfg)) = Inr shards" by blast
  obtain m where "parse_write_mode (cfg_write_mode cfg) = Inr m" using assms(2) by (auto simp: config_valid_def)
  with assms(1) shards show ?thesis by (simp add: cache_init_def)
qed

end
