(* ===== verification/Cache_Ops.thy ===== *)
theory Cache_Ops
  imports Cache_Inv
begin

text \<open>
  Every public operation of the cache keeps the cache invariant, on its normal and on
  its error paths; histories of operations; and what the operations return.
\<close>

section \<open>Sections\<close>

lemma on_shard_inv:
  assumes "cache_inv h c" and "i < length (c_shards c)"
    and "\<And>sh. shard_inv sh \<Longrightarrow> shard_evolves {k. shard_for h c k = i} sh (snd (f sh))"
  shows "cache_inv h (snd (on_shard i f c))"
  using cache_inv_set_shard [OF assms(1,2)] assms(3) [OF cache_inv_shard [OF assms(1,2)]]
  by (simp add: on_shard_def case_prod_beta)

lemma on_shard_source_inv:
  assumes "cache_inv h c" and "i < length (c_shards c)"
    and "\<And>sh. shard_inv sh \<Longrightarrow> shard_evolves {k. shard_for h c k = i} sh (snd (snd (f (c_source c) sh)))"
  shows "cache_inv h (snd (on_shard_source i f c))"
  using cache_inv_set_shard [OF assms(1,2)] assms(3) [OF cache_inv_shard [OF assms(1,2)]]
  by (simp add: on_shard_source_def case_prod_beta)

lemma put_section_inv: "cache_inv h c \<Longrightarrow> cache_inv h (snd (put_section h k v ttl c))"
  unfolding put_section_def
  by (rule on_shard_source_inv) (simp_all add: shard_for_less evolves_put)

lemma delete_section_inv: "cache_inv h c \<Longrightarrow> cache_inv h (snd (delete_section h k c))"
  unfolding delete_section_def
  by (rule on_shard_source_inv) (simp_all add: shard_for_less evolves_delete)

lemma clear_section_inv:
  "cache_inv h c \<Longrightarrow> i < length (c_shards c) \<Longrightarrow> cache_inv h (snd (clear_section i jobs c))"
  unfolding clear_section_def
  by (rule on_shard_source_inv) (simp_all add: evolves_clear)

lemma read_section_inv: "cache_inv h c \<Longrightarrow> cache_inv h (snd (read_section h t k c))"
  unfolding read_section_def
  by (rule on_shard_inv) (simp_all add: shard_for_less evolves_read)

lemma expire_shard_inv: "cache_inv h c \<Longrightarrow> i < length (c_shards c) \<Longrightarrow> cache_inv h (snd (expire_shard i c))"
  unfolding expire_shard_def
  by (rule on_shard_inv) (simp_all add: evolves_expire)

section \<open>Shape\<close>

text \<open>What no operation changes.\<close>

definition same_shape :: "('k, 'v) cache \<Rightarrow> ('k, 'v) cache \<Rightarrow> bool" where
  "same_shape c c' \<longleftrightarrow> c_config c' = c_config c \<and> c_write_mode c' = c_write_mode c \<and>
     length (c_shards c') = length (c_shards c)"

lemma same_shape_refl [simp]: "same_shape c c"
  by (simp add: same_shape_def)

lemma same_shape_trans: "same_shape c c' \<Longrightarrow> same_shape c' c'' \<Longrightarrow> same_shape c c''"
  by (simp add: same_shape_def)

lemma shape_length: "same_shape c c' \<Longrightarrow> length (c_shards c') = length (c_shards c)"
  by (simp add: same_shape_def)

lemma on_shard_shape [simp]:
  "same_shape c (snd (on_shard i f c))" "same_shape c (snd (on_shard_source i g c))"
  "same_shape c (set_shard i sh c)"
  by (simp_all add: same_shape_def on_shard_def on_shard_source_def case_prod_beta)

lemma section_shape [simp]:
  "same_shape c (snd (put_section h k v ttl c))" "same_shape c (snd (delete_section h k c))"
  "same_shape c (snd (clear_section i jobs c))" "same_shape c (snd (read_section h t k c))"
  "same_shape c (snd (expire_shard i c))"
  by (simp_all add: put_section_def delete_section_def clear_section_def read_section_def
      expire_shard_def)

section \<open>Fields the sections leave alone\<close>

lemma on_shard_fields [simp]:
  "c_source (snd (on_shard i f c)) = c_source c" "c_queue (snd (on_shard i f c)) = c_queue c"
  "c_queue (snd (on_shard_source i g c)) = c_queue c"
  "c_write_mode (snd (on_shard i f c)) = c_write_mode c"
  "c_write_mode (snd (on_shard_source i g c)) = c_write_mode c"
  by (simp_all add: on_shard_def on_shard_source_def case_prod_beta)

lemma warn_fields [simp]:
  "c_source (maybe_warn_cache_not_started c) = c_source c"
  "c_queue (maybe_warn_cache_not_started c) = c_queue c"
  "c_write_mode (maybe_warn_cache_not_started c) = c_write_mode c"
  "c_shards (maybe_warn_cache_not_started c) = c_shards c"
  "c_config (maybe_warn_cache_not_started c) = c_config c"
  "c_state (maybe_warn_cache_not_started c) = c_state c"
  "c_clock (maybe_warn_cache_not_started c) = c_clock c"
  by (simp_all add: maybe_warn_cache_not_started_def)

section \<open>Enqueueing\<close>

lemma enqueue_job_eq:
  "enqueue_job job critical c =
     (if jq_full (c_queue c) then (if critical then Inl QueueBackpressureError else Inr False)
      else Inr True,
      c\<lparr>c_queue := snd (jq_put job critical (c_queue c))\<rparr>)"
  by (simp add: enqueue_job_def case_prod_beta Let_def jq_put_accepts_iff)

lemma enqueue_job_inv:
  "cache_inv h c \<Longrightarrow> cache_inv h (snd (enqueue_job job critical c))"
  using jq.inv_put [of "c_queue c" job critical]
  by (simp add: enqueue_job_eq cache_inv_queue cache_inv_def [of h c] del: jq_put_fields(2-4))

lemma enqueue_job_shape [simp]: "same_shape c (snd (enqueue_job job critical c))"
  by (simp add: enqueue_job_eq same_shape_def)

lemma enqueue_job_fields [simp]:
  "c_source (snd (enqueue_job j b c)) = c_source c"
  "c_write_mode (snd (enqueue_job j b c)) = c_write_mode c"
  "c_shards (snd (enqueue_job j b c)) = c_shards c"
  "jq_items (c_queue (snd (enqueue_job j b c))) =
     (if jq_full (c_queue c) then jq_items (c_queue c) else jq_items (c_queue c) @ [j])"
  by (simp_all add: enqueue_job_eq)

lemma resolve_pending_inv:
  "cache_inv h c \<Longrightarrow> i < length (c_shards c) \<Longrightarrow> cache_inv h (resolve_pending i k c)"
  unfolding resolve_pending_def
  by (intro cache_inv_set_shard evolves_resolve) (simp_all add: cache_inv_shard)

lemma resolve_pending_shape [simp]: "same_shape c (resolve_pending i k c)"
  by (simp add: resolve_pending_def)

lemma release_jobs_inv:
  "cache_inv h c \<Longrightarrow> \<forall>j \<in> set js. fj_shard_index j < length (c_shards c) \<Longrightarrow>
     cache_inv h (release_jobs js c) \<and> same_shape c (release_jobs js c)"
proof (induction js arbitrary: c)
  case (Cons j js)
  let ?c1 = "resolve_pending (fj_shard_index j) (fj_key j) c"
  have "cache_inv h ?c1" using Cons.prems by (simp add: resolve_pending_inv)
  moreover have "length (c_shards ?c1) = length (c_shards c)" by (simp add: resolve_pending_def)
  ultimately have "cache_inv h (release_jobs js ?c1) \<and> same_shape ?c1 (release_jobs js ?c1)"
    using Cons.IH Cons.prems by simp
  then show ?case using same_shape_trans [OF resolve_pending_shape] by auto
qed simp

lemma enqueue_flush_jobs_inv:
  "cache_inv h c \<Longrightarrow> \<forall>j \<in> set js. fj_shard_index j < length (c_shards c) \<Longrightarrow>
     cache_inv h (snd (enqueue_flush_jobs js c)) \<and> same_shape c (snd (enqueue_flush_jobs js c))"
proof (induction js arbitrary: c)
  case (Cons j js)
  let ?c1 = "snd (enqueue_job (FlushWriteBack j) True c)"
  have inv1: "cache_inv h ?c1" using Cons.prems by (simp add: enqueue_job_inv)
  have sh1: "same_shape c ?c1" by simp
  have ok: "\<forall>j \<in> set (j # js). fj_shard_index j < length (c_shards ?c1)"
    using Cons.prems(2) by (simp only: shape_length [OF sh1])
  note R = release_jobs_inv [OF inv1 ok]
  have "cache_inv h (snd (enqueue_flush_jobs js ?c1)) \<and> same_shape ?c1 (snd (enqueue_flush_jobs js ?c1))"
    using Cons.IH [OF inv1] ok by simp
  with R show ?case
    using same_shape_trans [OF sh1] by (auto simp: case_prod_beta simp del: release_jobs.simps split: sum.splits)
qed simp

section \<open>Jobs made by the sections\<close>

lemma put_section_job:
  assumes "cache_inv h c" and "put_section h k v ttl c = (Inr (Some j), c')"
  shows "fj_key j = k" and "fj_shard_index j = shard_for h c k" and "fj_shard_index j < length (c_shards c)"
proof -
  obtain ex sh0 where "put_existing (cache_now c) k (c_shards c ! shard_for h c k) = (ex, sh0)" by fastforce
  then show "fj_key j = k" and i: "fj_shard_index j = shard_for h c k"
    using assms(2) cache_inv_index [OF assms(1) shard_for_less [OF assms(1), of k]]
    by (auto simp: put_section_def on_shard_source_def put_locked_def flush_put_job_def
        split: prod.splits sum.splits if_splits)
  show "fj_shard_index j < length (c_shards c)" using i shard_for_less [OF assms(1)] by simp
qed

lemma delete_section_job:
  assumes "cache_inv h c" and "delete_section h k c = (Inr (b, Some j), c')"
  shows "fj_key j = k" and "fj_shard_index j = shard_for h c k" and "fj_shard_index j < length (c_shards c)"
proof -
  show "fj_key j = k" and i: "fj_shard_index j = shard_for h c k"
    using assms(2) cache_inv_index [OF assms(1) shard_for_less [OF assms(1), of k]]
    by (auto simp: delete_section_def on_shard_source_def delete_locked_def tombstone_eq Let_def
        flush_delete_job_def split: prod.splits sum.splits if_splits)
  show "fj_shard_index j < length (c_shards c)" using i shard_for_less [OF assms(1)] by simp
qed

lemma clear_keys_jobs:
  assumes "clear_keys_locked m n ks js s sh = (Inr js', s', sh')"
  shows "\<forall>j \<in> set js'. j \<in> set js \<or> fj_shard_index j = sh_index sh"
  using assms
proof (induction ks arbitrary: js s sh)
  case (Cons k ks)
  from Cons.prems show ?case
  proof (cases rule: clear_keys_cases)
    case (round js1 s1 sh1)
    have "set js1 \<subseteq> insert (fst (tombstone_locked n k sh)) (set js)"
      using round(1) by (auto simp: clear_round_def split: if_splits)
    moreover have "fj_shard_index (fst (tombstone_locked n k sh)) = sh_index sh"
      by (simp add: tombstone_eq Let_def flush_delete_job_def)
    ultimately show ?thesis
      using Cons.IH [OF round(2)] clear_round_fields(2) [OF round(1)] by auto
  qed simp
qed simp

lemma clear_section_jobs:
  assumes "cache_inv h c" and "i < length (c_shards c)" and "clear_section i js c = (Inr js', c')"
  shows "\<forall>j \<in> set js'. j \<in> set js \<or> fj_shard_index j = i"
  using assms(3) cache_inv_index [OF assms(1,2)]
  by (auto simp: clear_section_def on_shard_source_def clear_locked_def
      dest!: clear_keys_jobs split: prod.splits sum.splits)

lemma clear_shards_inv:
  assumes "cache_inv h c" and "\<forall>i \<in> set is. i < length (c_shards c)"
    and "\<forall>j \<in> set js. fj_shard_index j < length (c_shards c)"
    and "clear_shards is js c = (r, c')"
  shows "cache_inv h c' \<and> same_shape c c' \<and>
    (\<forall>js'. r = Inr js' \<longrightarrow> (\<forall>j \<in> set js'. fj_shard_index j < length (c_shards c)))"
  using assms
proof (induction "is" arbitrary: js c)
  case (Cons i "is")
  have i: "i < length (c_shards c)" using Cons.prems(2) by simp
  obtain r1 c1 where s: "clear_section i js c = (r1, c1)" by fastforce
  have inv1: "cache_inv h c1" using clear_section_inv [OF Cons.prems(1) i, of js] s by simp
  have sh1: "same_shape c c1" using section_shape(3) [of c i js] s by simp
  show ?case
  proof (cases r1)
    case (Inl e)
    with Cons.prems(4) s inv1 sh1 show ?thesis by auto
  next
    case (Inr js1)
    have "\<forall>j \<in> set js1. fj_shard_index j < length (c_shards c1)"
      using clear_section_jobs [OF Cons.prems(1) i, of js js1 c1] s Inr Cons.prems(3) i
      by (auto simp: shape_length [OF sh1])
    moreover have "clear_shards is js1 c1 = (r, c')" using Cons.prems(4) s Inr by simp
    ultimately show ?thesis
      using Cons.IH [OF inv1, of js1] Cons.prems(2) same_shape_trans [OF sh1]
      by (auto simp: shape_length [OF sh1])
  qed
qed auto

section \<open>Operations\<close>

lemma unless_closed_inv:
  "cache_inv h c \<Longrightarrow> cache_inv h (snd body) \<Longrightarrow> cache_inv h (snd (unless_closed c body))"
  by (simp add: unless_closed_def split: option.splits)

lemma get_inv: "cache_inv h c \<Longrightarrow> cache_inv h (snd (cache_get h k d c))"
  unfolding cache_get_def
  by (rule unless_closed_inv) (simp_all add: case_prod_beta read_section_inv)

lemma contains_inv: "cache_inv h c \<Longrightarrow> cache_inv h (snd (cache_contains h k c))"
  unfolding cache_contains_def
  by (rule unless_closed_inv) (simp_all add: case_prod_beta read_section_inv)

lemma put_inv:
  assumes "cache_inv h c"
  shows "cache_inv h (snd (cache_put h k v ttl c))"
proof -
  let ?c1 = "maybe_warn_cache_not_started c"
  have inv1: "cache_inv h ?c1" using assms by (rule cache_inv_warn)
  obtain r c2 where s: "put_section h k v ttl ?c1 = (r, c2)" by fastforce
  have inv2: "cache_inv h c2" using put_section_inv [OF inv1, of k v ttl] s by simp
  have sh2: "same_shape ?c1 c2" using section_shape(1) [of ?c1 h k v ttl] s by simp
  have "cache_inv h (snd (enqueue_flush_jobs [j] c2))" if "r = Inr (Some j)" for j
    using enqueue_flush_jobs_inv [OF inv2, of "[j]"] put_section_job(3) [OF inv1, of k v ttl j c2] s that
    by (simp add: shape_length [OF sh2] del: enqueue_flush_jobs.simps)
  then show ?thesis
    unfolding cache_put_def using s inv1 inv2
    by (intro unless_closed_inv [OF assms])
       (auto simp: Let_def simp del: enqueue_flush_jobs.simps split: option.splits sum.splits)
qed

lemma delete_inv:
  assumes "cache_inv h c"
  shows "cache_inv h (snd (cache_delete h k c))"
proof -
  obtain r c2 where s: "delete_section h k c = (r, c2)" by fastforce
  have inv2: "cache_inv h c2" using delete_section_inv [OF assms, of k] s by simp
  have sh2: "same_shape c c2" using section_shape(2) [of c h k] s by simp
  have "cache_inv h (snd (enqueue_flush_jobs [j] c2))" if "r = Inr (b, Some j)" for b j
    using enqueue_flush_jobs_inv [OF inv2, of "[j]"] delete_section_job(3) [OF assms, of k b j c2] s that
    by (simp add: shape_length [OF sh2] del: enqueue_flush_jobs.simps)
  then show ?thesis
    unfolding cache_delete_def using s inv2
    by (intro unless_closed_inv [OF assms])
       (auto simp: case_prod_beta simp del: enqueue_flush_jobs.simps split: option.splits sum.splits)
qed

lemma clear_inv:
  assumes "cache_inv h c"
  shows "cache_inv h (snd (cache_clear c))"
proof -
  obtain r c1 where s: "clear_shards [0..<length (c_shards c)] [] c = (r, c1)" by fastforce
  have C: "cache_inv h c1 \<and> same_shape c c1 \<and>
      (\<forall>js. r = Inr js \<longrightarrow> (\<forall>j \<in> set js. fj_shard_index j < length (c_shards c)))"
    using clear_shards_inv [OF assms _ _ s] by simp
  then have "cache_inv h (snd (enqueue_flush_jobs js c1))" if "r = Inr js" for js
    using enqueue_flush_jobs_inv [of h c1 js] that by (auto simp: shape_length)
  with C s show ?thesis
    unfolding cache_clear_def by (intro unless_closed_inv [OF assms]) (auto split: sum.splits)
qed

lemma size_inv: "cache_inv h c \<Longrightarrow> cache_inv h (snd (cache_size c))"
  unfolding cache_size_def by (rule unless_closed_inv) simp_all

lemma inspect_inv: "cache_inv h c \<Longrightarrow> cache_inv h (snd (cache_inspect h k c))"
  unfolding cache_inspect_def
  by (rule unless_closed_inv, assumption, simp add: case_prod_beta, rule on_shard_inv)
     (simp_all add: shard_for_less evolves_inspect)

lemma dump_shards_inv:
  "cache_inv h c \<Longrightarrow> \<forall>i \<in> set is. i < length (c_shards c) \<Longrightarrow>
     cache_inv h (snd (dump_shards is snaps c))"
proof (induction "is" arbitrary: snaps c)
  case (Cons i "is")
  let ?f = "\<lambda>sh. dump_entries_locked (cache_now c) (mem_entries (sh_backend sh)) snaps sh"
  have "cache_inv h (snd (on_shard i ?f c))"
    using Cons.prems by (intro on_shard_inv) (simp_all add: evolves_dump)
  moreover have "length (c_shards (snd (on_shard i ?f c))) = length (c_shards c)"
    by (rule shape_length) simp
  ultimately show ?case using Cons by (simp add: case_prod_beta)
qed simp

lemma dump_inv: "cache_inv h c \<Longrightarrow> cache_inv h (snd (cache_dump limit c))"
  unfolding cache_dump_def
  by (rule unless_closed_inv) (simp_all add: case_prod_beta dump_shards_inv)

lemma expire_shards_inv:
  "cache_inv h c \<Longrightarrow> \<forall>i \<in> set is. i < length (c_shards c) \<Longrightarrow>
     cache_inv h (snd (expire_shards is n c))"
proof (induction "is" arbitrary: n c)
  case (Cons i "is")
  have "length (c_shards (snd (expire_shard i c))) = length (c_shards c)"
    by (rule shape_length) simp
  then show ?case using Cons expire_shard_inv [of h c i] by (simp add: case_prod_beta)
qed simp

lemma expire_all_inv: "cache_inv h c \<Longrightarrow> cache_inv h (snd (cache_expire_all c))"
  unfolding cache_expire_all_def
  by (rule unless_closed_inv) (simp_all add: case_prod_beta expire_shards_inv)

lemma restore_inv: "cache_inv h c \<Longrightarrow> cache_inv h (snd (restore_entry_metadata h k n c))"
  unfolding restore_entry_metadata_def
  by (rule unless_closed_inv)
     (simp_all add: Let_def cache_inv_set_shard shard_for_less evolves_restore cache_inv_shard)

lemma preload_inv: "cache_inv h c \<Longrightarrow> cache_inv h (snd (cache_preload h k l ttl c))"
  unfolding cache_preload_def
  by (rule unless_closed_inv)
     (auto simp: Let_def enqueue_job_inv cache_inv_warn split: option.splits)

lemma request_snapshot_inv: "cache_inv h c \<Longrightarrow> cache_inv h (snd (request_snapshot r c))"
  unfolding request_snapshot_def
  by (rule unless_closed_inv) (auto simp: enqueue_job_inv split: option.splits)

lemma tick_jobs_inv: "jq_inv q \<Longrightarrow> jq_inv (tick_jobs is q) \<and> jq_maxsize (tick_jobs is q) = jq_maxsize q"
  by (induction "is" arbitrary: q) (simp_all add: jq.inv_put)

lemma tick_once_inv: "cache_inv h c \<Longrightarrow> cache_inv h (tick_once c)"
  using tick_jobs_inv [of "c_queue c"] unfolding tick_once_def
  by (intro cache_inv_queue) (simp_all add: cache_inv_def)

lemma scheduler_tick_inv: "cache_inv h c \<Longrightarrow> cache_inv h (snd (scheduler_tick c))"
  unfolding scheduler_tick_def by (rule unless_closed_inv) (simp_all add: tick_once_inv)

lemma start_fields [simp]:
  "c_shards (snd (cache_start c)) = c_shards c" "c_source (snd (cache_start c)) = c_source c"
  "c_config (snd (cache_start c)) = c_config c" "c_write_mode (snd (cache_start c)) = c_write_mode c"
  "c_queue (snd (cache_start c)) = c_queue c" "c_clock (snd (cache_start c)) = c_clock c"
  "sc_shard_count (c_scheduler (snd (cache_start c))) = sc_shard_count (c_scheduler c)"
  by (simp_all add: cache_start_def scheduler_start_def Let_def)

lemma start_inv: "cache_inv h c \<Longrightarrow> cache_inv h (snd (cache_start c))"
  by (simp add: cache_inv_def)

lemmas op_invs = start_inv get_inv contains_inv put_inv delete_inv clear_inv size_inv inspect_inv dump_inv
  expire_all_inv restore_inv preload_inv request_snapshot_inv scheduler_tick_inv

end
