(* ===== verification/Flush.thy ===== *)
theory Flush
  imports Cache_Ops
begin

text \<open>
  The worker side of \<open>core/cache.py\<close> and the loop of \<open>workers/worker_pool.py\<close>: the
  handler of each kind of job, with \<open>_flush_write_back_job\<close> split where it takes and
  releases the shard lock, and one turn of a worker thread.
\<close>

section \<open>Runtime counters\<close>

text \<open>\<open>_inc_runtime\<close> names the counter by its field; an unknown name raises in the source.\<close>

definition inc_runtime :: "string \<Rightarrow> ('k, 'v) cache \<Rightarrow> ('k, 'v) cache" where
  "inc_runtime field c =
     (let r = c_runtime c in
      c\<lparr>c_runtime :=
        (if field = ''worker_jobs_completed''
         then r\<lparr>rt_worker_jobs_completed := rt_worker_jobs_completed r + 1\<rparr>
         else if field = ''worker_jobs_failed''
         then r\<lparr>rt_worker_jobs_failed := rt_worker_jobs_failed r + 1\<rparr>
         else if field = ''write_back_retries''
         then r\<lparr>rt_write_back_retries := rt_write_back_retries r + 1\<rparr>
         else if field = ''stale_write_back_jobs_skipped''
         then r\<lparr>rt_stale_write_back_jobs_skipped := rt_stale_write_back_jobs_skipped r + 1\<rparr>
         else if field = ''flush_failures''
         then r\<lparr>rt_flush_failures := rt_flush_failures r + 1\<rparr>
         else if field = ''shutdown_flush_failures''
         then r\<lparr>rt_shutdown_flush_failures := rt_shutdown_flush_failures r + 1\<rparr>
         else r)\<rparr>)"

definition record_worker_failure :: "('k, 'v) cache \<Rightarrow> ('k, 'v) cache" where
  "record_worker_failure c = inc_runtime ''worker_jobs_failed'' c"

section \<open>Flushing one job\<close>

text \<open>First section: \<open>True\<close> when the job is stale, which resolves it.\<close>

definition flush_check :: "('k, 'v) flush_job \<Rightarrow> ('k, 'v) cache \<Rightarrow> bool \<times> ('k, 'v) cache" where
  "flush_check job c =
     (let sh = c_shards c ! fj_shard_index job in
      if is_stale_write_back (sh_version_marks sh) (sh_tombstones sh) job
      then (True, resolve_pending (fj_shard_index job) (fj_key job)
                    (inc_runtime ''stale_write_back_jobs_skipped'' c))
      else (False, c))"

text \<open>The write to the source of truth, outside every lock.\<close>

definition flush_apply ::
  "('k, 'v) flush_job \<Rightarrow> ('k, 'v) cache \<Rightarrow> (unit, ('k, 'v) cache) outcome" where
  "flush_apply job c =
     (case apply_write_back job (c_source c) of (r, source) \<Rightarrow> (r, c\<lparr>c_source := source\<rparr>))"

text \<open>Last section after a successful write.\<close>

definition flush_finish :: "('k, 'v) flush_job \<Rightarrow> ('k, 'v) cache \<Rightarrow> ('k, 'v) cache" where
  "flush_finish job c =
     (let i = fj_shard_index job;
          sh = c_shards c ! i;
          sh1 = (if fj_operation job = ''put'' then mark_clean_locked (fj_key job) (fj_version job) sh
                 else sh)
      in set_shard i (resolve_pending_locked (fj_key job) sh1) c)"

text \<open>After a failed write: a retry while one is left and the queue takes it.\<close>

definition retry_job :: "('k, 'v) flush_job \<Rightarrow> ('k, 'v) flush_job" where
  "retry_job job = job\<lparr>fj_retries_left := fj_retries_left job - 1, fj_attempt := fj_attempt job + 1\<rparr>"

definition flush_give_up :: "('k, 'v) flush_job \<Rightarrow> ('k, 'v) cache \<Rightarrow> ('k, 'v) cache" where
  "flush_give_up job c =
     resolve_pending (fj_shard_index job) (fj_key job) (inc_runtime ''flush_failures'' c)"

definition flush_failed :: "('k, 'v) flush_job \<Rightarrow> ('k, 'v) cache \<Rightarrow> bool \<times> ('k, 'v) cache" where
  "flush_failed job c =
     (if 0 < fj_retries_left job
      then (let c1 = inc_runtime ''write_back_retries'' c;
                c2 = c1\<lparr>c_clock := clock_sleep (cfg_write_back_retry_delay (c_config c1)) (c_clock c1)\<rparr>
            in case enqueue_job (FlushWriteBack (retry_job job)) True c2 of
                 (Inl e, c3) \<Rightarrow> (False, flush_give_up job c3)
               | (Inr ok, c3) \<Rightarrow> (True, c3))
      else (False, flush_give_up job c))"

definition flush_write_back_job :: "('k, 'v) flush_job \<Rightarrow> ('k, 'v) cache \<Rightarrow> bool \<times> ('k, 'v) cache" where
  "flush_write_back_job job c =
     (case flush_check job c of
        (True, c1) \<Rightarrow> (True, c1)
      | (False, c1) \<Rightarrow>
          (case flush_apply job c1 of
             (Inl e, c2) \<Rightarrow> flush_failed job c2
           | (Inr u, c2) \<Rightarrow> (True, flush_finish job c2)))"

section \<open>The handler and the worker loop\<close>

definition preload_ttl :: "('k, 'v) preload_job \<Rightarrow> ttl_arg" where
  "preload_ttl job =
     (if \<not> pj_ttl_supplied job then TTL_UNSET
      else case pj_ttl job of None \<Rightarrow> TTL_NONE | Some t \<Rightarrow> TTL_SECONDS t)"

definition handle_job ::
  "('k \<Rightarrow> nat) \<Rightarrow> ('k, 'v) job \<Rightarrow> ('k, 'v) cache \<Rightarrow> (unit, ('k, 'v) cache) outcome" where
  "handle_job h job c =
     (case job of
        ExpireShard i \<Rightarrow>
          if i < length (c_shards c)
          then (Inr (), inc_runtime ''worker_jobs_completed'' (snd (expire_shard i c)))
          else (Inl IndexError, c)
      | FlushWriteBack j \<Rightarrow>
          if fj_shard_index j < length (c_shards c)
          then (case flush_write_back_job j c of (completed, c1) \<Rightarrow>
                  (Inr (), inc_runtime (if completed then ''worker_jobs_completed''
                                        else ''worker_jobs_failed'') c1))
          else (Inl IndexError, c)
      | PreloadKey j \<Rightarrow>
          (case pj_loader j of
             Inl e \<Rightarrow> (Inl e, c)
           | Inr v \<Rightarrow>
               (case cache_put h (pj_key j) v (preload_ttl j) c of
                  (Inl e, c1) \<Rightarrow> (Inl e, c1)
                | (Inr u, c1) \<Rightarrow> (Inr (), inc_runtime ''worker_jobs_completed'' c1)))
      | SnapshotStats request_id \<Rightarrow>
          (Inr (), inc_runtime ''worker_jobs_completed''
                     (c\<lparr>c_last_snapshot := Some (cache_stats_of c)\<rparr>))
      | StopWorker reason \<Rightarrow> (Inr (), inc_runtime ''worker_jobs_failed'' c))"

definition task_done :: "('k, 'v) cache \<Rightarrow> ('k, 'v) cache" where
  "task_done c = c\<lparr>c_queue := snd (jq_task_done (c_queue c))\<rparr>"

text \<open>One turn of \<open>WorkerPool._run\<close>; the result says whether the thread exits.\<close>

definition worker_turn :: "('k \<Rightarrow> nat) \<Rightarrow> ('k, 'v) cache \<Rightarrow> bool \<times> ('k, 'v) cache" where
  "worker_turn h c =
     (case jq_get (c_queue c) of
        None \<Rightarrow> (wp_stop_event (c_pool c), c)
      | Some (job, q) \<Rightarrow>
          (let c1 = c\<lparr>c_queue := q\<rparr> in
           case job of
             StopWorker reason \<Rightarrow> (True, task_done c1)
           | _ \<Rightarrow>
               (case handle_job h job c1 of
                  (Inl e, c2) \<Rightarrow> (False, task_done (record_worker_failure c2))
                | (Inr u, c2) \<Rightarrow> (False, task_done c2))))"

section \<open>Preservation of the invariant\<close>

lemma task_done_fields [simp]:
  "c_source (task_done c) = c_source c" "c_write_mode (task_done c) = c_write_mode c"
  "jq_items (c_queue (task_done c)) = jq_items (c_queue c)" "c_shards (task_done c) = c_shards c"
  "c_config (task_done c) = c_config c"
  by (simp_all add: task_done_def jq_task_done_def)

lemma inc_runtime_fields [simp]:
  "c_config (inc_runtime f c) = c_config c" "c_clock (inc_runtime f c) = c_clock c"
  "c_write_mode (inc_runtime f c) = c_write_mode c" "c_source (inc_runtime f c) = c_source c"
  "c_shards (inc_runtime f c) = c_shards c" "c_queue (inc_runtime f c) = c_queue c"
  "c_state (inc_runtime f c) = c_state c" "c_pool (inc_runtime f c) = c_pool c"
  "c_scheduler (inc_runtime f c) = c_scheduler c" "c_flights (inc_runtime f c) = c_flights c"
  by (simp_all add: inc_runtime_def Let_def)

lemma inc_runtime_inv [simp]: "cache_inv h (inc_runtime f c) = cache_inv h c"
  by (simp add: inc_runtime_def Let_def)

lemma inc_runtime_shape [simp]: "same_shape c (inc_runtime f c')  = same_shape c c'"
  by (simp add: same_shape_def)

lemma flush_check_inv:
  "cache_inv h c \<Longrightarrow> fj_shard_index j < length (c_shards c) \<Longrightarrow> cache_inv h (snd (flush_check j c))"
  by (simp add: flush_check_def Let_def resolve_pending_inv)

lemma flush_apply_inv: "cache_inv h c \<Longrightarrow> cache_inv h (snd (flush_apply j c))"
  by (simp add: flush_apply_def case_prod_beta)

lemma flush_finish_inv:
  assumes "cache_inv h c" and "fj_shard_index j < length (c_shards c)"
  shows "cache_inv h (flush_finish j c)"
proof -
  let ?sh = "c_shards c ! fj_shard_index j" and ?K = "{k. shard_for h c k = fj_shard_index j}"
  let ?sh1 = "if fj_operation j = ''put'' then mark_clean_locked (fj_key j) (fj_version j) ?sh else ?sh"
  have e1: "shard_evolves ?K ?sh ?sh1"
    using cache_inv_shard [OF assms] by (simp add: evolves_mark_clean evolves_refl)
  have "shard_evolves ?K ?sh (resolve_pending_locked (fj_key j) ?sh1)"
    using e1 evolves_resolve [OF evolves_inv [OF e1]] by (rule evolves_trans)
  with assms show ?thesis by (simp add: flush_finish_def Let_def cache_inv_set_shard)
qed

lemma flush_give_up_inv:
  "cache_inv h c \<Longrightarrow> fj_shard_index j < length (c_shards c) \<Longrightarrow> cache_inv h (flush_give_up j c)"
  by (simp add: flush_give_up_def resolve_pending_inv)

lemma flush_failed_inv:
  assumes "cache_inv h c" and "fj_shard_index j < length (c_shards c)"
  shows "cache_inv h (snd (flush_failed j c))"
proof -
  let ?c1 = "inc_runtime ''write_back_retries'' c"
  let ?c2 = "?c1\<lparr>c_clock := clock_sleep (cfg_write_back_retry_delay (c_config ?c1)) (c_clock ?c1)\<rparr>"
  let ?c3 = "snd (enqueue_job (FlushWriteBack (retry_job j)) True ?c2)"
  have "cache_inv h ?c3" using assms(1) by (simp add: enqueue_job_inv)
  moreover have "length (c_shards ?c3) = length (c_shards c)" by (simp add: enqueue_job_eq)
  ultimately have "cache_inv h ?c3" "cache_inv h (flush_give_up j ?c3)" "cache_inv h (flush_give_up j c)"
    using assms flush_give_up_inv [of h ?c3 j] flush_give_up_inv [OF assms] by simp_all
  then show ?thesis by (auto simp: flush_failed_def Let_def case_prod_beta split: sum.splits)
qed

lemma flush_write_back_job_inv:
  assumes "cache_inv h c" and "fj_shard_index j < length (c_shards c)"
  shows "cache_inv h (snd (flush_write_back_job j c))"
  using assms flush_check_inv [OF assms] flush_apply_inv [OF assms(1), of j]
    flush_finish_inv [of h "snd (flush_apply j c)" j] flush_failed_inv [of h "snd (flush_apply j c)" j]
  by (auto simp: flush_write_back_job_def flush_check_def Let_def flush_apply_def case_prod_beta
      split: sum.splits)

lemma handle_job_inv:
  assumes "cache_inv h c"
  shows "cache_inv h (snd (handle_job h job c))"
proof (cases job)
  case (PreloadKey j)
  then show ?thesis
    using assms put_inv [OF assms, of "pj_key j" _ "preload_ttl j"]
    by (auto simp: handle_job_def case_prod_beta split: sum.splits)
qed (use assms expire_shard_inv [OF assms] flush_write_back_job_inv [OF assms] in
      \<open>auto simp: handle_job_def case_prod_beta\<close>)

section \<open>The worker loop\<close>

text \<open>
  While a worker holds a job, one unfinished task is not waiting; no handler changes that
  surplus, so \<open>task_done\<close> never raises and the queue settles.
\<close>

definition surplus :: "('k, 'v) cache \<Rightarrow> int" where
  "surplus c = int (jq_unfinished (c_queue c)) - int (length (jq_items (c_queue c)))"

lemma surplus_irrelevant [simp]:
  "surplus (inc_runtime f c) = surplus c" "surplus (c\<lparr>c_source := s\<rparr>) = surplus c"
  "surplus (c\<lparr>c_clock := cl\<rparr>) = surplus c" "surplus (c\<lparr>c_last_snapshot := l\<rparr>) = surplus c"
  "surplus (set_shard i sh c) = surplus c" "surplus (c\<lparr>c_warned := w\<rparr>) = surplus c"
  by (simp_all add: surplus_def)

lemma surplus_on_shard [simp]:
  "surplus (snd (on_shard i f c)) = surplus c" "surplus (snd (on_shard_source i g c)) = surplus c"
  "surplus (resolve_pending i k c) = surplus c" "surplus (maybe_warn_cache_not_started c) = surplus c"
  "surplus (flush_finish j c) = surplus c"
  by (simp_all add: on_shard_def on_shard_source_def resolve_pending_def
      maybe_warn_cache_not_started_def flush_finish_def Let_def case_prod_beta)

lemma surplus_enqueue_job [simp]: "surplus (snd (enqueue_job j b c)) = surplus c"
  by (simp add: surplus_def enqueue_job_eq)

lemma surplus_release_jobs [simp]: "surplus (release_jobs js c) = surplus c"
  by (induction js arbitrary: c) simp_all

lemma surplus_enqueue_flush_jobs [simp]: "surplus (snd (enqueue_flush_jobs js c)) = surplus c"
proof (induction js arbitrary: c)
  case (Cons j js)
  then show ?case
    using surplus_enqueue_job [of "FlushWriteBack j" True c]
    by (auto simp: case_prod_beta simp del: surplus_enqueue_job split: sum.splits)
qed simp

lemma surplus_put [simp]: "surplus (snd (cache_put h k v ttl c)) = surplus c"
proof -
  have "surplus (snd (put_section h k v ttl (maybe_warn_cache_not_started c))) = surplus c"
    by (simp add: put_section_def)
  then show ?thesis
    by (auto simp: cache_put_def unless_closed_def Let_def case_prod_beta
        simp del: enqueue_flush_jobs.simps split: option.splits sum.splits)
qed

lemma surplus_flush_failed [simp]: "surplus (snd (flush_failed j c)) = surplus c"
  by (simp add: flush_failed_def flush_give_up_def Let_def case_prod_beta split: sum.splits)

lemma surplus_flush [simp]: "surplus (snd (flush_write_back_job j c)) = surplus c"
  by (simp add: flush_write_back_job_def flush_check_def flush_apply_def Let_def case_prod_beta
      split: sum.splits)

lemma surplus_handle_job: "surplus (snd (handle_job h job c)) = surplus c"
  by (simp add: handle_job_def expire_shard_def case_prod_beta split: job.splits sum.splits)

lemma cache_inv_task_done:
  assumes "cache_inv h c" and "1 \<le> surplus c"
  shows "cache_inv h (task_done c)"
  unfolding task_done_def
  by (rule cache_inv_queue [OF assms(1)])
     (use assms in \<open>auto simp: cache_inv_def jq_inv_def jq_task_done_def surplus_def\<close>)

lemma cache_inv_take:
  assumes inv: "cache_inv h c" and get: "jq_get (c_queue c) = Some (job, q)"
  shows "cache_inv h (c\<lparr>c_queue := q\<rparr>)" and "1 \<le> surplus (c\<lparr>c_queue := q\<rparr>)"
proof -
  have q: "q = (c_queue c)\<lparr>jq_items := jq_items q\<rparr>" "jq_items (c_queue c) = job # jq_items q"
    using get by (auto simp: jq_get_def split: list.splits)
  have "jq_inv q" using jq.inv_get [of "c_queue c" job q] inv get by (simp add: cache_inv_def)
  moreover have "jq_maxsize q = jq_maxsize (c_queue c)" by (subst q(1)) simp
  ultimately show "cache_inv h (c\<lparr>c_queue := q\<rparr>)" using inv by (intro cache_inv_queue)
  have "jq_unfinished q = jq_unfinished (c_queue c)" by (subst q(1)) simp
  moreover have "length (jq_items (c_queue c)) \<le> jq_unfinished (c_queue c)"
    using inv by (simp add: cache_inv_def jq_inv_def)
  ultimately show "1 \<le> surplus (c\<lparr>c_queue := q\<rparr>)" using q(2) by (simp add: surplus_def)
qed

lemma worker_turn_inv:
  assumes inv: "cache_inv h c"
  shows "cache_inv h (snd (worker_turn h c))"
proof (cases "jq_get (c_queue c)")
  case None
  then show ?thesis using inv by (simp add: worker_turn_def)
next
  case (Some p)
  obtain job q where p: "p = (job, q)" by fastforce
  let ?c1 = "c\<lparr>c_queue := q\<rparr>" and ?c2 = "snd (handle_job h job (c\<lparr>c_queue := q\<rparr>))"
  have inv1: "cache_inv h ?c1" and s1: "1 \<le> surplus ?c1" using cache_inv_take [OF inv] Some p by simp_all
  have inv2: "cache_inv h ?c2" and s2: "1 \<le> surplus ?c2"
    using handle_job_inv [OF inv1] s1 by (simp_all add: surplus_handle_job)
  have "cache_inv h (task_done ?c2)" "cache_inv h (task_done (record_worker_failure ?c2))"
      "cache_inv h (task_done ?c1)"
    using inv1 s1 inv2 s2 by (simp_all add: cache_inv_task_done record_worker_failure_def)
  then show ?thesis
    using Some p by (auto simp: worker_turn_def Let_def case_prod_beta split: job.splits sum.splits)
qed

end
