(* ===== verification/Coherence.thy ===== *)
theory Coherence
  imports Flush
begin

text \<open>
  Histories of public operations, clock advances and worker turns; the value every read
  returns is the one last written (for any write mode), and in write-through mode every
  cached value is the one the source of truth holds.
\<close>

section \<open>Histories\<close>

datatype ('k, 'v) action =
    Get 'k "'v option"
  | Contains 'k
  | Put 'k 'v ttl_arg
  | Delete 'k
  | Clear
  | Size
  | Inspect 'k
  | Dump "int option"
  | ExpireAll
  | RestoreMetadata 'k int
  | Preload 'k "'v loader" ttl_arg
  | RequestSnapshot string
  | SchedulerTick
  | Start
  | Advance time
  | WorkerTurn

fun run_action :: "('k \<Rightarrow> nat) \<Rightarrow> ('k, 'v) action \<Rightarrow> ('k, 'v) cache \<Rightarrow> ('k, 'v) cache" where
  "run_action h (Get k d) c = snd (cache_get h k d c)"
| "run_action h (Contains k) c = snd (cache_contains h k c)"
| "run_action h (Put k v ttl) c = snd (cache_put h k v ttl c)"
| "run_action h (Delete k) c = snd (cache_delete h k c)"
| "run_action h Clear c = snd (cache_clear c)"
| "run_action h Size c = snd (cache_size c)"
| "run_action h (Inspect k) c = snd (cache_inspect h k c)"
| "run_action h (Dump limit) c = snd (cache_dump limit c)"
| "run_action h ExpireAll c = snd (cache_expire_all c)"
| "run_action h (RestoreMetadata k n) c = snd (restore_entry_metadata h k n c)"
| "run_action h (Preload k loader ttl) c = snd (cache_preload h k loader ttl c)"
| "run_action h (RequestSnapshot r) c = snd (request_snapshot r c)"
| "run_action h SchedulerTick c = snd (scheduler_tick c)"
| "run_action h Start c = snd (cache_start c)"
| "run_action h (Advance s) c = c\<lparr>c_clock := snd (clock_advance s (c_clock c))\<rparr>"
| "run_action h WorkerTurn c = snd (worker_turn h c)"

definition run :: "('k \<Rightarrow> nat) \<Rightarrow> ('k, 'v) action list \<Rightarrow> ('k, 'v) cache \<Rightarrow> ('k, 'v) cache" where
  "run h acts c = fold (run_action h) acts c"

lemma run_action_inv: "cache_inv h c \<Longrightarrow> cache_inv h (run_action h a c)"
  by (cases a) (simp_all add: op_invs worker_turn_inv)

lemma run_inv: "cache_inv h c \<Longrightarrow> cache_inv h (run h acts c)"
  unfolding run_def by (induction acts arbitrary: c) (simp_all add: run_action_inv)

lemma sum_list_int_le:
  assumes "\<forall>x \<in> set xs. f x \<le> g x"
  shows "int (sum_list (map f xs)) \<le> sum_list (map (\<lambda>x. int (g x)) xs)"
  using assms by (induction xs) auto

lemma total_size_bounded:
  assumes "cache_inv h c"
  shows "int (total_size c) \<le> cfg_capacity (c_config c)"
proof -
  have "\<forall>sh \<in> set (c_shards c). mem_size (sh_backend sh) \<le> sh_capacity sh"
    using assms by (auto simp: cache_inv_def shard_at_def shard_inv_def in_set_conv_nth)
  then have "int (total_size c) \<le> sum_list (map (\<lambda>sh. int (sh_capacity sh)) (c_shards c))"
    unfolding total_size_def by (rule sum_list_int_le)
  then show ?thesis using assms by (simp add: cache_inv_def)
qed

section \<open>Coherence with a map of written values\<close>

definition sh_coherent :: "('k \<Rightarrow> 'v option) \<Rightarrow> ('k, 'v) shard \<Rightarrow> bool" where
  "sh_coherent spec sh \<longleftrightarrow>
     (\<forall>k e. dict_get (sh_backend sh) k = Some e \<longrightarrow> spec k = Some (ce_value e))"

definition coherent :: "('k \<Rightarrow> 'v option) \<Rightarrow> ('k, 'v) cache \<Rightarrow> bool" where
  "coherent spec c \<longleftrightarrow> (\<forall>i < length (c_shards c). sh_coherent spec (c_shards c ! i))"

text \<open>A section that keeps the value of every entry it does not drop.\<close>

definition vals_kept :: "('k, 'v) shard \<Rightarrow> ('k, 'v) shard \<Rightarrow> bool" where
  "vals_kept sh sh' \<longleftrightarrow>
     (\<forall>k e'. dict_get (sh_backend sh') k = Some e' \<longrightarrow>
        (\<exists>e. dict_get (sh_backend sh) k = Some e \<and> ce_value e' = ce_value e))"

lemma vals_kept_frame: "(\<And>k. key_frame k sh sh') \<Longrightarrow> vals_kept sh sh'"
  unfolding vals_kept_def key_frame_def by metis

lemma vals_kept_same: "sh_backend sh' = sh_backend sh \<Longrightarrow> vals_kept sh sh'"
  by (simp add: vals_kept_def)

lemma sh_coherent_kept: "sh_coherent spec sh \<Longrightarrow> vals_kept sh sh' \<Longrightarrow> sh_coherent spec sh'"
  unfolding sh_coherent_def vals_kept_def by metis

lemma vals_kept_read: "shard_inv sh \<Longrightarrow> vals_kept sh (snd (read_value_locked t c now k sh))"
  by (rule vals_kept_frame) (rule key_frame_read)

lemma vals_kept_expire: "vals_kept sh (snd (expire_shard_locked now sh))"
  unfolding expire_shard_locked_def by (rule vals_kept_frame) (rule key_frame_expire_keys)

lemma vals_kept_inspect: "vals_kept sh (snd (inspect_locked now k sh))"
  by (rule vals_kept_frame) (rule key_frame_inspect)

lemma vals_kept_dump: "vals_kept sh (snd (dump_entries_locked now es snaps sh))"
  by (rule vals_kept_frame) (rule key_frame_dump)

lemma vals_kept_restore: "shard_inv sh \<Longrightarrow> vals_kept sh (restore_hit_count_locked k n sh)"
  by (rule vals_kept_frame) (rule key_frame_restore)

lemma vals_kept_resolve: "vals_kept sh (resolve_pending_locked k sh)"
  by (rule vals_kept_same) simp

lemma vals_kept_mark_clean: "shard_inv sh \<Longrightarrow> vals_kept sh (mark_clean_locked k v sh)"
  using inv_entry_key [of sh k]
  by (auto simp: vals_kept_def mark_clean_locked_def mem_get_entry_def mem_put_entry_def
      split: option.splits if_splits)

lemma vals_kept_trans: "vals_kept sh sh' \<Longrightarrow> vals_kept sh' sh'' \<Longrightarrow> vals_kept sh sh''"
  unfolding vals_kept_def by fastforce

lemma coherent_set_shard:
  assumes "cache_inv h c" and "i < length (c_shards c)" and "coherent spec c"
    and "sh_coherent spec' sh'"
    and same: "\<And>k. h k mod length (c_shards c) \<noteq> i \<Longrightarrow> spec' k = spec k"
  shows "coherent spec' (set_shard i sh' c)"
proof -
  have "sh_coherent spec' (c_shards c ! j)" if "j < length (c_shards c)" "j \<noteq> i" for j
    unfolding sh_coherent_def
  proof (intro allI impI)
    fix k e
    assume e: "dict_get (sh_backend (c_shards c ! j)) k = Some e"
    then have "h k mod length (c_shards c) = j"
      using assms(1) that(1) dict_get_in_keys [OF e] by (auto simp: cache_inv_def shard_at_def)
    then have "spec' k = spec k" using that(2) by (intro same) simp
    then show "spec' k = Some (ce_value e)"
      using assms(3) that(1) e by (simp add: coherent_def sh_coherent_def)
  qed
  with assms(2,4) show ?thesis by (simp add: coherent_def nth_list_update)
qed

lemma coherent_kept:
  assumes "cache_inv h c" and "i < length (c_shards c)" and "coherent spec c"
    and "vals_kept (c_shards c ! i) sh'"
  shows "coherent spec (set_shard i sh' c)"
  using assms sh_coherent_kept [of spec "c_shards c ! i" sh']
  by (intro coherent_set_shard [OF assms(1-3)]) (simp_all add: coherent_def)

lemma coherent_cong: "c_shards c' = c_shards c \<Longrightarrow> coherent spec c' = coherent spec c"
  by (simp add: coherent_def)

lemma coherent_irrelevant [simp]:
  "coherent spec (c\<lparr>c_source := s\<rparr>) = coherent spec c"
  "coherent spec (c\<lparr>c_clock := cl\<rparr>) = coherent spec c"
  "coherent spec (c\<lparr>c_queue := q\<rparr>) = coherent spec c"
  "coherent spec (c\<lparr>c_last_snapshot := l\<rparr>) = coherent spec c"
  "coherent spec (inc_runtime f c) = coherent spec c"
  "coherent spec (maybe_warn_cache_not_started c) = coherent spec c"
  "coherent spec (snd (enqueue_job j b c)) = coherent spec c"
  "coherent spec (tick_once c) = coherent spec c"
  "coherent spec (task_done c) = coherent spec c"
  by (simp_all add: coherent_def maybe_warn_cache_not_started_def enqueue_job_eq tick_once_def
      task_done_def)

lemma coherent_on_shard:
  assumes "cache_inv h c" and "i < length (c_shards c)" and "coherent spec c"
    and "\<And>sh. shard_inv sh \<Longrightarrow> vals_kept sh (snd (f sh))"
  shows "coherent spec (snd (on_shard i f c))"
  using coherent_kept [OF assms(1-3)] assms(4) [OF cache_inv_shard [OF assms(1,2)]]
  by (simp add: on_shard_def case_prod_beta)

section \<open>Write sections\<close>

lemma sh_coherent_frame:
  assumes "sh_coherent spec sh" and "\<And>j. j \<noteq> k \<Longrightarrow> key_frame j sh sh'"
    and "\<And>e. dict_get (sh_backend sh') k = Some e \<Longrightarrow> w = Some (ce_value e)"
  shows "sh_coherent (spec(k := w)) sh'"
  unfolding sh_coherent_def
proof (intro allI impI)
  fix j e
  assume e: "dict_get (sh_backend sh') j = Some e"
  show "(spec(k := w)) j = Some (ce_value e)"
  proof (cases "j = k")
    case True
    then show ?thesis using assms(3) e by simp
  next
    case False
    then obtain e0 where "dict_get (sh_backend sh) j = Some e0" "ce_value e = ce_value e0"
      using assms(2) e unfolding key_frame_def by metis
    then show ?thesis using assms(1) False by (simp add: sh_coherent_def)
  qed
qed

lemma put_store_value:
  assumes "shard_inv sh" and "dict_get (sh_backend (snd (put_store m d now k v ttl ex sh))) k = Some e"
  shows "ce_value e = v"
proof -
  let ?sh1 = "put_insert (put_entry_of m d now k v ttl ex sh) sh"
  have core: "shard_core ?sh1" using assms(1) by (simp add: shard_inv_def put_insert_core)
  have "dict_get (sh_backend (enforce_capacity_locked ?sh1)) k = Some e"
    using assms(2) by (simp add: put_store_eq)
  then have "dict_get (sh_backend ?sh1) k = Some e"
    using enforce_frame(2) [OF core dict_get_in_keys] by metis
  then show ?thesis by auto
qed

lemma put_locked_coherent:
  assumes inv: "shard_inv sh" and co: "sh_coherent spec sh"
    and p: "put_locked m d n now k v ttl s sh = (r, s', sh')"
  shows "sh_coherent (if isl r then spec else spec(k \<mapsto> v)) sh'"
proof -
  obtain ex sh0 where e: "put_existing now k sh = (ex, sh0)" by fastforce
  have inv0: "shard_inv sh0" using inv_put_existing [OF inv, of now k] e by simp
  have "vals_kept sh (snd (put_existing now k sh))"
    by (rule vals_kept_frame) (rule key_frame_put_existing)
  then have co0: "sh_coherent spec sh0" using sh_coherent_kept [OF co, of sh0] e by simp
  let ?sh1 = "snd (put_store m d now k v ttl ex sh0)"
  have co1: "sh_coherent (spec(k \<mapsto> v)) ?sh1"
    by (rule sh_coherent_frame [OF co0 put_store_frame]) (simp_all add: put_store_value [OF inv0])
  then have "sh_coherent (spec(k \<mapsto> v)) (register_pending_locked k ?sh1)"
    by (simp add: sh_coherent_def)
  then show ?thesis
    using p e co0 co1 by (auto simp: put_locked_def case_prod_beta split: sum.splits if_splits)
qed

lemma delete_locked_coherent:
  assumes co: "sh_coherent spec sh" and p: "delete_locked m n k s sh = (r, s', sh')"
  shows "sh_coherent (if isl r then spec else spec(k := None)) sh'"
proof -
  have "sh_coherent (spec(k := None)) (snd (delete_entry_locked k sh))"
    by (rule sh_coherent_frame [OF co delete_entry_frame]) simp
  moreover have "sh_coherent (spec(k := None)) (snd (delete_entry_locked k (snd (tombstone_locked n k sh))))"
    by (rule sh_coherent_frame [OF co tombstone_delete_frame]) simp_all
  ultimately show ?thesis
    using p co
    by (auto simp: delete_locked_def Let_def case_prod_beta sh_coherent_def split: sum.splits if_splits)
qed

lemma clear_keys_kept: "clear_keys_locked m n ks js s sh = (r, s', sh') \<Longrightarrow> vals_kept sh sh'"
proof (induction ks arbitrary: js s sh)
  case Nil
  then show ?case by (simp add: vals_kept_def)
next
  case (Cons k ks)
  from Cons.prems show ?case
  proof (cases rule: clear_keys_cases)
    case (refused e)
    then show ?thesis by (simp add: vals_kept_same)
  next
    case (round js1 s1 sh1)
    have "vals_kept sh sh1" by (simp add: vals_kept_def clear_round_fields(1) [OF round(1)])
    then show ?thesis using Cons.IH [OF round(2)] by (rule vals_kept_trans)
  qed
qed

lemma clear_locked_kept: "clear_locked m n js s sh = (r, s', sh') \<Longrightarrow> vals_kept sh sh'"
  by (auto simp: clear_locked_def vals_kept_def dest!: clear_keys_kept split: prod.splits sum.splits)

section \<open>Operations\<close>

text \<open>The map of written values after an action; the action's outcome decides.\<close>

definition took_effect :: "cache_error + 'a \<Rightarrow> bool" where
  "took_effect r \<longleftrightarrow> \<not> isl r \<or> r = Inl QueueBackpressureError"

fun written :: "('k \<Rightarrow> nat) \<Rightarrow> ('k, 'v) action \<Rightarrow> ('k, 'v) cache \<Rightarrow> ('k \<Rightarrow> 'v option) \<Rightarrow> ('k \<Rightarrow> 'v option)" where
  "written h (Put k v ttl) c spec =
     (if took_effect (fst (cache_put h k v ttl c)) then spec(k \<mapsto> v) else spec)"
| "written h (Delete k) c spec =
     (if took_effect (fst (cache_delete h k c)) then spec(k := None) else spec)"
| "written h Clear c spec = (if took_effect (fst (cache_clear c)) then (\<lambda>k. None) else spec)"
| "written h WorkerTurn c spec =
     (case jq_get (c_queue c) of
        Some (PreloadKey j, q) \<Rightarrow>
          (case pj_loader j of
             Inr v \<Rightarrow> if took_effect (fst (cache_put h (pj_key j) v (preload_ttl j) (c\<lparr>c_queue := q\<rparr>)))
                      then spec(pj_key j \<mapsto> v) else spec
           | Inl e \<Rightarrow> spec)
      | _ \<Rightarrow> spec)"
| "written h a c spec = spec"

fun run_written :: "('k \<Rightarrow> nat) \<Rightarrow> ('k, 'v) action list \<Rightarrow> ('k, 'v) cache \<Rightarrow> ('k \<Rightarrow> 'v option) \<Rightarrow> ('k \<Rightarrow> 'v option)" where
  "run_written h [] c spec = spec"
| "run_written h (a # as) c spec = run_written h as (run_action h a c) (written h a c spec)"

lemma coherent_resolve:
  "cache_inv h c \<Longrightarrow> i < length (c_shards c) \<Longrightarrow> coherent spec c \<Longrightarrow> coherent spec (resolve_pending i k c)"
  unfolding resolve_pending_def by (rule coherent_kept) (simp_all add: vals_kept_resolve)

lemma coherent_release:
  "cache_inv h c \<Longrightarrow> \<forall>j \<in> set js. fj_shard_index j < length (c_shards c) \<Longrightarrow> coherent spec c \<Longrightarrow>
     coherent spec (release_jobs js c)"
proof (induction js arbitrary: c)
  case (Cons j js)
  then show ?case
    using coherent_resolve [of h c "fj_shard_index j" spec "fj_key j"]
      resolve_pending_inv [of h c "fj_shard_index j" "fj_key j"]
    by (simp add: resolve_pending_def)
qed simp

lemma coherent_enqueue_flush:
  "cache_inv h c \<Longrightarrow> \<forall>j \<in> set js. fj_shard_index j < length (c_shards c) \<Longrightarrow> coherent spec c \<Longrightarrow>
     coherent spec (snd (enqueue_flush_jobs js c))"
proof (induction js arbitrary: c)
  case (Cons j js)
  let ?c1 = "snd (enqueue_job (FlushWriteBack j) True c)"
  have inv1: "cache_inv h ?c1" and co1: "coherent spec ?c1"
    using Cons.prems by (simp_all add: enqueue_job_inv)
  have ok: "\<forall>j \<in> set (j # js). fj_shard_index j < length (c_shards ?c1)"
    using Cons.prems(2) by (simp add: enqueue_job_eq)
  have "coherent spec (release_jobs (j # js) ?c1)" using inv1 ok co1 by (rule coherent_release)
  moreover have "coherent spec (snd (enqueue_flush_jobs js ?c1))" using Cons.IH inv1 ok co1 by simp
  ultimately show ?case by (auto simp: case_prod_beta simp del: release_jobs.simps split: sum.splits)
qed simp

lemma enqueue_flush_effect: "took_effect (fst (enqueue_flush_jobs js c))"
  by (induction js arbitrary: c) (auto simp: took_effect_def enqueue_job_eq case_prod_beta)

lemma coherent_put_section:
  assumes inv: "cache_inv h c" and co: "coherent spec c" and s: "put_section h k v ttl c = (r, c')"
  shows "coherent (if isl r then spec else spec(k \<mapsto> v)) c'"
proof -
  let ?i = "shard_for h c k"
  have i: "?i < length (c_shards c)" using inv by (rule shard_for_less)
  obtain s' sh' where p: "put_locked (c_write_mode c) (cfg_default_ttl (c_config c))
      (cfg_write_back_retry_count (c_config c)) (cache_now c) k v ttl (c_source c) (c_shards c ! ?i) = (r, s', sh')"
    and c': "c' = (set_shard ?i sh' c)\<lparr>c_source := s'\<rparr>"
    using s by (auto simp: put_section_def on_shard_source_def split: prod.splits)
  have sc: "sh_coherent spec (c_shards c ! ?i)" using co i by (simp add: coherent_def)
  have "coherent (if isl r then spec else spec(k \<mapsto> v)) (set_shard ?i sh' c)"
    by (rule coherent_set_shard [OF inv i co put_locked_coherent [OF cache_inv_shard [OF inv i] sc p]])
       (auto simp: shard_for_def)
  then show ?thesis using c' by simp
qed

lemma coherent_delete_section:
  assumes inv: "cache_inv h c" and co: "coherent spec c" and s: "delete_section h k c = (r, c')"
  shows "coherent (if isl r then spec else spec(k := None)) c'"
proof -
  let ?i = "shard_for h c k"
  have i: "?i < length (c_shards c)" using inv by (rule shard_for_less)
  obtain s' sh' where p: "delete_locked (c_write_mode c) (cfg_write_back_retry_count (c_config c)) k
      (c_source c) (c_shards c ! ?i) = (r, s', sh')"
    and c': "c' = (set_shard ?i sh' c)\<lparr>c_source := s'\<rparr>"
    using s by (auto simp: delete_section_def on_shard_source_def split: prod.splits)
  have sc: "sh_coherent spec (c_shards c ! ?i)" using co i by (simp add: coherent_def)
  have "coherent (if isl r then spec else spec(k := None)) (set_shard ?i sh' c)"
    by (rule coherent_set_shard [OF inv i co delete_locked_coherent [OF sc p]])
       (auto simp: shard_for_def)
  then show ?thesis using c' by simp
qed

lemma coherent_put:
  assumes inv: "cache_inv h c" and co: "coherent spec c" and p: "cache_put h k v ttl c = (r, c')"
  shows "coherent (if took_effect r then spec(k \<mapsto> v) else spec) c'"
proof -
  let ?c1 = "maybe_warn_cache_not_started c"
  have inv1: "cache_inv h ?c1" and co1: "coherent spec ?c1"
    using inv co by (simp_all add: cache_inv_warn)
  obtain rs c2 where s: "put_section h k v ttl ?c1 = (rs, c2)" by fastforce
  have inv2: "cache_inv h c2" using put_section_inv [OF inv1, of k v ttl] s by simp
  note co2 = coherent_put_section [OF inv1 co1 s]
  show ?thesis
  proof (cases rs)
    case (Inl e)
    have "e \<noteq> QueueBackpressureError"
      using s Inl by (auto simp: put_section_def on_shard_source_def put_locked_def sd_defs Let_def
          split: prod.splits sum.splits if_splits)
    with Inl p s co co2 show ?thesis
      by (auto simp: cache_put_def unless_closed_def require_not_closed_def validate_explicit_ttl_def
          Let_def took_effect_def split: option.splits ttl_arg.splits if_splits)
  next
    case (Inr jo)
    have E: "coherent (spec(k \<mapsto> v)) (snd (enqueue_flush_jobs [j] c2))" if "jo = Some j" for j
      using coherent_enqueue_flush [OF inv2, of "[j]" "spec(k \<mapsto> v)"] co2 Inr that
        put_section_job(3) [OF inv1, of k v ttl j c2] s section_shape(1) [of ?c1 h k v ttl]
      by (simp add: same_shape_def)
    show ?thesis
      using p s Inr co co2 E enqueue_flush_effect [of "[the jo]" c2]
      by (cases jo)
         (auto simp: cache_put_def unless_closed_def require_not_closed_def validate_explicit_ttl_def
          Let_def took_effect_def simp del: enqueue_flush_jobs.simps
          split: option.splits ttl_arg.splits if_splits)
  qed
qed

lemma coherent_delete:
  assumes inv: "cache_inv h c" and co: "coherent spec c" and p: "cache_delete h k c = (r, c')"
  shows "coherent (if took_effect r then spec(k := None) else spec) c'"
proof -
  obtain rs c2 where s: "delete_section h k c = (rs, c2)" by fastforce
  have inv2: "cache_inv h c2" using delete_section_inv [OF inv, of k] s by simp
  note co2 = coherent_delete_section [OF inv co s]
  show ?thesis
  proof (cases rs)
    case (Inl e)
    have "e \<noteq> QueueBackpressureError"
      using s Inl by (auto simp: delete_section_def on_shard_source_def delete_locked_def sd_defs Let_def
          split: prod.splits sum.splits if_splits)
    with Inl p s co co2 show ?thesis
      by (auto simp: cache_delete_def unless_closed_def require_not_closed_def took_effect_def
          split: option.splits if_splits)
  next
    case (Inr x)
    obtain existed jo where x: "x = (existed, jo)" by fastforce
    have E: "coherent (spec(k := None)) (snd (enqueue_flush_jobs [j] c2))" if "jo = Some j" for j
      using coherent_enqueue_flush [OF inv2, of "[j]" "spec(k := None)"] co2 Inr x that
        delete_section_job(3) [OF inv, of k existed j c2] s section_shape(2) [of c h k]
      by (simp add: same_shape_def)
    show ?thesis
      using p s Inr x co co2 E enqueue_flush_effect [of "[the jo]" c2]
      by (cases jo)
         (auto simp: cache_delete_def unless_closed_def require_not_closed_def took_effect_def
          simp del: enqueue_flush_jobs.simps split: option.splits if_splits sum.splits prod.splits)
  qed
qed

lemma clear_section_coherent:
  assumes inv: "cache_inv h c" and i: "i < length (c_shards c)" and co: "coherent spec c"
    and s: "clear_section i js c = (r, c')"
  shows "coherent spec c'" and "\<not> isl r \<Longrightarrow> sh_backend (c_shards c' ! i) = []"
    and "\<And>j. j \<noteq> i \<Longrightarrow> c_shards c' ! j = c_shards c ! j"
proof -
  obtain s' sh' where p: "clear_locked (c_write_mode c) (cfg_write_back_retry_count (c_config c)) js
      (c_source c) (c_shards c ! i) = (r, s', sh')"
    and c': "c' = (set_shard i sh' c)\<lparr>c_source := s'\<rparr>"
    using s by (auto simp: clear_section_def on_shard_source_def split: prod.splits)
  show "coherent spec c'" using coherent_kept [OF inv i co clear_locked_kept [OF p]] c' by simp
  show "sh_backend (c_shards c' ! i) = []" if "\<not> isl r"
    using clear_locked_inv(2) [OF cache_inv_shard [OF inv i] p] that c' i by (cases r) auto
  show "c_shards c' ! j = c_shards c ! j" if "j \<noteq> i" for j using c' that by simp
qed

lemma clear_shards_coherent:
  assumes "cache_inv h c" and "\<forall>i \<in> set is. i < length (c_shards c)" and "coherent spec c"
    and "clear_shards is js c = (r, c')"
  shows "coherent spec c' \<and> (\<not> isl r \<longrightarrow> (\<forall>i \<in> set is. sh_backend (c_shards c' ! i) = [])) \<and>
    (\<forall>i. sh_backend (c_shards c ! i) = [] \<longrightarrow> i < length (c_shards c) \<longrightarrow> \<not> isl r \<longrightarrow> sh_backend (c_shards c' ! i) = [])"
  using assms
proof (induction "is" arbitrary: js c)
  case (Cons i "is")
  have i: "i < length (c_shards c)" using Cons.prems(2) by simp
  obtain r1 c1 where s: "clear_section i js c = (r1, c1)" by fastforce
  have inv1: "cache_inv h c1" using clear_section_inv [OF Cons.prems(1) i, of js] s by simp
  have len: "length (c_shards c1) = length (c_shards c)"
    using section_shape(3) [of c i js] s by (simp add: same_shape_def)
  note C = clear_section_coherent [OF Cons.prems(1) i Cons.prems(3) s]
  show ?case
  proof (cases r1)
    case (Inl e)
    with Cons.prems(4) s C(1) show ?thesis by auto
  next
    case (Inr js1)
    then have "clear_shards is js1 c1 = (r, c')" using Cons.prems(4) s by simp
    from Cons.IH [OF inv1 _ C(1) this] Cons.prems(2) len C(2,3) Inr i show ?thesis
      by (metis (no_types, opaque_lifting) insert_iff isl_def list.set(2) sum.distinct(1))
  qed
qed simp

lemma clear_keys_error: "clear_keys_locked m n ks js s sh = (Inl e, s', sh') \<Longrightarrow> e = OSError"
proof (induction ks arbitrary: js s sh)
  case (Cons k ks)
  from Cons.prems show ?case
  proof (cases rule: clear_keys_cases)
    case (refused e')
    then show ?thesis by (auto simp: sd_defs Let_def split: if_splits)
  next
    case (round js1 s1 sh1)
    then show ?thesis by (intro Cons.IH)
  qed
qed simp

lemma clear_shards_error: "clear_shards is js c = (Inl e, c') \<Longrightarrow> e = OSError"
proof (induction "is" arbitrary: js c)
  case (Cons i "is")
  then show ?case
    by (auto simp: clear_section_def on_shard_source_def clear_locked_def
        dest: clear_keys_error split: prod.splits sum.splits)
qed simp

lemma coherent_clear:
  assumes inv: "cache_inv h c" and co: "coherent spec c" and p: "cache_clear c = (r, c')"
  shows "coherent (if took_effect r then (\<lambda>k. None) else spec) c'"
proof -
  let ?is = "[0..<length (c_shards c)]"
  obtain rs c2 where s: "clear_shards ?is [] c = (rs, c2)" by fastforce
  have I: "cache_inv h c2 \<and> same_shape c c2 \<and>
      (\<forall>js. rs = Inr js \<longrightarrow> (\<forall>j \<in> set js. fj_shard_index j < length (c_shards c)))"
    using clear_shards_inv [OF inv _ _ s] by simp
  have C: "coherent spec c2 \<and> (\<not> isl rs \<longrightarrow> (\<forall>i < length (c_shards c). sh_backend (c_shards c2 ! i) = []))"
    using clear_shards_coherent [OF inv _ co s] by simp
  show ?thesis
  proof (cases "require_not_closed c")
    case (Some e)
    then show ?thesis
      using p co by (auto simp: cache_clear_def unless_closed_def require_not_closed_def took_effect_def
          split: if_splits)
  next
    case None
    show ?thesis
    proof (cases rs)
      case (Inl e)
      have "r = Inl e \<and> c' = c2" using p s None Inl by (simp add: cache_clear_def unless_closed_def)
      moreover have "e \<noteq> QueueBackpressureError" using clear_shards_error [of ?is "[]" c e c2] s Inl by auto
      ultimately show ?thesis using C by (simp add: took_effect_def)
    next
      case (Inr js)
      then have "coherent (\<lambda>k. None) c2"
        using C I by (auto simp: coherent_def sh_coherent_def same_shape_def)
      then have "coherent (\<lambda>k. None) (snd (enqueue_flush_jobs js c2))"
        using coherent_enqueue_flush [of h c2 js] I Inr by (auto simp: same_shape_def)
      then show ?thesis
        using p s None Inr enqueue_flush_effect [of js c2] by (simp add: cache_clear_def unless_closed_def)
    qed
  qed
qed

lemma dump_shards_coherent:
  "cache_inv h c \<Longrightarrow> \<forall>i \<in> set is. i < length (c_shards c) \<Longrightarrow> coherent spec c \<Longrightarrow>
     coherent spec (snd (dump_shards is snaps c))"
proof (induction "is" arbitrary: snaps c)
  case (Cons i "is")
  let ?c1 = "snd (on_shard i (\<lambda>sh. dump_entries_locked (cache_now c) (mem_entries (sh_backend sh)) snaps sh) c)"
  have "cache_inv h ?c1"
    using Cons.prems by (intro on_shard_inv) (simp_all add: evolves_dump)
  moreover have "coherent spec ?c1"
    using Cons.prems by (intro coherent_on_shard) (simp_all add: vals_kept_dump)
  moreover have "length (c_shards ?c1) = length (c_shards c)" by (rule shape_length) simp
  ultimately show ?case using Cons by (simp add: case_prod_beta)
qed simp

lemma expire_shards_coherent:
  "cache_inv h c \<Longrightarrow> \<forall>i \<in> set is. i < length (c_shards c) \<Longrightarrow> coherent spec c \<Longrightarrow>
     coherent spec (snd (expire_shards is n c))"
proof (induction "is" arbitrary: n c)
  case (Cons i "is")
  have "coherent spec (snd (expire_shard i c))"
    unfolding expire_shard_def using Cons.prems by (intro coherent_on_shard) (simp_all add: vals_kept_expire)
  moreover have "length (c_shards (snd (expire_shard i c))) = length (c_shards c)"
    by (rule shape_length) simp
  ultimately show ?case using Cons expire_shard_inv [of h c i] by (simp add: case_prod_beta)
qed simp

lemma coherent_unless_closed:
  "coherent spec c \<Longrightarrow> coherent spec (snd body) \<Longrightarrow> coherent spec (snd (unless_closed c body))"
  by (simp add: unless_closed_def split: option.splits)

lemma coherent_read_section: "cache_inv h c \<Longrightarrow> coherent spec c \<Longrightarrow> coherent spec (snd (read_section h t k c))"
  unfolding read_section_def by (rule coherent_on_shard) (simp_all add: shard_for_less vals_kept_read)

lemma coherent_flush:
  assumes "cache_inv h c" and "fj_shard_index j < length (c_shards c)" and "coherent spec c"
  shows "coherent spec (snd (flush_write_back_job j c))"
proof -
  let ?i = "fj_shard_index j" and ?k = "fj_key j"
  have R: "coherent spec (resolve_pending ?i ?k c')"
    if "c_shards c' = c_shards c" for c'
    using coherent_resolve [OF assms, of ?k] that by (simp add: resolve_pending_def coherent_def)
  have F: "coherent spec (flush_finish j c')" if "c_shards c' = c_shards c" for c'
  proof -
    have "vals_kept (c_shards c ! ?i) (resolve_pending_locked ?k
        (if fj_operation j = ''put'' then mark_clean_locked ?k (fj_version j) (c_shards c ! ?i) else c_shards c ! ?i))"
      using cache_inv_shard [OF assms(1,2)]
      by (auto intro: vals_kept_trans [OF vals_kept_mark_clean vals_kept_resolve] vals_kept_resolve)
    from coherent_kept [OF assms this] that show ?thesis
      by (simp add: flush_finish_def Let_def coherent_def)
  qed
  have "coherent spec (snd (flush_failed j c'))" if "c_shards c' = c_shards c" for c'
    using R that assms(3)
    by (simp add: flush_failed_def flush_give_up_def enqueue_job_eq Let_def coherent_def case_prod_beta
        split: sum.splits)
  then show ?thesis
    using R F assms(3)
    by (simp add: flush_write_back_job_def flush_check_def flush_apply_def Let_def case_prod_beta
        split: sum.splits)
qed

lemma coherent_put_pair:
  assumes "cache_inv h c" and "coherent spec c"
  shows "coherent (if took_effect (fst (cache_put h k v ttl c)) then spec(k \<mapsto> v) else spec)
    (snd (cache_put h k v ttl c))"
  by (rule coherent_put [OF assms]) simp

lemma coherent_handle_job:
  assumes inv: "cache_inv h c" and co: "coherent spec c" and "\<And>j. job \<noteq> PreloadKey j"
  shows "coherent spec (snd (handle_job h job c))"
proof (cases job)
  case (ExpireShard i)
  have "coherent spec (snd (expire_shard i c))" if "i < length (c_shards c)"
    unfolding expire_shard_def using inv co that by (intro coherent_on_shard) (simp_all add: vals_kept_expire)
  with ExpireShard co show ?thesis by (simp add: handle_job_def)
next
  case (FlushWriteBack j)
  with coherent_flush [OF inv _ co, of j] co show ?thesis by (simp add: handle_job_def case_prod_beta)
qed (use assms in \<open>simp_all add: handle_job_def\<close>)

lemma coherent_turn_iff:
  assumes "jq_get (c_queue c) = Some (job, q)" and "\<And>r. job \<noteq> StopWorker r"
  shows "coherent spec (snd (worker_turn h c)) = coherent spec (snd (handle_job h job (c\<lparr>c_queue := q\<rparr>)))"
  using assms
  by (cases job) (auto simp: worker_turn_def Let_def record_worker_failure_def case_prod_beta split: sum.splits)

lemma coherent_preload_iff:
  "coherent spec (snd (handle_job h (PreloadKey j) c)) =
     (case pj_loader j of Inl e \<Rightarrow> coherent spec c
      | Inr v \<Rightarrow> coherent spec (snd (cache_put h (pj_key j) v (preload_ttl j) c)))"
  by (simp add: handle_job_def case_prod_beta split: sum.splits)

lemma coherent_worker_turn:
  assumes inv: "cache_inv h c" and co: "coherent spec c"
  shows "coherent (written h WorkerTurn c spec) (snd (worker_turn h c))"
proof (cases "jq_get (c_queue c)")
  case None
  then show ?thesis using co by (simp add: worker_turn_def)
next
  case (Some p)
  obtain job q where p: "p = (job, q)" by fastforce
  let ?c1 = "c\<lparr>c_queue := q\<rparr>"
  have "jq_inv q" and "jq_maxsize q = jq_maxsize (c_queue c)"
    using jq.inv_get [of "c_queue c" job q] inv Some p
    by (auto simp: cache_inv_def jq_get_def split: list.splits)
  then have inv1: "cache_inv h ?c1" using inv by (intro cache_inv_queue)
  have co1: "coherent spec ?c1" using co by simp
  show ?thesis
  proof (cases job)
    case (PreloadKey j)
    have "coherent (written h WorkerTurn c spec) (snd (handle_job h job ?c1))"
      using Some p PreloadKey co1 coherent_put_pair [OF inv1 co1, of "pj_key j" _ "preload_ttl j"]
      unfolding PreloadKey coherent_preload_iff by (simp split: sum.splits)
    then show ?thesis using coherent_turn_iff [of c job q] Some p PreloadKey by simp
  next
    case (StopWorker r)
    then show ?thesis using Some p co by (simp add: worker_turn_def Let_def)
  qed (use Some p coherent_turn_iff [of c job q] coherent_handle_job [OF inv1 co1, of job] in simp_all)
qed

lemma coherent_run_action:
  assumes inv: "cache_inv h c" and co: "coherent spec c"
  shows "coherent (written h a c spec) (run_action h a c)"
proof (cases a)
  case (Put k v ttl)
  then show ?thesis using coherent_put_pair [OF assms] by simp
next
  case (Delete k)
  then show ?thesis using coherent_delete [OF assms, of k] by simp
next
  case Clear
  then show ?thesis using coherent_clear [OF assms] by simp
next
  case (Dump limit)
  have "coherent spec (snd (cache_dump limit c))"
    unfolding cache_dump_def
    by (rule coherent_unless_closed [OF co]) (simp add: case_prod_beta dump_shards_coherent [OF inv _ co])
  then show ?thesis using Dump by simp
next
  case ExpireAll
  have "coherent spec (snd (cache_expire_all c))"
    unfolding cache_expire_all_def
    by (rule coherent_unless_closed [OF co]) (simp add: case_prod_beta expire_shards_coherent [OF inv _ co])
  then show ?thesis using ExpireAll by simp
next
  case (Inspect k)
  have "coherent spec (snd (on_shard (shard_for h c k) (inspect_locked (cache_now c) k) c))"
    by (rule coherent_on_shard [OF inv shard_for_less [OF inv] co]) (rule vals_kept_inspect)
  then have "coherent spec (snd (cache_inspect h k c))"
    unfolding cache_inspect_def by (intro coherent_unless_closed [OF co]) (simp add: case_prod_beta)
  then show ?thesis using Inspect by simp
next
  case (RestoreMetadata k n)
  have "coherent spec (snd (restore_entry_metadata h k n c))"
    unfolding restore_entry_metadata_def
    by (rule coherent_unless_closed [OF co])
       (simp add: Let_def coherent_kept [OF inv shard_for_less [OF inv] co]
          vals_kept_restore [OF cache_inv_shard [OF inv shard_for_less [OF inv]]])
  then show ?thesis using RestoreMetadata by simp
next
  case WorkerTurn
  then show ?thesis using coherent_worker_turn [OF assms] by simp
next
  case Start
  then show ?thesis using co coherent_cong [of "snd (cache_start c)" c spec] by simp
next
  case (Preload k l ttl)
  then show ?thesis
    using co by (auto simp: cache_preload_def unless_closed_def Let_def split: option.splits)
qed (use coherent_read_section [OF assms] co in
    \<open>simp_all add: cache_get_def cache_contains_def cache_size_def request_snapshot_def
      scheduler_tick_def unless_closed_def case_prod_beta split: option.splits\<close>)

lemma coherent_run:
  "cache_inv h c \<Longrightarrow> coherent spec c \<Longrightarrow> coherent (run_written h acts c spec) (run h acts c)"
proof (induction acts arbitrary: c spec)
  case (Cons a acts)
  then show ?case
    using coherent_run_action [of h c spec a] run_action_inv [of h c a] by (simp add: run_def)
qed (simp add: run_def)

section \<open>Reads\<close>

lemma read_value_result:
  "fst (read_value_locked t s now k sh) =
     (case dict_get (sh_backend sh) k of
        None \<Rightarrow> None | Some e \<Rightarrow> if is_expired now e then None else Some (ce_value e))"
  by (simp add: read_value_locked_def mem_get_entry_def Let_def split: option.splits)

text \<open>The entry a key has now, if it is alive.\<close>

definition lookup :: "('k \<Rightarrow> nat) \<Rightarrow> ('k, 'v) cache \<Rightarrow> 'k \<Rightarrow> ('k, 'v) cache_entry option" where
  "lookup h c k =
     (case dict_get (sh_backend (c_shards c ! shard_for h c k)) k of
        None \<Rightarrow> None | Some e \<Rightarrow> if is_expired (cache_now c) e then None else Some e)"

lemma cache_get_result:
  "c_state c \<notin> {CLOSED, CLOSING} \<Longrightarrow>
     fst (cache_get h k d c) = Inr (case lookup h c k of None \<Rightarrow> d | Some e \<Rightarrow> Some (ce_value e))"
  by (simp add: cache_get_def unless_closed_def require_not_closed_def read_section_def on_shard_def
      case_prod_beta read_value_result lookup_def split: option.splits)

lemma cache_contains_result:
  "c_state c \<notin> {CLOSED, CLOSING} \<Longrightarrow> fst (cache_contains h k c) = Inr (lookup h c k \<noteq> None)"
  by (simp add: cache_contains_def unless_closed_def require_not_closed_def read_section_def on_shard_def
      case_prod_beta read_value_result lookup_def split: option.splits)

lemma coherent_lookup:
  "cache_inv h c \<Longrightarrow> coherent spec c \<Longrightarrow> lookup h c k = Some e \<Longrightarrow> spec k = Some (ce_value e)"
  using shard_for_less [of h c k]
  by (auto simp: coherent_def sh_coherent_def lookup_def split: option.splits if_splits)

lemma coherent_init:
  assumes "cache_init config a source clock = Inr c" and "\<And>cfg. config = Some cfg \<Longrightarrow> config_valid cfg"
  shows "coherent spec c"
proof -
  obtain cfg mode shards where sh: "make_shards cfg 0 (shard_capacities (cfg_capacity cfg) (cfg_shard_count cfg)) =
      Inr shards" and c: "c_shards c = shards"
    using assms(1) by (auto simp: cache_init_def split: sum.splits)
  show ?thesis using make_shards_fresh [OF sh] c by (fastforce simp: coherent_def sh_coherent_def)
qed

end
