(* ===== verification/Write_Through.thy ===== *)
theory Write_Through
  imports Coherence
begin

text \<open>
  Write-through mode: the source of truth is written inside the shard's critical
  section, so every live cache entry has the value the source holds, whatever the
  history and whatever failures the source injects.
\<close>

section \<open>Fields the sections leave alone\<close>

lemma dump_shards_fields [simp]:
  "c_source (snd (dump_shards is snaps c)) = c_source c \<and> c_queue (snd (dump_shards is snaps c)) = c_queue c \<and>
   c_write_mode (snd (dump_shards is snaps c)) = c_write_mode c"
  by (induction "is" arbitrary: snaps c) (simp_all add: case_prod_beta)

lemma expire_shards_fields [simp]:
  "c_source (snd (expire_shards is n c)) = c_source c \<and> c_queue (snd (expire_shards is n c)) = c_queue c \<and>
   c_write_mode (snd (expire_shards is n c)) = c_write_mode c"
  by (induction "is" arbitrary: n c) (simp_all add: case_prod_beta expire_shard_def)

section \<open>The write-through invariant\<close>

definition no_flush_jobs :: "('k, 'v) cache \<Rightarrow> bool" where
  "no_flush_jobs c \<longleftrightarrow> (\<forall>j. FlushWriteBack j \<notin> set (jq_items (c_queue c)))"

definition wt_inv :: "('k, 'v) cache \<Rightarrow> bool" where
  "wt_inv c \<longleftrightarrow> c_write_mode c = WRITE_THROUGH \<and> no_flush_jobs c \<and>
     coherent (sd_contents (c_source c)) c"

lemma wt_put_locked:
  assumes "put_locked WRITE_THROUGH d n now k v ttl s sh = (r, s', sh')"
  shows "(r = Inl OSError \<and> sd_contents s' = sd_contents s) \<or>
    (r = Inr None \<and> sd_contents s' = (sd_contents s)(k \<mapsto> v))"
  using assms
  by (auto simp: put_locked_def case_prod_beta sd_defs Let_def fun_eq_iff split: sum.splits if_splits)

lemma wt_delete_locked:
  assumes "delete_locked WRITE_THROUGH n k s sh = (r, s', sh')"
  shows "(r = Inl OSError \<and> sd_contents s' = sd_contents s) \<or>
    (\<exists>b. r = Inr (b, None) \<and> sd_contents s' = (sd_contents s)(k := None))"
  using assms
  by (auto simp: delete_locked_def case_prod_beta sd_defs Let_def fun_eq_iff split: sum.splits if_splits)

lemma wt_put:
  assumes inv: "cache_inv h c" and wt: "wt_inv c"
  shows "wt_inv (snd (cache_put h k v ttl c))"
proof -
  let ?c1 = "maybe_warn_cache_not_started c"
  have inv1: "cache_inv h ?c1" and wt1: "wt_inv ?c1"
    using inv wt by (simp_all add: cache_inv_warn wt_inv_def no_flush_jobs_def)
  obtain r c2 where s: "put_section h k v ttl ?c1 = (r, c2)" by fastforce
  have "(r = Inl OSError \<and> sd_contents (c_source c2) = sd_contents (c_source c)) \<or>
      (r = Inr None \<and> sd_contents (c_source c2) = (sd_contents (c_source c))(k \<mapsto> v))"
    using s wt1 by (auto simp: put_section_def on_shard_source_def wt_inv_def split: prod.splits dest!: wt_put_locked)
  moreover have "c_queue c2 = c_queue c" and "c_write_mode c2 = WRITE_THROUGH"
    using s wt1 on_shard_fields(3,5) [of "shard_for h ?c1 k" _ ?c1]
    by (auto simp: put_section_def on_shard_source_def wt_inv_def split: prod.splits)
  moreover have "coherent (if isl r then sd_contents (c_source c) else (sd_contents (c_source c))(k \<mapsto> v)) c2"
    using coherent_put_section [OF inv1 _ s] wt1 by (simp add: wt_inv_def)
  ultimately have "wt_inv c2" and "r = Inl OSError \<or> r = Inr None"
    using wt by (auto simp: wt_inv_def no_flush_jobs_def)
  then show ?thesis
    using s wt wt1 by (auto simp: cache_put_def unless_closed_def Let_def split: option.splits)
qed

lemma wt_delete:
  assumes inv: "cache_inv h c" and wt: "wt_inv c"
  shows "wt_inv (snd (cache_delete h k c))"
proof -
  obtain r c2 where s: "delete_section h k c = (r, c2)" by fastforce
  have "(r = Inl OSError \<and> sd_contents (c_source c2) = sd_contents (c_source c)) \<or>
      (\<exists>b. r = Inr (b, None) \<and> sd_contents (c_source c2) = (sd_contents (c_source c))(k := None))"
    using s wt by (auto simp: delete_section_def on_shard_source_def wt_inv_def split: prod.splits dest!: wt_delete_locked)
  moreover have "c_queue c2 = c_queue c" and "c_write_mode c2 = WRITE_THROUGH"
    using s wt by (auto simp: delete_section_def on_shard_source_def wt_inv_def split: prod.splits)
  moreover have "coherent (if isl r then sd_contents (c_source c) else (sd_contents (c_source c))(k := None)) c2"
    using coherent_delete_section [OF inv _ s] wt by (simp add: wt_inv_def)
  ultimately have "wt_inv c2" and "isl r \<or> (\<exists>b. r = Inr (b, None))"
    using wt by (auto simp: wt_inv_def no_flush_jobs_def)
  then show ?thesis
    using s wt by (auto simp: cache_delete_def unless_closed_def split: option.splits sum.splits)
qed

lemma wt_clear_keys:
  assumes "clear_keys_locked WRITE_THROUGH n ks js s sh = (r, s', sh')" and "sh_coherent (sd_contents s) sh"
    and "set ks \<subseteq> K"
  shows "sh_coherent (sd_contents s') sh' \<and> (\<forall>k. k \<notin> K \<longrightarrow> sd_contents s' k = sd_contents s k) \<and>
    (\<forall>js'. r = Inr js' \<longrightarrow> js' = js)"
  using assms
proof (induction ks arbitrary: js s sh)
  case Nil
  then show ?case by auto
next
  case (Cons k ks)
  from Cons.prems(1) show ?case
  proof (cases rule: clear_keys_cases)
    case (refused e)
    then have "sd_contents s' = sd_contents s" by (auto dest: sd.delete_fail)
    with refused Cons.prems show ?thesis by auto
  next
    case (round js1 s1 sh1)
    then have js1: "js1 = js" and "sd_delete_value k s = (Inr (), s1)" by (simp_all add: clear_round_def)
    then have s1: "sd_contents s1 = (sd_contents s)(k := None)" by (auto dest: sd.delete_ok)
    have "sh_coherent (sd_contents s1) sh1"
      using Cons.prems(2) s1 clear_round_fields(1) [OF round(1)] by (simp add: sh_coherent_def)
    from Cons.IH [OF round(2) this] Cons.prems(3) s1 js1 show ?thesis by auto
  qed
qed

lemma wt_clear_section:
  assumes inv: "cache_inv h c" and wt: "wt_inv c" and i: "i < length (c_shards c)"
    and s: "clear_section i js c = (r, c')"
  shows "wt_inv c'" and "r = Inr js' \<Longrightarrow> js' = js"
proof -
  let ?sh = "c_shards c ! i" and ?n = "cfg_write_back_retry_count (c_config c)"
  obtain s' sh' where p: "clear_locked WRITE_THROUGH ?n js (c_source c) ?sh = (r, s', sh')"
    and c': "c' = (set_shard i sh' c)\<lparr>c_source := s'\<rparr>"
    using s wt by (auto simp: clear_section_def on_shard_source_def wt_inv_def split: prod.splits)
  obtain r1 sh1 where ck: "clear_keys_locked WRITE_THROUGH ?n (mem_keys (sh_backend ?sh)) js (c_source c) ?sh = (r1, s', sh1)"
    and same: "sh_backend sh' = sh_backend sh1" "r = r1"
    using p by (auto simp: clear_locked_def split: prod.splits sum.splits)
  have co: "coherent (sd_contents (c_source c)) c" using wt by (simp add: wt_inv_def)
  have W: "sh_coherent (sd_contents s') sh1 \<and> (\<forall>k. k \<notin> sh_live ?sh \<longrightarrow> sd_contents s' k = sd_contents (c_source c) k) \<and>
      (\<forall>js'. r1 = Inr js' \<longrightarrow> js' = js)"
    by (rule wt_clear_keys [OF ck]) (use co i in \<open>simp_all add: coherent_def mem_keys_def\<close>)
  then show "r = Inr js' \<Longrightarrow> js' = js" using same by simp
  have "\<forall>k \<in> sh_live ?sh. h k mod length (c_shards c) = i"
    using inv i by (simp add: cache_inv_def shard_at_def)
  then have "sd_contents s' k = sd_contents (c_source c) k" if "h k mod length (c_shards c) \<noteq> i" for k
    using W that by blast
  moreover have "sh_coherent (sd_contents s') sh'" using W same by (simp add: sh_coherent_def)
  ultimately have "coherent (sd_contents s') (set_shard i sh' c)"
    by (intro coherent_set_shard [OF inv i co])
  then show "wt_inv c'" using wt c' by (simp add: wt_inv_def no_flush_jobs_def)
qed

lemma wt_clear_shards:
  assumes "cache_inv h c" and "wt_inv c" and "\<forall>i \<in> set is. i < length (c_shards c)"
    and "clear_shards is [] c = (r, c')"
  shows "wt_inv c' \<and> (\<forall>js. r = Inr js \<longrightarrow> js = [])"
  using assms
proof (induction "is" arbitrary: c)
  case (Cons i "is")
  have i: "i < length (c_shards c)" using Cons.prems(3) by simp
  obtain r1 c1 where s: "clear_section i [] c = (r1, c1)" by fastforce
  note C = wt_clear_section [OF Cons.prems(1,2) i s]
  have inv1: "cache_inv h c1" using clear_section_inv [OF Cons.prems(1) i, of "[]"] s by simp
  have "length (c_shards c1) = length (c_shards c)"
    using section_shape(3) [of c i "[]"] s by (simp add: same_shape_def)
  with Cons.IH [OF inv1 C(1)] Cons.prems(3,4) s C show ?case by (cases r1) auto
qed auto

lemma wt_clear:
  assumes "cache_inv h c" and "wt_inv c"
  shows "wt_inv (snd (cache_clear c))"
proof -
  obtain r c1 where s: "clear_shards [0..<length (c_shards c)] [] c = (r, c1)" by fastforce
  have "wt_inv c1 \<and> (\<forall>js. r = Inr js \<longrightarrow> js = [])" using wt_clear_shards [OF assms _ s] by simp
  with s assms(2) show ?thesis
    by (cases r; cases "require_not_closed c") (simp_all add: cache_clear_def unless_closed_def)
qed

lemma wt_cong:
  assumes "wt_inv c" and "coherent (sd_contents (c_source c)) c'" and "c_source c' = c_source c"
    and "c_write_mode c' = c_write_mode c" and "\<And>j. FlushWriteBack j \<in> set (jq_items (c_queue c')) \<Longrightarrow>
      FlushWriteBack j \<in> set (jq_items (c_queue c))"
  shows "wt_inv c'"
  using assms by (auto simp: wt_inv_def no_flush_jobs_def)

lemma tick_jobs_no_flush:
  "FlushWriteBack j \<in> set (jq_items (tick_jobs is q)) \<longleftrightarrow> FlushWriteBack j \<in> set (jq_items q)"
  by (induction "is" arbitrary: q) simp_all

lemma wt_irrelevant [simp]:
  "wt_inv (task_done c) = wt_inv c" "wt_inv (inc_runtime f c) = wt_inv c"
  "wt_inv (c\<lparr>c_last_snapshot := l\<rparr>) = wt_inv c" "wt_inv (c\<lparr>c_clock := cl\<rparr>) = wt_inv c"
  by (simp_all add: wt_inv_def no_flush_jobs_def)

lemma wt_handle_job:
  assumes inv: "cache_inv h c" and wt: "wt_inv c" and "\<And>j. job \<noteq> FlushWriteBack j"
  shows "wt_inv (snd (handle_job h job c))"
proof (cases job)
  case (ExpireShard i)
  have "wt_inv (snd (expire_shard i c))" if "i < length (c_shards c)"
    by (rule wt_cong [OF wt])
       (use inv wt that in \<open>simp_all add: expire_shard_def coherent_on_shard vals_kept_expire wt_inv_def\<close>)
  with ExpireShard wt show ?thesis by (simp add: handle_job_def)
next
  case (PreloadKey j)
  then show ?thesis
    using wt wt_put [OF inv wt, of "pj_key j" _ "preload_ttl j"]
    by (auto simp: handle_job_def case_prod_beta split: sum.splits)
qed (use assms in \<open>simp_all add: handle_job_def\<close>)

lemma wt_worker_turn:
  assumes inv: "cache_inv h c" and wt: "wt_inv c"
  shows "wt_inv (snd (worker_turn h c))"
proof (cases "jq_get (c_queue c)")
  case None
  then show ?thesis using wt by (simp add: worker_turn_def)
next
  case (Some p)
  obtain job q where p: "p = (job, q)" by fastforce
  let ?c1 = "c\<lparr>c_queue := q\<rparr>"
  have "jq_inv q" and "jq_maxsize q = jq_maxsize (c_queue c)" and items: "jq_items (c_queue c) = job # jq_items q"
    using jq.inv_get [of "c_queue c" job q] inv Some p
    by (auto simp: cache_inv_def jq_get_def split: list.splits)
  then have inv1: "cache_inv h ?c1" using inv by (intro cache_inv_queue)
  have wt1: "wt_inv ?c1" and nf: "\<And>j. job \<noteq> FlushWriteBack j"
    using wt items by (auto simp: wt_inv_def no_flush_jobs_def)
  show ?thesis
    using Some p wt1 wt_handle_job [OF inv1 wt1 nf]
    by (auto simp: worker_turn_def Let_def record_worker_failure_def case_prod_beta split: job.splits sum.splits)
qed

text \<open>An action that writes no value leaves the source alone and enqueues no flush job.\<close>

definition quiet :: "('k, 'v) cache \<Rightarrow> ('k, 'v) cache \<Rightarrow> bool" where
  "quiet c c' \<longleftrightarrow> c_source c' = c_source c \<and> c_write_mode c' = c_write_mode c \<and>
     (\<forall>j. FlushWriteBack j \<in> set (jq_items (c_queue c')) \<longrightarrow> FlushWriteBack j \<in> set (jq_items (c_queue c)))"

lemma quiet_simps [simp]:
  "quiet c c" "quiet c (snd (on_shard i f c))" "quiet c (set_shard i sh c)" "quiet c (c\<lparr>c_clock := cl\<rparr>)"
  "quiet c (tick_once c)" "quiet c (snd (dump_shards is snaps c))" "quiet c (snd (expire_shards is n c))"
  "quiet c (snd (enqueue_job (PreloadKey pj) b c'))  = quiet c c'"
  "quiet c (snd (enqueue_job (SnapshotStats r) b c)) = quiet c c"
  "quiet c (maybe_warn_cache_not_started c)" "quiet c (snd (cache_start c))"
  by (auto simp: quiet_def tick_once_def tick_jobs_no_flush)

lemma quiet_unless_closed: "quiet c (snd body) \<Longrightarrow> quiet c (snd (unless_closed c body))"
  by (simp add: unless_closed_def split: option.splits)

lemma quiet_action:
  assumes "\<And>k v ttl. a \<noteq> Put k v ttl" and "\<And>k. a \<noteq> Delete k" and "a \<noteq> Clear" and "a \<noteq> WorkerTurn"
  shows "quiet c (run_action h a c)"
proof (cases a)
  case (Preload k l ttl)
  then show ?thesis
    by (simp add: cache_preload_def, intro quiet_unless_closed) (simp add: Let_def split: option.splits)
next
  case (RequestSnapshot r)
  then show ?thesis
    by (simp add: request_snapshot_def, intro quiet_unless_closed) (simp split: option.splits)
qed (use assms in \<open>simp_all add: cache_get_def cache_contains_def cache_size_def cache_inspect_def
      cache_dump_def cache_expire_all_def restore_entry_metadata_def scheduler_tick_def read_section_def
      Let_def case_prod_beta quiet_unless_closed\<close>)

lemma written_quiet:
  assumes "\<And>k v ttl. a \<noteq> Put k v ttl" and "\<And>k. a \<noteq> Delete k" and "a \<noteq> Clear" and "a \<noteq> WorkerTurn"
  shows "written h a c spec = spec"
  using assms by (cases a) auto

lemma wt_run_action:
  assumes inv: "cache_inv h c" and wt: "wt_inv c"
  shows "wt_inv (run_action h a c)"
proof (cases "(\<forall>k v ttl. a \<noteq> Put k v ttl) \<and> (\<forall>k. a \<noteq> Delete k) \<and> a \<noteq> Clear \<and> a \<noteq> WorkerTurn")
  case True
  have co: "coherent (sd_contents (c_source c)) c" using wt by (simp add: wt_inv_def)
  have "coherent (sd_contents (c_source c)) (run_action h a c)"
    using coherent_run_action [OF inv co, of a] written_quiet [of a h c] True by simp
  then show ?thesis
    using quiet_action [of a c h] True by (intro wt_cong [OF wt]) (auto simp: quiet_def)
next
  case False
  then show ?thesis
    using wt_put [OF assms] wt_delete [OF assms] wt_clear [OF assms] wt_worker_turn [OF assms] by auto
qed

lemma wt_run: "cache_inv h c \<Longrightarrow> wt_inv c \<Longrightarrow> wt_inv (run h acts c)"
proof (induction acts arbitrary: c)
  case (Cons a acts)
  then show ?case using wt_run_action [of h c a] run_action_inv [of h c a] by (simp add: run_def)
qed (simp add: run_def)

lemma wt_init:
  assumes "cache_init config a source clock = Inr c" and "\<And>cfg. config = Some cfg \<Longrightarrow> config_valid cfg"
    and "c_write_mode c = WRITE_THROUGH"
  shows "wt_inv c"
  using assms(1,3) coherent_init [OF assms(1,2)]
  by (auto simp: wt_inv_def no_flush_jobs_def cache_init_def jq_init_def split: sum.splits)

end
