(* ===== verification/Write_Back.thy ===== *)
theory Write_Back
  imports Coherence "HOL-Library.Multiset"
begin

text \<open>
  Write-back mode as a concurrent system. A state holds the cache, the flush jobs that
  client calls have registered but not yet enqueued, the phase of each worker thread,
  and two ghost fields: the value last written to each key, and the keys whose latest
  write was reported as not durable (a rejected enqueue or an abandoned flush). A step is
  one critical section of \<open>core/cache.py\<close>, so a history may interleave any number of client
  threads with the workers at lock granularity.
\<close>

section \<open>States\<close>

text \<open>
  Phases of \<open>_flush_write_back_job\<close>: taken from the queue, found not stale, written to
  the source, refused by the source, given up.
\<close>

datatype ('k, 'v) worker =
    Idle
  | Taken "('k, 'v) flush_job"
  | Checked "('k, 'v) flush_job"
  | Applied "('k, 'v) flush_job"
  | Refused "('k, 'v) flush_job"
  | Abandoned "('k, 'v) flush_job"

fun held :: "('k, 'v) worker \<Rightarrow> ('k, 'v) flush_job multiset" where
  "held Idle = {#}"
| "held (Taken j) = {#j#}"
| "held (Checked j) = {#j#}"
| "held (Applied j) = {#j#}"
| "held (Refused j) = {#j#}"
| "held (Abandoned j) = {#j#}"

text \<open>
  A client call in \<open>_enqueue_flush_jobs\<close>: whether an enqueue was rejected, so that the
  remaining jobs are being released, and the remaining jobs.
\<close>

type_synonym ('k, 'v) client = "bool \<times> ('k, 'v) flush_job list"

record ('k, 'v) system =
  sy_cache :: "('k, 'v) cache"
  sy_clients :: "('k, 'v) client list"
  sy_workers :: "('k, 'v) worker list"
  sy_spec :: "'k \<Rightarrow> 'v option"
  sy_lost :: "'k set"

fun flush_items :: "('k, 'v) job list \<Rightarrow> ('k, 'v) flush_job list" where
  "flush_items [] = []"
| "flush_items (FlushWriteBack j # js) = j # flush_items js"
| "flush_items (_ # js) = flush_items js"

definition outstanding :: "('k, 'v) system \<Rightarrow> ('k, 'v) flush_job multiset" where
  "outstanding s = mset (flush_items (jq_items (c_queue (sy_cache s)))) +
     mset (concat (map snd (sy_clients s))) + sum_list (map held (sy_workers s))"

definition wb_start :: "nat \<Rightarrow> ('k, 'v) cache \<Rightarrow> ('k, 'v) system" where
  "wb_start n c = \<lparr>sy_cache = c, sy_clients = [], sy_workers = replicate n Idle,
     sy_spec = sd_contents (c_source c), sy_lost = {}\<rparr>"

section \<open>Steps\<close>

text \<open>Sections that write no value: reads, lazy and active expiry, diagnostics.\<close>

inductive quiet_section :: "time \<Rightarrow> ('k, 'v) shard \<Rightarrow> ('k, 'v) shard \<Rightarrow> bool" for now where
  read: "quiet_section now sh (snd (read_value_locked t cs now k sh))"
| inspect: "quiet_section now sh (snd (inspect_locked now k sh))"
| dump: "quiet_section now sh (snd (dump_entries_locked now (mem_entries (sh_backend sh)) snaps sh))"
| expire: "quiet_section now sh (snd (expire_shard_locked now sh))"
| restore: "quiet_section now sh (restore_hit_count_locked k n sh)"

inductive wb_step :: "('k \<Rightarrow> nat) \<Rightarrow> ('k, 'v) system \<Rightarrow> ('k, 'v) system \<Rightarrow> bool" for h where
  put: "put_section h k v ttl (sy_cache s) = (Inr (Some j), c) \<Longrightarrow>
     wb_step h s (s\<lparr>sy_cache := c, sy_clients := sy_clients s @ [(False, [j])],
                    sy_spec := (sy_spec s)(k \<mapsto> v), sy_lost := sy_lost s - {k}\<rparr>)"
| delete: "delete_section h k (sy_cache s) = (Inr (existed, Some j), c) \<Longrightarrow>
     wb_step h s (s\<lparr>sy_cache := c, sy_clients := sy_clients s @ [(False, [j])],
                    sy_spec := (sy_spec s)(k := None), sy_lost := sy_lost s - {k}\<rparr>)"
| clear_call: "wb_step h s (s\<lparr>sy_clients := sy_clients s @ [(False, [])]\<rparr>)"
| clear: "p < length (sy_clients s) \<Longrightarrow> sy_clients s ! p = (False, jobs) \<Longrightarrow>
     i < length (c_shards (sy_cache s)) \<Longrightarrow> clear_section i jobs (sy_cache s) = (Inr jobs', c) \<Longrightarrow>
     wb_step h s (s\<lparr>sy_cache := c, sy_clients := (sy_clients s)[p := (False, jobs')],
                    sy_spec := (\<lambda>k. if k \<in> sh_live (c_shards (sy_cache s) ! i) then None else sy_spec s k),
                    sy_lost := sy_lost s - sh_live (c_shards (sy_cache s) ! i)\<rparr>)"
| quiet: "i < length (c_shards (sy_cache s)) \<Longrightarrow>
     quiet_section (cache_now (sy_cache s)) (c_shards (sy_cache s) ! i) sh \<Longrightarrow>
     wb_step h s (s\<lparr>sy_cache := set_shard i sh (sy_cache s)\<rparr>)"
| clock: "wb_step h s (s\<lparr>sy_cache := (sy_cache s)\<lparr>c_clock := cl\<rparr>\<rparr>)"
| enqueue_other: "(\<And>j. job \<noteq> FlushWriteBack j) \<Longrightarrow>
     wb_step h s (s\<lparr>sy_cache := snd (enqueue_job job critical (sy_cache s))\<rparr>)"
| enqueue: "p < length (sy_clients s) \<Longrightarrow> sy_clients s ! p = (False, j # js) \<Longrightarrow>
     enqueue_job (FlushWriteBack j) True (sy_cache s) = (Inr ok, c) \<Longrightarrow>
     wb_step h s (s\<lparr>sy_cache := c, sy_clients := (sy_clients s)[p := (False, js)]\<rparr>)"
| reject: "p < length (sy_clients s) \<Longrightarrow> sy_clients s ! p = (False, j # js) \<Longrightarrow>
     enqueue_job (FlushWriteBack j) True (sy_cache s) = (Inl e, c) \<Longrightarrow>
     wb_step h s (s\<lparr>sy_cache := c, sy_clients := (sy_clients s)[p := (True, j # js)]\<rparr>)"
| release: "p < length (sy_clients s) \<Longrightarrow> sy_clients s ! p = (True, j # js) \<Longrightarrow>
     wb_step h s (s\<lparr>sy_cache := resolve_pending (fj_shard_index j) (fj_key j) (sy_cache s),
                    sy_clients := (sy_clients s)[p := (True, js)],
                    sy_lost := insert (fj_key j) (sy_lost s)\<rparr>)"
| take_other: "jq_get (c_queue (sy_cache s)) = Some (job, q) \<Longrightarrow> (\<And>j. job \<noteq> FlushWriteBack j) \<Longrightarrow>
     wb_step h s (s\<lparr>sy_cache := task_done ((sy_cache s)\<lparr>c_queue := q\<rparr>)\<rparr>)"
| take: "w < length (sy_workers s) \<Longrightarrow> sy_workers s ! w = Idle \<Longrightarrow>
     jq_get (c_queue (sy_cache s)) = Some (FlushWriteBack j, q) \<Longrightarrow>
     wb_step h s (s\<lparr>sy_cache := (sy_cache s)\<lparr>c_queue := q\<rparr>,
                    sy_workers := (sy_workers s)[w := Taken j]\<rparr>)"
| stale: "w < length (sy_workers s) \<Longrightarrow> sy_workers s ! w = Taken j \<Longrightarrow>
     flush_check j (sy_cache s) = (True, c) \<Longrightarrow>
     wb_step h s (s\<lparr>sy_cache := task_done (inc_runtime ''worker_jobs_completed'' c),
                    sy_workers := (sy_workers s)[w := Idle]\<rparr>)"
| fresh: "w < length (sy_workers s) \<Longrightarrow> sy_workers s ! w = Taken j \<Longrightarrow>
     flush_check j (sy_cache s) = (False, c) \<Longrightarrow>
     wb_step h s (s\<lparr>sy_cache := c, sy_workers := (sy_workers s)[w := Checked j]\<rparr>)"
| store: "w < length (sy_workers s) \<Longrightarrow> sy_workers s ! w = Checked j \<Longrightarrow>
     flush_apply j (sy_cache s) = (Inr u, c) \<Longrightarrow>
     wb_step h s (s\<lparr>sy_cache := c, sy_workers := (sy_workers s)[w := Applied j]\<rparr>)"
| refuse: "w < length (sy_workers s) \<Longrightarrow> sy_workers s ! w = Checked j \<Longrightarrow>
     flush_apply j (sy_cache s) = (Inl e, c) \<Longrightarrow>
     wb_step h s (s\<lparr>sy_cache := c, sy_workers := (sy_workers s)[w := Refused j]\<rparr>)"
| finish: "w < length (sy_workers s) \<Longrightarrow> sy_workers s ! w = Applied j \<Longrightarrow>
     wb_step h s (s\<lparr>sy_cache := task_done (inc_runtime ''worker_jobs_completed'' (flush_finish j (sy_cache s))),
                    sy_workers := (sy_workers s)[w := Idle]\<rparr>)"
| retry: "w < length (sy_workers s) \<Longrightarrow> sy_workers s ! w = Refused j \<Longrightarrow> 0 < fj_retries_left j \<Longrightarrow>
     enqueue_job (FlushWriteBack (retry_job j)) True (inc_runtime ''write_back_retries'' (sy_cache s)) = (Inr ok, c) \<Longrightarrow>
     wb_step h s (s\<lparr>sy_cache := task_done (inc_runtime ''worker_jobs_completed'' c),
                    sy_workers := (sy_workers s)[w := Idle]\<rparr>)"
| retry_full: "w < length (sy_workers s) \<Longrightarrow> sy_workers s ! w = Refused j \<Longrightarrow> 0 < fj_retries_left j \<Longrightarrow>
     enqueue_job (FlushWriteBack (retry_job j)) True (inc_runtime ''write_back_retries'' (sy_cache s)) = (Inl e, c) \<Longrightarrow>
     wb_step h s (s\<lparr>sy_cache := c, sy_workers := (sy_workers s)[w := Abandoned j]\<rparr>)"
| no_retry: "w < length (sy_workers s) \<Longrightarrow> sy_workers s ! w = Refused j \<Longrightarrow> \<not> 0 < fj_retries_left j \<Longrightarrow>
     wb_step h s (s\<lparr>sy_workers := (sy_workers s)[w := Abandoned j]\<rparr>)"
| give_up: "w < length (sy_workers s) \<Longrightarrow> sy_workers s ! w = Abandoned j \<Longrightarrow>
     wb_step h s (s\<lparr>sy_cache := task_done (inc_runtime ''worker_jobs_failed'' (flush_give_up j (sy_cache s))),
                    sy_workers := (sy_workers s)[w := Idle],
                    sy_lost := insert (fj_key j) (sy_lost s)\<rparr>)"

inductive_cases quiet_sectionE: "quiet_section now sh sh'"

section \<open>The invariant of one key\<close>

definition job_op_ok :: "('k, 'v) flush_job \<Rightarrow> bool" where
  "job_op_ok j \<longleftrightarrow> (fj_operation j = ''put'' \<and> fj_value j \<noteq> None) \<or>
     (fj_operation j = ''delete'' \<and> fj_value j = None)"

abbreviation mark_of :: "('k, 'v) shard \<Rightarrow> 'k \<Rightarrow> nat" where
  "mark_of sh k \<equiv> dict_get0 (sh_version_marks sh) k"

text \<open>An outstanding job of the key's current version.\<close>

definition current_job :: "('k, 'v) shard \<Rightarrow> ('k, 'v) flush_job multiset \<Rightarrow> 'k \<Rightarrow> bool" where
  "current_job sh J k \<longleftrightarrow> (\<exists>j \<in># J. fj_key j = k \<and> fj_version j = mark_of sh k)"

definition all_dirty :: "('k, 'v) shard \<Rightarrow> 'k \<Rightarrow> bool" where
  "all_dirty sh k \<longleftrightarrow> (\<forall>e. dict_get (sh_backend sh) k = Some e \<longrightarrow> ce_dirty e)"

definition jobs_match :: "('k, 'v) shard \<Rightarrow> ('k, 'v) flush_job multiset \<Rightarrow> 'v option \<Rightarrow> 'k \<Rightarrow> bool" where
  "jobs_match sh J pv k \<longleftrightarrow>
     dict_get0 (sh_pending_flushes sh) k = size (filter_mset (\<lambda>j. fj_key j = k) J) \<and>
     (\<forall>j \<in># J. fj_key j = k \<longrightarrow> fj_version j \<le> mark_of sh k \<and>
        (fj_version j = mark_of sh k \<longrightarrow> fj_value j = pv \<and>
           dict_get (sh_tombstones sh) k =
             (if fj_operation j = ''put'' then None else Some (fj_version j))))"

definition entry_matches :: "('k, 'v) shard \<Rightarrow> 'v option \<Rightarrow> 'v option \<Rightarrow> 'k \<Rightarrow> bool" where
  "entry_matches sh sv pv k \<longleftrightarrow>
     (\<forall>e. dict_get (sh_backend sh) k = Some e \<longrightarrow>
        pv = Some (ce_value e) \<and> (\<not> ce_dirty e \<longrightarrow> sv = pv))"

definition worker_matches ::
  "('k, 'v) shard \<Rightarrow> ('k, 'v) flush_job multiset \<Rightarrow> 'v option \<Rightarrow> bool \<Rightarrow> 'k \<Rightarrow> ('k, 'v) worker \<Rightarrow> bool" where
  "worker_matches sh J sv lost k w \<longleftrightarrow>
     (case w of
        Checked j \<Rightarrow> fj_key j = k \<longrightarrow> fj_version j = mark_of sh k \<or>
          (lost \<or> current_job sh J k) \<and> all_dirty sh k
      | Applied j \<Rightarrow> fj_key j = k \<longrightarrow> sv = fj_value j
      | _ \<Rightarrow> True)"

text \<open>
  \<open>sv\<close> and \<open>pv\<close> are the values of the key in the source of truth and in the map of
  written values.
\<close>

definition wb_key ::
  "('k, 'v) shard \<Rightarrow> ('k, 'v) flush_job multiset \<Rightarrow> 'v option \<Rightarrow> 'v option \<Rightarrow> bool \<Rightarrow>
     ('k, 'v) worker \<Rightarrow> 'k \<Rightarrow> bool" where
  "wb_key sh J sv pv lost w k \<longleftrightarrow> jobs_match sh J pv k \<and> entry_matches sh sv pv k \<and>
     worker_matches sh J sv lost k w \<and> (lost \<or> sv = pv \<or> current_job sh J k)"

lemmas wb_key_defs = wb_key_def jobs_match_def entry_matches_def worker_matches_def current_job_def
  all_dirty_def

section \<open>Framing\<close>

lemma size_filter_0: "size (filter_mset P J) = 0 \<longleftrightarrow> (\<forall>j \<in># J. \<not> P j)"
  by (induction J) auto

lemma wb_key_frame:
  assumes wb: "wb_key sh J sv pv lost w k" and f: "key_frame k sh sh'" and w: "held w \<subseteq># J"
  shows "wb_key sh' J sv pv lost w k"
proof -
  let ?n = "size (filter_mset (\<lambda>j. fj_key j = k) J)"
  have pend: "dict_get0 (sh_pending_flushes sh') k = ?n" "dict_get0 (sh_pending_flushes sh) k = ?n"
    using wb f by (auto simp: wb_key_def jobs_match_def key_frame_def)
  have entry: "\<exists>e. dict_get (sh_backend sh) k = Some e \<and> ce_value e' = ce_value e \<and> ce_dirty e' = ce_dirty e"
    if "dict_get (sh_backend sh') k = Some e'" for e'
    using f that unfolding key_frame_def by blast
  have ent: "entry_matches sh' sv pv k" and dirty: "all_dirty sh k \<Longrightarrow> all_dirty sh' k"
    using wb entry unfolding wb_key_def entry_matches_def all_dirty_def by fastforce+
  show ?thesis
  proof (cases "?n = 0")
    case True
    then have none: "\<And>j. j \<in># J \<Longrightarrow> fj_key j \<noteq> k" by (simp add: size_filter_0)
    have "worker_matches sh' J sv lost k w"
      using w none by (cases w) (auto simp: worker_matches_def)
    then show ?thesis
      using wb pend ent none unfolding wb_key_def jobs_match_def current_job_def by auto
  next
    case False
    then have m: "mark_of sh' k = mark_of sh k" "dict_get (sh_tombstones sh') k = dict_get (sh_tombstones sh) k"
      using f pend unfolding key_frame_def by auto
    have "worker_matches sh' J sv lost k w"
      using wb dirty m by (cases w) (auto simp: wb_key_def worker_matches_def current_job_def)
    then show ?thesis
      using wb pend ent m unfolding wb_key_def jobs_match_def current_job_def by auto
  qed
qed

lemma wb_key_other_job:
  "fj_key j \<noteq> k \<Longrightarrow> wb_key sh (add_mset j J) sv pv lost w k = wb_key sh J sv pv lost w k"
  by (auto simp: wb_key_defs split: worker.splits)

lemma wb_key_other_worker:
  assumes "\<And>j. w' = Checked j \<or> w' = Applied j \<Longrightarrow> fj_key j \<noteq> k" and "wb_key sh J sv pv lost w k"
  shows "wb_key sh J sv pv lost w' k"
  using assms by (cases w') (auto simp: wb_key_def worker_matches_def)

lemma wb_key_idle: "wb_key sh J sv pv lost w k \<Longrightarrow> wb_key sh J sv pv lost Idle k"
  by (rule wb_key_other_worker) auto

lemma wb_key_lost: "wb_key sh J sv pv lost w k \<Longrightarrow> (lost \<Longrightarrow> lost') \<Longrightarrow> wb_key sh J sv pv lost' w k"
  by (cases w) (auto simp: wb_key_def worker_matches_def)

section \<open>Resolving a job\<close>

lemma key_frame_resolve: "j \<noteq> k \<Longrightarrow> key_frame j sh (resolve_pending_locked k sh)"
  by (simp add: key_frame_def resolve_pending_locked_def maybe_prune_marks_locked_def Let_def)

lemma resolve_marks:
  assumes "dict_get0 (sh_pending_flushes sh) k = Suc n" and "n \<noteq> 0"
  shows "sh_version_marks (resolve_pending_locked k sh) = sh_version_marks sh"
    and "sh_tombstones (resolve_pending_locked k sh) = sh_tombstones sh"
  using assms by (simp_all add: resolve_pending_locked_def maybe_prune_marks_locked_def Let_def)

text \<open>
  A job may be resolved when it is not current, when its value is in the source, or when
  the loss is reported.
\<close>

lemma wb_key_resolve:
  assumes wb: "wb_key sh (add_mset j J) sv pv lost w k" and k: "fj_key j = k" and w: "held w \<subseteq># J"
    and ok: "lost \<or> w = Idle \<and> (sv = pv \<or> fj_version j \<noteq> mark_of sh k)"
  shows "wb_key (resolve_pending_locked k sh) J sv pv lost w k"
proof -
  let ?n = "size (filter_mset (\<lambda>j. fj_key j = k) J)" and ?sh' = "resolve_pending_locked k sh"
  have pend: "dict_get0 (sh_pending_flushes sh) k = Suc ?n"
    using wb k by (simp add: wb_key_def jobs_match_def)
  then have pend': "dict_get0 (sh_pending_flushes ?sh') k = ?n"
    by (simp add: resolve_pending_locked_def Let_def)
  have cur: "lost \<or> sv = pv \<or> current_job sh J k"
    using wb ok k by (auto simp: wb_key_def current_job_def)
  have same: "sh_backend ?sh' = sh_backend sh" by simp
  show ?thesis
  proof (cases "?n = 0")
    case True
    then have none: "\<And>j. j \<in># J \<Longrightarrow> fj_key j \<noteq> k" by (simp add: size_filter_0)
    have "worker_matches ?sh' J sv lost k w" using w none by (cases w) (auto simp: worker_matches_def)
    then show ?thesis
      using wb pend' cur same none
      unfolding wb_key_def jobs_match_def entry_matches_def current_job_def by auto
  next
    case False
    then have m: "mark_of ?sh' k = mark_of sh k" "sh_tombstones ?sh' = sh_tombstones sh"
      using resolve_marks [OF pend] by simp_all
    have "worker_matches ?sh' J sv lost k w"
      using wb ok m same by (cases w) (auto simp: wb_key_def worker_matches_def all_dirty_def)
    then show ?thesis
      using wb pend' cur same m
      unfolding wb_key_def jobs_match_def entry_matches_def current_job_def by auto
  qed
qed

section \<open>Writing a key\<close>

text \<open>A write section gives the key a new version and one new current job.\<close>

lemma wb_key_write:
  assumes wb: "wb_key sh J sv pv lost w k" and w: "held w \<subseteq># J"
    and pend: "dict_get0 (sh_pending_flushes sh') k = Suc (dict_get0 (sh_pending_flushes sh) k)"
    and mark: "fj_version j = mark_of sh' k"
      "0 < dict_get0 (sh_pending_flushes sh) k \<Longrightarrow> mark_of sh k < mark_of sh' k"
    and j: "fj_key j = k" "fj_value j = pv'"
      "dict_get (sh_tombstones sh') k = (if fj_operation j = ''put'' then None else Some (fj_version j))"
    and ent: "\<And>e. dict_get (sh_backend sh') k = Some e \<Longrightarrow> pv' = Some (ce_value e) \<and> ce_dirty e"
  shows "wb_key sh' (add_mset j J) sv pv' False w k"
proof -
  have old: "fj_version i < mark_of sh' k" if "i \<in># J" "fj_key i = k" for i
  proof -
    have "0 < size (filter_mset (\<lambda>j. fj_key j = k) J)"
      using that by (metis (mono_tags, lifting) size_filter_0 gr0I)
    then have "0 < dict_get0 (sh_pending_flushes sh) k"
      using wb by (simp add: wb_key_def jobs_match_def)
    then show ?thesis using mark(2) wb that by (fastforce simp: wb_key_def jobs_match_def)
  qed
  have "jobs_match sh' (add_mset j J) pv' k"
    using wb pend j mark(1) old unfolding wb_key_def jobs_match_def by fastforce
  moreover have "entry_matches sh' sv pv' k" and "all_dirty sh' k"
    using ent by (auto simp: entry_matches_def all_dirty_def)
  moreover have cur: "current_job sh' (add_mset j J) k" using j(1) mark(1) by (auto simp: current_job_def)
  moreover have "worker_matches sh' (add_mset j J) sv False k w"
    using cur \<open>all_dirty sh' k\<close> wb by (cases w) (auto simp: worker_matches_def wb_key_def)
  ultimately show ?thesis by (simp add: wb_key_def)
qed

end
