(* ===== verification/Write_Back_Inv.thy ===== *)
theory Write_Back_Inv
  imports Write_Back
begin

text \<open>
  The invariant of the write-back system with one worker, and its preservation by every
  step: outstanding counts are exact, jobs of a key's current version carry the value
  last written, clean entries are durable, and a write that is neither in the source
  nor outstanding has been reported as lost.
\<close>

section \<open>The keys of one shard\<close>

definition sh_wb ::
  "'k set \<Rightarrow> ('k, 'v) shard \<Rightarrow> ('k, 'v) flush_job multiset \<Rightarrow> ('k \<Rightarrow> 'v option) \<Rightarrow> ('k \<Rightarrow> 'v option) \<Rightarrow>
     'k set \<Rightarrow> ('k, 'v) worker \<Rightarrow> bool" where
  "sh_wb R sh J src spec lost w \<longleftrightarrow> held w \<subseteq># J \<and>
     (\<forall>k \<in> R. wb_key sh J (src k) (spec k) (k \<in> lost) w k)"

lemma sh_wb_frame:
  assumes "sh_wb R sh J src spec lost w" and "\<And>k. key_frame k sh sh'"
  shows "sh_wb R sh' J src spec lost w"
  using assms wb_key_frame [OF _ assms(2)] by (auto simp: sh_wb_def)

text \<open>A write section of key \<open>k\<close> that frames all the others.\<close>

lemma sh_wb_write:
  assumes wb: "sh_wb R sh J src spec lost w" and frame: "\<And>i. i \<noteq> k \<Longrightarrow> key_frame i sh sh'"
    and j: "fj_key j = k"
    and key: "wb_key sh J (src k) (spec k) (k \<in> lost) w k \<Longrightarrow> wb_key sh' (add_mset j J) (src k) pv False w k"
  shows "sh_wb R sh' (add_mset j J) src (spec(k := pv)) (lost - {k}) w"
  unfolding sh_wb_def
proof (intro conjI ballI)
  show "held w \<subseteq># add_mset j J"
    using wb by (auto simp: sh_wb_def intro: subset_mset.order_trans)
  fix i
  assume i: "i \<in> R"
  then have wi: "wb_key sh J (src i) (spec i) (i \<in> lost) w i" using wb by (simp add: sh_wb_def)
  show "wb_key sh' (add_mset j J) (src i) ((spec(k := pv)) i) (i \<in> lost - {k}) w i"
  proof (cases "i = k")
    case True
    then show ?thesis using key wi by simp
  next
    case False
    then show ?thesis
      using wb_key_frame [OF wi frame] wb j by (simp add: wb_key_other_job sh_wb_def)
  qed
qed

text \<open>Put.\<close>

lemma put_existing_pending [simp]:
  "sh_pending_flushes (snd (put_existing now k sh)) = sh_pending_flushes sh"
  "sh_capacity (snd (put_existing now k sh)) = sh_capacity sh"
  "is_lfu (sh_policy (snd (put_existing now k sh))) = is_lfu (sh_policy sh)"
  "sh_index (snd (put_existing now k sh)) = sh_index sh"
  by (auto simp: put_existing_def split: option.splits)

lemma wb_put_locked:
  assumes inv: "shard_inv sh" and nl: "\<not> is_lfu (sh_policy sh)" and wb: "sh_wb R sh J src spec lost w"
    and p: "put_locked WRITE_BACK d n now k v ttl s sh = (Inr (Some j), s', sh')"
  shows "sh_wb R sh' (add_mset j J) src (spec(k \<mapsto> v)) (lost - {k}) w"
    and "job_op_ok j" and "s' = s"
proof -
  let ?sh0 = "snd (put_existing now k sh)" and ?ex = "fst (put_existing now k sh)"
  let ?sh1 = "snd (put_store WRITE_BACK d now k v ttl ?ex ?sh0)"
  have inv0: "shard_inv ?sh0" using inv by (rule inv_put_existing)
  have room: "put_room k ?sh0" using nl by (simp add: put_room_def)
  note K = put_store_key [OF inv0 room, of WRITE_BACK d now v ttl ?ex]
  have eq: "j = flush_put_job sh k v (Suc (mark_of ?sh0 k)) n" "s' = s" "sh' = register_pending_locked k ?sh1"
    using p by (auto simp: put_locked_def case_prod_beta put_store_eq)
  then show "job_op_ok j" and "s' = s" by (simp_all add: job_op_ok_def flush_put_job_def)
  have frame: "key_frame i sh sh'" if "i \<noteq> k" for i
  proof -
    have "key_frame i ?sh1 sh'" using that eq(3) by (simp add: key_frame_def register_pending_locked_def)
    with key_frame_put_existing put_store_frame [OF that] show ?thesis by (meson key_frame_trans)
  qed
  show "sh_wb R sh' (add_mset j J) src (spec(k \<mapsto> v)) (lost - {k}) w"
  proof (rule sh_wb_write [OF wb frame])
    show "fj_key j = k" using eq(1) by (simp add: flush_put_job_def)
    assume wk: "wb_key sh J (src k) (spec k) (k \<in> lost) w k"
    have wk0: "wb_key ?sh0 J (src k) (spec k) (k \<in> lost) w k"
      using wb_key_frame [OF wk key_frame_put_existing] wb by (simp add: sh_wb_def)
    show "wb_key sh' (add_mset j J) (src k) (Some v) False w k"
    proof (rule wb_key_write [OF wk0])
      show "held w \<subseteq># J" using wb by (simp add: sh_wb_def)
      show "dict_get0 (sh_pending_flushes sh') k = Suc (dict_get0 (sh_pending_flushes ?sh0) k)"
        using eq(3) put_store_pending(1) [OF inv0] by (simp add: register_pending_locked_def)
      show "fj_version j = mark_of sh' k" "mark_of ?sh0 k < mark_of sh' k"
        using eq K(2) by (simp_all add: flush_put_job_def register_pending_locked_def)
      show "fj_key j = k" "fj_value j = Some v"
        "dict_get (sh_tombstones sh') k = (if fj_operation j = ''put'' then None else Some (fj_version j))"
        using eq K(3) by (simp_all add: flush_put_job_def register_pending_locked_def)
      show "Some v = Some (ce_value e) \<and> ce_dirty e" if "dict_get (sh_backend sh') k = Some e" for e
        using that eq(3) K(1) by auto
    qed
  qed
qed

text \<open>Delete, which \<open>clear\<close> repeats for every key.\<close>

lemma wb_tombstone_delete:
  assumes wb: "sh_wb R sh J src spec lost w"
  shows "sh_wb R (snd (delete_entry_locked k (snd (tombstone_locked n k sh))))
    (add_mset (fst (tombstone_locked n k sh)) J) src (spec(k := None)) (lost - {k}) w"
proof (rule sh_wb_write [OF wb tombstone_delete_frame])
  show "fj_key (fst (tombstone_locked n k sh)) = k"
    by (simp add: tombstone_eq Let_def flush_delete_job_def)
  assume wk: "wb_key sh J (src k) (spec k) (k \<in> lost) w k"
  show "wb_key (snd (delete_entry_locked k (snd (tombstone_locked n k sh))))
      (add_mset (fst (tombstone_locked n k sh)) J) (src k) None False w k"
    by (rule wb_key_write [OF wk])
       (use wb in \<open>simp_all add: sh_wb_def tombstone_eq Let_def flush_delete_job_def\<close>)
qed simp

lemma sh_wb_flight [simp]:
  "sh_wb R (sh\<lparr>sh_singleflight := f\<rparr>) J src spec lost w = sh_wb R sh J src spec lost w"
  "sh_wb R (sh\<lparr>sh_policy := p\<rparr>) J src spec lost w = sh_wb R sh J src spec lost w"
  by (cases w; simp add: sh_wb_def wb_key_defs)+

lemma wb_delete_locked:
  assumes wb: "sh_wb R sh J src spec lost w"
    and p: "delete_locked WRITE_BACK n k s sh = (Inr (b, Some j), s', sh')"
  shows "sh_wb R sh' (add_mset j J) src (spec(k := None)) (lost - {k}) w" and "job_op_ok j" and "s' = s"
  using p wb_tombstone_delete [OF wb, of k n]
  by (auto simp: delete_locked_def case_prod_beta job_op_ok_def)
     (simp_all add: tombstone_eq Let_def flush_delete_job_def)

lemma wb_clear_keys:
  assumes "sh_wb R sh J src spec lost w"
    and "clear_keys_locked WRITE_BACK n ks js s sh = (Inr js', s', sh')"
  shows "\<exists>new. js' = js @ new \<and> s' = s \<and> (\<forall>j \<in> set new. job_op_ok j \<and> fj_key j \<in> set ks) \<and>
    sh_wb R sh' (J + mset new) src (\<lambda>k. if k \<in> set ks then None else spec k) (lost - set ks) w"
  using assms
proof (induction ks arbitrary: sh J spec lost js)
  case Nil
  then show ?case by (intro exI [of _ "[]"]) auto
next
  case (Cons k ks)
  let ?j = "fst (tombstone_locked n k sh)" and ?sh1 = "snd (delete_entry_locked k (snd (tombstone_locked n k sh)))"
  have step: "clear_keys_locked WRITE_BACK n ks (js @ [?j]) s ?sh1 = (Inr js', s', sh')"
    using Cons.prems(2) by (cases rule: clear_keys_cases) (auto simp: clear_round_def)
  from Cons.IH [OF wb_tombstone_delete [OF Cons.prems(1)] step]
  obtain new where new: "js' = (js @ [?j]) @ new" "s' = s" "\<forall>j \<in> set new. job_op_ok j \<and> fj_key j \<in> set ks"
    and wb: "sh_wb R sh' (add_mset ?j J + mset new) src
      (\<lambda>i. if i \<in> set ks then None else (spec(k := None)) i) (lost - {k} - set ks) w" by blast
  have "(\<lambda>i. if i \<in> set ks then None else (spec(k := None)) i) =
      (\<lambda>i. if i \<in> set (k # ks) then None else spec i)" by auto
  moreover have "lost - {k} - set ks = lost - set (k # ks)" by auto
  moreover have "job_op_ok ?j" "fj_key ?j = k"
    by (simp_all add: tombstone_eq Let_def flush_delete_job_def job_op_ok_def)
  ultimately show ?case
    using new wb by (intro exI [of _ "?j # new"]) simp
qed

lemma clear_keys_new_index:
  assumes "clear_keys_locked WRITE_BACK n ks js s sh = (Inr js', s', sh')"
  shows "\<exists>new. js' = js @ new \<and> (\<forall>j \<in> set new. fj_shard_index j = sh_index sh)"
  using assms
proof (induction ks arbitrary: js sh)
  case (Cons k ks)
  let ?j = "fst (tombstone_locked n k sh)" and ?sh1 = "snd (delete_entry_locked k (snd (tombstone_locked n k sh)))"
  have "clear_keys_locked WRITE_BACK n ks (js @ [?j]) s ?sh1 = (Inr js', s', sh')"
    using Cons.prems by (cases rule: clear_keys_cases) (auto simp: clear_round_def)
  from Cons.IH [OF this] obtain new where "js' = (js @ [?j]) @ new"
    "\<forall>j \<in> set new. fj_shard_index j = sh_index ?sh1" by blast
  then show ?case
    by (intro exI [of _ "?j # new"]) (simp add: tombstone_eq Let_def flush_delete_job_def)
qed simp

lemma clear_new_index:
  assumes "clear_locked WRITE_BACK n js s sh = (Inr js', s', sh')" and "js' = js @ new"
  shows "\<forall>j \<in> set new. fj_shard_index j = sh_index sh"
  using assms clear_keys_new_index [of n "mem_keys (sh_backend sh)" js s sh js' s']
  by (auto simp: clear_locked_def split: prod.splits sum.splits)

lemma wb_clear_locked:
  assumes "sh_wb R sh J src spec lost w" and "clear_locked WRITE_BACK n js s sh = (Inr js', s', sh')"
  shows "\<exists>new. js' = js @ new \<and> s' = s \<and> (\<forall>j \<in> set new. job_op_ok j \<and> fj_key j \<in> sh_live sh) \<and>
    sh_wb R sh' (J + mset new) src (\<lambda>k. if k \<in> sh_live sh then None else spec k) (lost - sh_live sh) w"
proof -
  obtain sh1 where ck: "clear_keys_locked WRITE_BACK n (mem_keys (sh_backend sh)) js s sh = (Inr js', s', sh1)"
    and sh': "sh' = sh1\<lparr>sh_policy := policy_clear (sh_policy sh1), sh_singleflight := []\<rparr>"
    using assms(2) by (auto simp: clear_locked_def split: prod.splits sum.splits)
  have "set (mem_keys (sh_backend sh)) = sh_live sh" by (simp add: mem_keys_def)
  with wb_clear_keys [OF assms(1) ck] sh' show ?thesis by auto
qed

section \<open>The whole system\<close>

definition wb_ok ::
  "('k \<Rightarrow> nat) \<Rightarrow> ('k, 'v) cache \<Rightarrow> ('k, 'v) flush_job multiset \<Rightarrow> ('k \<Rightarrow> 'v option) \<Rightarrow> 'k set \<Rightarrow>
     ('k, 'v) worker \<Rightarrow> bool" where
  "wb_ok h c J spec lost w \<longleftrightarrow> cache_inv h c \<and> c_write_mode c = WRITE_BACK \<and>
     str_lower (cfg_policy (c_config c)) \<noteq> ''lfu'' \<and> (w \<noteq> Idle \<longrightarrow> 1 \<le> surplus c) \<and>
     (\<forall>j \<in># J. job_op_ok j \<and> fj_shard_index j = shard_for h c (fj_key j)) \<and> held w \<subseteq># J \<and>
     (\<forall>k. wb_key (c_shards c ! shard_for h c k) J (sd_contents (c_source c) k) (spec k) (k \<in> lost) w k)"

definition wb_inv :: "('k \<Rightarrow> nat) \<Rightarrow> ('k, 'v) system \<Rightarrow> bool" where
  "wb_inv h s \<longleftrightarrow> (\<exists>w. sy_workers s = [w] \<and>
     wb_ok h (sy_cache s) (outstanding s) (sy_spec s) (sy_lost s) w)"

abbreviation routed :: "('k \<Rightarrow> nat) \<Rightarrow> ('k, 'v) cache \<Rightarrow> nat \<Rightarrow> 'k set" where
  "routed h c i \<equiv> {k. shard_for h c k = i}"

lemma wb_ok_shard:
  "wb_ok h c J spec lost w \<Longrightarrow> sh_wb (routed h c i) (c_shards c ! i) J (sd_contents (c_source c)) spec lost w"
  by (auto simp: wb_ok_def sh_wb_def)

lemma wb_ok_not_lfu:
  "wb_ok h c J spec lost w \<Longrightarrow> i < length (c_shards c) \<Longrightarrow> \<not> is_lfu (sh_policy (c_shards c ! i))"
  by (simp add: wb_ok_def cache_inv_def shard_at_def)

text \<open>A section on shard \<open>i\<close> that changes what is written to keys of that shard only.\<close>

lemma wb_ok_section:
  assumes ok: "wb_ok h c J spec lost w" and i: "i < length (c_shards c)"
    and ev: "shard_evolves (routed h c i) (c_shards c ! i) sh'"
    and wb: "sh_wb (routed h c i) sh' (J + N) (sd_contents (c_source c)) spec' lost' w"
    and N: "\<And>j. j \<in># N \<Longrightarrow> job_op_ok j \<and> fj_shard_index j = i \<and> shard_for h c (fj_key j) = i"
    and same: "\<And>k. shard_for h c k \<noteq> i \<Longrightarrow> spec' k = spec k \<and> (k \<in> lost' \<longleftrightarrow> k \<in> lost)"
  shows "wb_ok h (set_shard i sh' c) (J + N) spec' lost' w"
proof -
  have other: "wb_key (c_shards c ! shard_for h c k) (J + N) (sd_contents (c_source c) k) (spec' k) (k \<in> lost') w k"
    if "shard_for h c k \<noteq> i" for k
  proof -
    have "wb_key (c_shards c ! shard_for h c k) J (sd_contents (c_source c) k) (spec k) (k \<in> lost) w k"
      using ok by (simp add: wb_ok_def)
    moreover have "\<And>j. j \<in># N \<Longrightarrow> fj_key j \<noteq> k" using N that by blast
    then have "wb_key sh (J + N) sv pv l w k = wb_key sh J sv pv l w k" for sh sv pv l
      by (induction N) (simp_all add: wb_key_other_job)
    ultimately show ?thesis using same [OF that] by simp
  qed
  have "cache_inv h (set_shard i sh' c)"
    using ok ev by (intro cache_inv_set_shard [OF _ i]) (simp_all add: wb_ok_def)
  moreover have "wb_key (c_shards (set_shard i sh' c) ! shard_for h c k) (J + N)
      (sd_contents (c_source c) k) (spec' k) (k \<in> lost') w k" for k
    using wb other [of k] i by (cases "shard_for h c k = i") (auto simp: sh_wb_def)
  ultimately show ?thesis
    using ok wb N by (auto simp: wb_ok_def sh_wb_def)
qed

lemma wb_ok_quiet:
  assumes ok: "wb_ok h c J spec lost w" and i: "i < length (c_shards c)"
    and ev: "shard_evolves (routed h c i) (c_shards c ! i) sh'" and f: "\<And>k. key_frame k (c_shards c ! i) sh'"
  shows "wb_ok h (set_shard i sh' c) J spec lost w"
  using wb_ok_section [OF ok i ev, of "{#}"] sh_wb_frame [OF wb_ok_shard [OF ok] f] by simp

text \<open>Changes outside the shards and the source.\<close>

lemma wb_ok_cong:
  assumes "wb_ok h c J spec lost w" and "cache_inv h c'" and "c_shards c' = c_shards c"
    and "c_source c' = c_source c" and "c_write_mode c' = c_write_mode c" and "c_config c' = c_config c"
    and "w' \<noteq> Idle \<longrightarrow> 1 \<le> surplus c'" and "held w' \<subseteq># J"
    and "\<And>j. w' = Checked j \<or> w' = Applied j \<Longrightarrow> w' = w"
  shows "wb_ok h c' J spec lost w'"
proof -
  have "wb_key sh J sv pv l w' k" if "wb_key sh J sv pv l w k" for sh sv pv l k
    using wb_key_other_worker [of w' k sh J sv pv l w] assms(9) that by (cases w') auto
  then show ?thesis using assms by (auto simp: wb_ok_def shard_for_def)
qed

section \<open>Jobs that end\<close>

lemma wb_ok_lost: "wb_ok h c J spec lost w \<Longrightarrow> wb_ok h c J spec (insert k lost) w"
  unfolding wb_ok_def by (elim conjE, intro conjI allI) (assumption | blast intro: wb_key_lost)+

lemma wb_ok_resolve:
  assumes ok: "wb_ok h c (add_mset j J) spec lost w" and w: "held w \<subseteq># J"
    and end_ok: "fj_key j \<in> lost \<or> w = Idle \<and> (sd_contents (c_source c) (fj_key j) = spec (fj_key j) \<or>
      fj_version j \<noteq> mark_of (c_shards c ! fj_shard_index j) (fj_key j))"
  shows "wb_ok h (resolve_pending (fj_shard_index j) (fj_key j) c) J spec lost w"
proof -
  let ?k = "fj_key j" and ?i = "fj_shard_index j"
  have inv: "cache_inv h c" and ik: "?i = shard_for h c ?k" using ok by (simp_all add: wb_ok_def)
  then have i: "?i < length (c_shards c)" by (simp add: shard_for_less)
  let ?sh = "c_shards c ! ?i"
  have key: "wb_key (c_shards c ! shard_for h c k) (add_mset j J) (sd_contents (c_source c) k) (spec k) (k \<in> lost) w k" for k
    using ok by (simp add: wb_ok_def)
  have "wb_key (c_shards (resolve_pending ?i ?k c) ! shard_for h c k) J (sd_contents (c_source c) k) (spec k) (k \<in> lost) w k" for k
  proof (cases "k = ?k")
    case True
    then show ?thesis
      using wb_key_resolve [OF key [of ?k] refl w] end_ok i ik by (simp add: resolve_pending_def)
  next
    case False
    then have wk: "wb_key (c_shards c ! shard_for h c k) J (sd_contents (c_source c) k) (spec k) (k \<in> lost) w k"
      using key [of k] wb_key_other_job [of j k] by simp
    show ?thesis
      using wb_key_frame [OF wk key_frame_resolve w, of ?k] wk False i
      by (cases "shard_for h c k = ?i") (auto simp: resolve_pending_def)
  qed
  moreover have "cache_inv h (resolve_pending ?i ?k c)" using inv i by (rule resolve_pending_inv)
  ultimately show ?thesis
    using ok w by (auto simp: wb_ok_def resolve_pending_def)
qed

lemma stale_not_current:
  assumes ok: "wb_ok h c J spec lost w" and j: "j \<in># J"
    and stale: "is_stale_write_back (sh_version_marks (c_shards c ! fj_shard_index j))
      (sh_tombstones (c_shards c ! fj_shard_index j)) j"
  shows "fj_version j \<noteq> mark_of (c_shards c ! fj_shard_index j) (fj_key j)"
proof
  assume cur: "fj_version j = mark_of (c_shards c ! fj_shard_index j) (fj_key j)"
  have i: "fj_shard_index j = shard_for h c (fj_key j)" and op: "job_op_ok j"
    using ok j by (simp_all add: wb_ok_def)
  have "wb_key (c_shards c ! shard_for h c (fj_key j)) J (sd_contents (c_source c) (fj_key j))
      (spec (fj_key j)) (fj_key j \<in> lost) w (fj_key j)" using ok by (simp add: wb_ok_def)
  then have "dict_get (sh_tombstones (c_shards c ! fj_shard_index j)) (fj_key j) =
      (if fj_operation j = ''put'' then None else Some (fj_version j))"
    using j cur i by (auto simp: wb_key_def jobs_match_def)
  with stale cur op show False by (auto simp: is_stale_write_back_def job_op_ok_def Let_def)
qed

text \<open>A current job carries the value last written.\<close>

lemma current_job_value:
  assumes "wb_ok h c J spec lost w" and "j \<in># J"
    and "fj_version j = mark_of (c_shards c ! fj_shard_index j) (fj_key j)"
  shows "fj_value j = spec (fj_key j)"
  using assms by (auto simp: wb_ok_def wb_key_def jobs_match_def)

lemma wb_key_mark_clean:
  assumes inv: "shard_inv sh" and wb: "wb_key sh J sv pv lost w k" and k: "fj_key j = k"
    and cur: "fj_version j = mark_of sh k \<Longrightarrow> sv = pv"
  shows "wb_key (mark_clean_locked k (fj_version j) sh) J sv pv lost Idle k"
proof -
  let ?sh' = "mark_clean_locked k (fj_version j) sh"
  have marks: "sh_version_marks ?sh' = sh_version_marks sh" "sh_tombstones ?sh' = sh_tombstones sh"
    "sh_pending_flushes ?sh' = sh_pending_flushes sh"
    by (simp_all add: mark_clean_locked_def split: option.splits)
  have "entry_matches ?sh' sv pv k"
  proof (cases "dict_get (sh_backend sh) k")
    case None
    then show ?thesis by (simp add: entry_matches_def mark_clean_locked_def mem_get_entry_def)
  next
    case (Some e)
    have "ce_version e = mark_of sh k" "ce_key e = k"
      using inv Some inv_entry_key [OF inv Some] by (auto simp: shard_inv_def core_defs)
    then show ?thesis
      using Some wb cur
      by (auto simp: entry_matches_def mark_clean_locked_def mem_get_entry_def mem_put_entry_def wb_key_def)
  qed
  then show ?thesis
    using wb marks by (simp add: wb_key_def jobs_match_def current_job_def worker_matches_def)
qed

lemma key_frame_mark_clean: "shard_inv sh \<Longrightarrow> i \<noteq> k \<Longrightarrow> key_frame i sh (mark_clean_locked k v sh)"
  using inv_entry_key [of sh k]
  by (auto simp: key_frame_def mark_clean_locked_def mem_get_entry_def mem_put_entry_def split: option.splits)

lemma wb_ok_finish:
  assumes ok: "wb_ok h c (add_mset j J) spec lost (Applied j)"
  shows "wb_ok h (flush_finish j c) J spec lost Idle"
proof -
  let ?k = "fj_key j" and ?i = "fj_shard_index j" and ?src = "sd_contents (c_source c)"
  let ?sh = "c_shards c ! ?i"
  let ?sh1 = "if fj_operation j = ''put'' then mark_clean_locked ?k (fj_version j) ?sh else ?sh"
  have inv: "cache_inv h c" and ik: "?i = shard_for h c ?k" using ok by (simp_all add: wb_ok_def)
  then have i: "?i < length (c_shards c)" by (simp add: shard_for_less)
  note si = cache_inv_shard [OF inv i]
  have key: "wb_key (c_shards c ! shard_for h c k) (add_mset j J) (?src k) (spec k) (k \<in> lost) (Applied j) k" for k
    using ok by (simp add: wb_ok_def)
  have "?src ?k = fj_value j" using key [of ?k] by (simp add: wb_key_def worker_matches_def)
  then have cur: "fj_version j = mark_of ?sh ?k \<Longrightarrow> ?src ?k = spec ?k"
    using current_job_value [OF ok, of j] by simp
  have wb1: "sh_wb (routed h c ?i) ?sh1 (add_mset j J) ?src spec lost Idle"
    unfolding sh_wb_def
  proof (intro conjI ballI)
    fix k
    assume k: "k \<in> routed h c ?i"
    then have wk: "wb_key ?sh (add_mset j J) (?src k) (spec k) (k \<in> lost) Idle k"
      using wb_key_idle [OF key [of k]] by simp
    show "wb_key ?sh1 (add_mset j J) (?src k) (spec k) (k \<in> lost) Idle k"
    proof (cases "k = ?k")
      case True
      then show ?thesis using wb_key_mark_clean [OF si wk, of j] cur wk by simp
    next
      case False
      then show ?thesis
        using wb_key_frame [OF wk key_frame_mark_clean [OF si False]] wk by simp
    qed
  qed simp
  have ev: "shard_evolves (routed h c ?i) ?sh ?sh1" using si by (simp add: evolves_mark_clean evolves_refl)
  have okI: "wb_ok h c (add_mset j J) spec lost Idle"
    by (rule wb_ok_cong [OF ok]) (use inv in simp_all)
  have ok1: "wb_ok h (set_shard ?i ?sh1 c) (add_mset j J) spec lost Idle"
    using wb_ok_section [OF okI i ev, of "{#}" spec lost] wb1 by simp
  have "sh_version_marks ?sh1 = sh_version_marks ?sh" by (simp add: mark_clean_locked_def split: option.splits)
  then have "wb_ok h (resolve_pending ?i ?k (set_shard ?i ?sh1 c)) J spec lost Idle"
    using cur i by (intro wb_ok_resolve [OF ok1]) auto
  moreover have "resolve_pending ?i ?k (set_shard ?i ?sh1 c) = flush_finish j c"
    using i by (simp add: resolve_pending_def flush_finish_def Let_def set_shard_def)
  ultimately show ?thesis by simp
qed

lemma wb_ok_store:
  assumes ok: "wb_ok h c J spec lost (Checked j)" and a: "flush_apply j c = (Inr u, c')"
  shows "wb_ok h c' J spec lost (Applied j)"
proof -
  let ?k = "fj_key j" and ?src = "sd_contents (c_source c)"
  obtain s' where s': "apply_write_back j (c_source c) = (Inr u, s')" and c': "c' = c\<lparr>c_source := s'\<rparr>"
    using a by (auto simp: flush_apply_def split: prod.splits)
  have jJ: "j \<in># J" and op: "job_op_ok j" and ik: "fj_shard_index j = shard_for h c ?k"
    using ok by (auto simp: wb_ok_def)
  have src': "sd_contents s' = ?src(?k := fj_value j)"
    using apply_write_back_contents [OF s'] op by (auto simp: job_op_ok_def)
  have "wb_key (c_shards c ! shard_for h c k) J (sd_contents s' k) (spec k) (k \<in> lost) (Applied j) k" for k
  proof (cases "k = ?k")
    case True
    have wk: "wb_key (c_shards c ! shard_for h c ?k) J (?src ?k) (spec ?k) (?k \<in> lost) (Checked j) ?k"
      using ok by (simp add: wb_ok_def)
    show ?thesis
    proof (cases "fj_version j = mark_of (c_shards c ! shard_for h c ?k) ?k")
      case cur: True
      then have "fj_value j = spec ?k" using current_job_value [OF ok jJ] ik by simp
      then show ?thesis
        using wk src' True by (auto simp: wb_key_def entry_matches_def worker_matches_def)
    next
      case False
      then show ?thesis
        using wk src' True
        by (auto simp: wb_key_def entry_matches_def worker_matches_def all_dirty_def)
    qed
  next
    case False
    have "wb_key (c_shards c ! shard_for h c k) J (?src k) (spec k) (k \<in> lost) (Applied j) k"
      by (rule wb_key_other_worker [where w = "Checked j"]) (use ok False in \<open>auto simp: wb_ok_def\<close>)
    with False show ?thesis using src' by simp
  qed
  then show ?thesis using ok c' by (auto simp: wb_ok_def shard_for_def surplus_def)
qed

section \<open>Outstanding jobs\<close>

lemma flush_items_append [simp]: "flush_items (xs @ ys) = flush_items xs @ flush_items ys"
  by (induction xs rule: flush_items.induct) simp_all

lemma flush_items_other [simp]: "(\<And>j. job \<noteq> FlushWriteBack j) \<Longrightarrow> flush_items (job # js) = flush_items js"
  by (cases job) auto

lemma client_jobs_update:
  assumes "p < length cs" and "cs ! p = (b, js)"
  shows "mset (concat (map snd (cs[p := (b', js')]))) + mset js = mset (concat (map snd cs)) + mset js'"
  using assms
proof (induction cs arbitrary: p)
  case (Cons x cs)
  then show ?case by (cases p) (auto simp: ac_simps)
qed simp

lemma client_jobs_split:
  assumes "p < length cs" and "cs ! p = (b, js)"
  shows "\<exists>M. mset (concat (map snd cs)) = M + mset js \<and>
    (\<forall>b' js'. mset (concat (map snd (cs[p := (b', js')]))) = M + mset js')"
proof (intro exI conjI allI)
  let ?M = "mset (concat (map snd (cs[p := (b, [])])))"
  show eq: "mset (concat (map snd cs)) = ?M + mset js"
    using client_jobs_update [OF assms, of b "[]"] by simp
  fix b' js'
  have "mset (concat (map snd (cs[p := (b', js')]))) + mset js = ?M + mset js' + mset js"
    using client_jobs_update [OF assms, of b' js'] eq by (simp add: ac_simps)
  then show "mset (concat (map snd (cs[p := (b', js')]))) = ?M + mset js'" by simp
qed

lemma jq_get_items: "jq_get q = Some (job, q') \<Longrightarrow> jq_items q = job # jq_items q' \<and>
    q' = q\<lparr>jq_items := jq_items q'\<rparr>"
  by (auto simp: jq_get_def split: list.splits)

lemma cache_inv_get:
  assumes "cache_inv h c" and "jq_get (c_queue c) = Some (job, q)"
  shows "cache_inv h (c\<lparr>c_queue := q\<rparr>)" and "1 \<le> surplus (c\<lparr>c_queue := q\<rparr>)"
proof -
  have q: "jq_items (c_queue c) = job # jq_items q" "q = (c_queue c)\<lparr>jq_items := jq_items q\<rparr>"
    using jq_get_items [OF assms(2)] by simp_all
  have f: "jq_maxsize q = jq_maxsize (c_queue c)" "jq_unfinished q = jq_unfinished (c_queue c)"
    by (subst q(2), simp)+
  have "jq_inv q" using jq.inv_get assms by (auto simp: cache_inv_def)
  then show "cache_inv h (c\<lparr>c_queue := q\<rparr>)" using assms(1) f by (intro cache_inv_queue)
  have "length (jq_items (c_queue c)) \<le> jq_unfinished (c_queue c)"
    using assms(1) by (simp add: cache_inv_def jq_inv_def)
  then show "1 \<le> surplus (c\<lparr>c_queue := q\<rparr>)" using f q(1) by (simp add: surplus_def)
qed

lemma surplus_get:
  "jq_get (c_queue c) = Some (job, q) \<Longrightarrow> surplus (c\<lparr>c_queue := q\<rparr>) = surplus c + 1"
  by (auto simp: jq_get_def surplus_def split: list.splits)

lemma surplus_task_done: "1 \<le> surplus c \<Longrightarrow> surplus (task_done c) = surplus c - 1"
  by (auto simp: surplus_def task_done_def jq_task_done_def)

lemma wb_ok_done:
  assumes ok: "wb_ok h c J spec lost Idle" and s: "1 \<le> surplus c"
  shows "wb_ok h (task_done (inc_runtime f c)) J spec lost Idle"
  by (rule wb_ok_cong [OF ok]) (use ok s in \<open>simp_all add: wb_ok_def cache_inv_task_done\<close>)

section \<open>Client sections\<close>

lemma quiet_section_frame: "shard_inv sh \<Longrightarrow> quiet_section now sh sh' \<Longrightarrow> key_frame k sh sh'"
  by (erule quiet_sectionE)
     (simp_all add: key_frame_read key_frame_inspect key_frame_dump key_frame_restore
        expire_shard_locked_def key_frame_expire_keys)

lemma quiet_section_evolves: "shard_inv sh \<Longrightarrow> quiet_section now sh sh' \<Longrightarrow> shard_evolves K sh sh'"
  by (erule quiet_sectionE)
     (simp_all add: evolves_read evolves_inspect evolves_dump evolves_restore evolves_expire)

lemma wb_ok_put:
  assumes ok: "wb_ok h c J spec lost w" and p: "put_section h k v ttl c = (Inr (Some j), c')"
  shows "wb_ok h c' (add_mset j J) (spec(k \<mapsto> v)) (lost - {k}) w" and "c_queue c' = c_queue c"
proof -
  let ?i = "shard_for h c k"
  have inv: "cache_inv h c" and wbm: "c_write_mode c = WRITE_BACK" using ok by (simp_all add: wb_ok_def)
  have i: "?i < length (c_shards c)" using inv by (rule shard_for_less)
  note si = cache_inv_shard [OF inv i]
  obtain s' sh' where pl: "put_locked WRITE_BACK (cfg_default_ttl (c_config c))
      (cfg_write_back_retry_count (c_config c)) (cache_now c) k v ttl (c_source c) (c_shards c ! ?i) = (Inr (Some j), s', sh')"
    and c': "c' = (set_shard ?i sh' c)\<lparr>c_source := s'\<rparr>"
    using p wbm by (auto simp: put_section_def on_shard_source_def split: prod.splits)
  note W = wb_put_locked [OF si wb_ok_not_lfu [OF ok i] wb_ok_shard [OF ok] pl]
  have ev: "shard_evolves (routed h c ?i) (c_shards c ! ?i) sh'"
    using evolves_put [OF si, of k "routed h c ?i" WRITE_BACK "cfg_default_ttl (c_config c)"
      "cfg_write_back_retry_count (c_config c)" "cache_now c" v ttl "c_source c"] pl by simp
  have "wb_ok h (set_shard ?i sh' c) (J + {#j#}) (spec(k \<mapsto> v)) (lost - {k}) w"
    by (rule wb_ok_section [OF ok i ev])
       (use W put_section_job [OF inv p] in \<open>auto\<close>)
  moreover have "c' = set_shard ?i sh' c" using c' W(3) by (simp add: set_shard_def)
  ultimately show "wb_ok h c' (add_mset j J) (spec(k \<mapsto> v)) (lost - {k}) w" and "c_queue c' = c_queue c"
    by simp_all
qed

lemma wb_ok_delete:
  assumes ok: "wb_ok h c J spec lost w" and p: "delete_section h k c = (Inr (b, Some j), c')"
  shows "wb_ok h c' (add_mset j J) (spec(k := None)) (lost - {k}) w" and "c_queue c' = c_queue c"
proof -
  let ?i = "shard_for h c k"
  have inv: "cache_inv h c" and wbm: "c_write_mode c = WRITE_BACK" using ok by (simp_all add: wb_ok_def)
  have i: "?i < length (c_shards c)" using inv by (rule shard_for_less)
  note si = cache_inv_shard [OF inv i]
  obtain s' sh' where dl: "delete_locked WRITE_BACK (cfg_write_back_retry_count (c_config c)) k
      (c_source c) (c_shards c ! ?i) = (Inr (b, Some j), s', sh')"
    and c': "c' = (set_shard ?i sh' c)\<lparr>c_source := s'\<rparr>"
    using p wbm by (auto simp: delete_section_def on_shard_source_def split: prod.splits)
  note W = wb_delete_locked [OF wb_ok_shard [OF ok] dl]
  have ev: "shard_evolves (routed h c ?i) (c_shards c ! ?i) sh'"
    using evolves_delete [OF si, of k "routed h c ?i" WRITE_BACK
      "cfg_write_back_retry_count (c_config c)" "c_source c"] dl by simp
  have "wb_ok h (set_shard ?i sh' c) (J + {#j#}) (spec(k := None)) (lost - {k}) w"
    by (rule wb_ok_section [OF ok i ev])
       (use W delete_section_job [OF inv p] in \<open>auto\<close>)
  moreover have "c' = set_shard ?i sh' c" using c' W(3) by (simp add: set_shard_def)
  ultimately show "wb_ok h c' (add_mset j J) (spec(k := None)) (lost - {k}) w" and "c_queue c' = c_queue c"
    by simp_all
qed

lemma wb_ok_clear:
  assumes ok: "wb_ok h c J spec lost w" and i: "i < length (c_shards c)"
    and p: "clear_section i jobs c = (Inr jobs', c')"
  shows "\<exists>new. jobs' = jobs @ new \<and> c_queue c' = c_queue c \<and>
    wb_ok h c' (J + mset new) (\<lambda>k. if k \<in> sh_live (c_shards c ! i) then None else spec k)
      (lost - sh_live (c_shards c ! i)) w"
proof -
  let ?L = "sh_live (c_shards c ! i)"
  have inv: "cache_inv h c" and wbm: "c_write_mode c = WRITE_BACK" using ok by (simp_all add: wb_ok_def)
  note si = cache_inv_shard [OF inv i]
  obtain s' sh' where cl: "clear_locked WRITE_BACK (cfg_write_back_retry_count (c_config c)) jobs
      (c_source c) (c_shards c ! i) = (Inr jobs', s', sh')"
    and c': "c' = (set_shard i sh' c)\<lparr>c_source := s'\<rparr>"
    using p wbm by (auto simp: clear_section_def on_shard_source_def split: prod.splits)
  from wb_clear_locked [OF wb_ok_shard [OF ok] cl] obtain new
    where W: "jobs' = jobs @ new" "s' = c_source c" "\<forall>j \<in> set new. job_op_ok j \<and> fj_key j \<in> ?L"
      "sh_wb (routed h c i) sh' (J + mset new) (sd_contents (c_source c))
        (\<lambda>k. if k \<in> ?L then None else spec k) (lost - ?L) w" by blast
  have live: "\<forall>k \<in> ?L. shard_for h c k = i" using inv i by (simp add: cache_inv_def shard_at_def shard_for_def)
  have ev: "shard_evolves (routed h c i) (c_shards c ! i) sh'"
    using evolves_clear [OF si, of "routed h c i" WRITE_BACK
      "cfg_write_back_retry_count (c_config c)" jobs "c_source c"] cl by simp
  have idx: "\<forall>j \<in> set new. fj_shard_index j = i"
    using clear_new_index [OF cl W(1)] cache_inv_index [OF inv i] by simp
  have "wb_ok h (set_shard i sh' c) (J + mset new) (\<lambda>k. if k \<in> ?L then None else spec k) (lost - ?L) w"
  proof (rule wb_ok_section [OF ok i ev W(4)], goal_cases)
    case (1 j)
    then show ?case using W(3) live idx by (metis set_mset_mset)
  next
    case (2 k)
    then show ?case using live by auto
  qed
  moreover have "c' = set_shard i sh' c" using c' W(2) by (simp add: set_shard_def)
  ultimately show ?thesis using W(1) by auto
qed

section \<open>Every step keeps the invariant\<close>

lemma outstanding_cong:
  "c_queue c = c_queue (sy_cache s) \<Longrightarrow>
     outstanding (s\<lparr>sy_cache := c, sy_spec := sp, sy_lost := l\<rparr>) = outstanding s"
  by (simp add: outstanding_def)

lemma wb_invE:
  assumes "wb_inv h s"
  obtains w where "sy_workers s = [w]" "wb_ok h (sy_cache s) (outstanding s) (sy_spec s) (sy_lost s) w"
  using assms by (auto simp: wb_inv_def)

lemma wb_inv_worker:
  assumes "wb_inv h s" and "p < length (sy_workers s)" and "sy_workers s ! p = w"
  shows "sy_workers s = [w]" and "p = 0" and "wb_ok h (sy_cache s) (outstanding s) (sy_spec s) (sy_lost s) w"
  using assms by (auto simp: wb_inv_def)

lemma held_outstanding:
  "sy_workers s = [w] \<Longrightarrow> outstanding s = outstanding (s\<lparr>sy_workers := [Idle]\<rparr>) + held w"
  by (simp add: outstanding_def)

lemma enqueue_outstanding:
  assumes "enqueue_job (FlushWriteBack j) True c = (r, c')"
  shows "mset (flush_items (jq_items (c_queue c'))) =
    mset (flush_items (jq_items (c_queue c))) + (if isl r then {#} else {#j#})"
  using assms by (auto simp: enqueue_job_eq split: if_splits)

lemma wb_ok_enqueue:
  assumes ok: "wb_ok h c J spec lost w" and e: "enqueue_job job b c = (r, c')"
  shows "wb_ok h c' J spec lost w"
proof -
  have c': "c' = snd (enqueue_job job b c)" using e by simp
  show ?thesis
    unfolding c'
    by (rule wb_ok_cong [OF ok])
       (use ok in \<open>simp_all add: wb_ok_def enqueue_job_inv\<close>, simp add: enqueue_job_eq)
qed

lemma client_not_held:
  assumes "sy_workers s = [w]" and "p < length (sy_clients s)" and "sy_clients s ! p = (b, j # js)"
    and "outstanding s = add_mset j J"
  shows "held w \<subseteq># J"
proof -
  obtain M where "mset (concat (map snd (sy_clients s))) = M + mset (j # js)"
    using client_jobs_split [OF assms(2,3)] by blast
  then have "add_mset j (mset (flush_items (jq_items (c_queue (sy_cache s)))) + M + mset js + held w) = add_mset j J"
    using assms(1,4) by (simp add: outstanding_def ac_simps)
  then show ?thesis by (metis add_mset_add_single add_right_cancel mset_subset_eq_add_right)
qed

lemma wb_step_clients:
  assumes inv: "wb_inv h s" and p: "p < length (sy_clients s)" "sy_clients s ! p = (b, js)"
    and ok: "\<And>J w. sy_workers s = [w] \<Longrightarrow> outstanding s = J + mset js \<Longrightarrow>
      wb_ok h (sy_cache s) (J + mset js) (sy_spec s) (sy_lost s) w \<Longrightarrow>
      \<exists>N. mset (flush_items (jq_items (c_queue c'))) = mset (flush_items (jq_items (c_queue (sy_cache s)))) + N \<and>
        wb_ok h c' (J + mset js' + N) spec' lost' w"
  shows "wb_inv h (s\<lparr>sy_cache := c', sy_clients := (sy_clients s)[p := (b', js')], sy_spec := spec', sy_lost := lost'\<rparr>)"
proof -
  obtain w where w: "sy_workers s = [w]" and wb: "wb_ok h (sy_cache s) (outstanding s) (sy_spec s) (sy_lost s) w"
    using inv by (rule wb_invE)
  obtain M where M: "mset (concat (map snd (sy_clients s))) = M + mset js"
    "\<forall>b' js'. mset (concat (map snd ((sy_clients s)[p := (b', js')]))) = M + mset js'"
    using client_jobs_split [OF p] by blast
  let ?J = "mset (flush_items (jq_items (c_queue (sy_cache s)))) + M + held w"
  have out: "outstanding s = ?J + mset js" using M(1) w by (simp add: outstanding_def ac_simps)
  from ok [OF w out] wb out obtain N where
    N: "mset (flush_items (jq_items (c_queue c'))) = mset (flush_items (jq_items (c_queue (sy_cache s)))) + N"
    "wb_ok h c' (?J + mset js' + N) spec' lost' w" by auto
  moreover have "outstanding (s\<lparr>sy_cache := c', sy_clients := (sy_clients s)[p := (b', js')], sy_spec := spec', sy_lost := lost'\<rparr>) =
      ?J + mset js' + N"
    using M(2) w N(1) by (simp add: outstanding_def ac_simps)
  ultimately show ?thesis using w by (simp add: wb_inv_def)
qed

abbreviation queued :: "('k, 'v) cache \<Rightarrow> ('k, 'v) flush_job multiset" where
  "queued c \<equiv> mset (flush_items (jq_items (c_queue c)))"

lemma wb_step_worker:
  assumes inv: "wb_inv h s" and p: "p < length (sy_workers s)" "sy_workers s ! p = w"
    and ok: "\<And>C. wb_ok h (sy_cache s) (queued (sy_cache s) + C + held w) (sy_spec s) (sy_lost s) w \<Longrightarrow>
      wb_ok h c' (queued c' + C + held w') (sy_spec s) lost' w'"
  shows "wb_inv h (s\<lparr>sy_cache := c', sy_workers := (sy_workers s)[p := w'], sy_lost := lost'\<rparr>)"
proof -
  note W = wb_inv_worker [OF inv p]
  let ?C = "mset (concat (map snd (sy_clients s)))"
  have "outstanding s = queued (sy_cache s) + ?C + held w" using W(1) by (simp add: outstanding_def)
  then have "wb_ok h c' (queued c' + ?C + held w') (sy_spec s) lost' w'" using ok W(3) by simp
  then show ?thesis using W(1,2) by (simp add: wb_inv_def outstanding_def)
qed

lemma wb_ok_runtime: "wb_ok h c J spec lost w \<Longrightarrow> wb_ok h (inc_runtime f c) J spec lost w"
  by (rule wb_ok_cong) (simp_all add: wb_ok_def)

lemma wb_ok_worker:
  assumes "wb_ok h c J spec lost w" and "w \<noteq> Idle \<or> w' = Idle" and "held w' \<subseteq># J"
    and "\<And>j. w' = Checked j \<or> w' = Applied j \<Longrightarrow> w' = w"
  shows "wb_ok h c J spec lost w'"
proof (rule wb_ok_cong [OF assms(1)])
  show "cache_inv h c" using assms(1) by (simp add: wb_ok_def)
  show "w' \<noteq> Idle \<longrightarrow> 1 \<le> surplus c" using assms(1,2) unfolding wb_ok_def by blast
  show "held w' \<subseteq># J" by (rule assms(3))
  show "w' = w" if "w' = Checked j \<or> w' = Applied j" for j using that by (rule assms(4))
qed simp_all

lemma wb_ok_surplus: "wb_ok h c J spec lost w \<Longrightarrow> w \<noteq> Idle \<Longrightarrow> 1 \<le> surplus c"
  by (simp add: wb_ok_def)

text \<open>The worker drops the job it holds and becomes idle.\<close>

lemma wb_ok_drop:
  assumes ok: "wb_ok h c (add_mset j J) spec lost w" and "w \<noteq> Idle"
    and end_ok: "fj_key j \<in> lost \<or> sd_contents (c_source c) (fj_key j) = spec (fj_key j) \<or>
      fj_version j \<noteq> mark_of (c_shards c ! fj_shard_index j) (fj_key j)"
  shows "wb_ok h (task_done (inc_runtime f (resolve_pending (fj_shard_index j) (fj_key j) c))) J spec lost Idle"
proof -
  have idle: "wb_ok h c (add_mset j J) spec lost Idle" by (rule wb_ok_worker [OF ok]) auto
  have "wb_ok h (resolve_pending (fj_shard_index j) (fj_key j) c) J spec lost Idle"
    using end_ok by (intro wb_ok_resolve [OF idle]) auto
  then show ?thesis
    using wb_ok_surplus [OF ok assms(2)] by (intro wb_ok_done) simp_all
qed

lemma queued_resolve [simp]:
  "queued (resolve_pending i k c) = queued c" "queued (task_done c) = queued c"
  "queued (inc_runtime f c) = queued c" "queued (flush_finish j c) = queued c"
  by (simp_all add: resolve_pending_def flush_finish_def Let_def)

lemma fresh_current:
  assumes "flush_check j c = (False, c')" and "job_op_ok j"
  shows "c' = c" and "fj_version j = mark_of (c_shards c ! fj_shard_index j) (fj_key j)"
  using assms by (auto simp: flush_check_def is_stale_write_back_def job_op_ok_def Let_def split: if_splits)

lemma wb_ok_checked:
  assumes ok: "wb_ok h c J spec lost (Taken j)"
    and cur: "fj_version j = mark_of (c_shards c ! fj_shard_index j) (fj_key j)"
  shows "wb_ok h c J spec lost (Checked j)"
proof -
  have "fj_shard_index j = shard_for h c (fj_key j)" using ok by (auto simp: wb_ok_def)
  then have "wb_key (c_shards c ! shard_for h c k) J sv pv l (Checked j) k"
    if "wb_key (c_shards c ! shard_for h c k) J sv pv l (Taken j) k" for sv pv l k
    using that cur by (auto simp: wb_key_def worker_matches_def)
  then show ?thesis using ok by (simp add: wb_ok_def)
qed

lemma retry_job_fields [simp]:
  "fj_key (retry_job j) = fj_key j" "fj_value (retry_job j) = fj_value j"
  "fj_version (retry_job j) = fj_version j" "fj_operation (retry_job j) = fj_operation j"
  "fj_shard_index (retry_job j) = fj_shard_index j"
  by (simp_all add: retry_job_def)

lemma wb_ok_retry_job:
  assumes ok: "wb_ok h c (add_mset j J) spec lost Idle"
  shows "wb_ok h c (add_mset (retry_job j) J) spec lost Idle"
proof -
  have "wb_key sh (add_mset (retry_job j) J) sv pv l Idle k"
    if "wb_key sh (add_mset j J) sv pv l Idle k" for sh sv pv l k
    using that by (auto simp: wb_key_defs)
  then show ?thesis using ok by (simp add: wb_ok_def job_op_ok_def)
qed

text \<open>Client steps.\<close>

lemma wb_inv_section:
  assumes inv: "wb_inv h s"
    and ok: "\<And>w. wb_ok h (sy_cache s) (outstanding s) (sy_spec s) (sy_lost s) w \<Longrightarrow>
      queued c = queued (sy_cache s) \<and> wb_ok h c (outstanding s + mset new) spec lost w"
  shows "wb_inv h (s\<lparr>sy_cache := c, sy_clients := sy_clients s @ [(False, new)], sy_spec := spec, sy_lost := lost\<rparr>)"
proof -
  obtain w where w: "sy_workers s = [w]" and wb: "wb_ok h (sy_cache s) (outstanding s) (sy_spec s) (sy_lost s) w"
    using inv by (rule wb_invE)
  then show ?thesis using ok [OF wb] by (simp add: wb_inv_def outstanding_def ac_simps)
qed

lemma wb_inv_put:
  assumes "wb_inv h s" and "put_section h k v ttl (sy_cache s) = (Inr (Some j), c)"
  shows "wb_inv h (s\<lparr>sy_cache := c, sy_clients := sy_clients s @ [(False, [j])],
    sy_spec := (sy_spec s)(k \<mapsto> v), sy_lost := sy_lost s - {k}\<rparr>)"
  by (rule wb_inv_section [OF assms(1)]) (simp add: wb_ok_put [OF _ assms(2)])

lemma wb_inv_delete:
  assumes "wb_inv h s" and "delete_section h k (sy_cache s) = (Inr (b, Some j), c)"
  shows "wb_inv h (s\<lparr>sy_cache := c, sy_clients := sy_clients s @ [(False, [j])],
    sy_spec := (sy_spec s)(k := None), sy_lost := sy_lost s - {k}\<rparr>)"
  by (rule wb_inv_section [OF assms(1)]) (simp add: wb_ok_delete [OF _ assms(2)])

lemma wb_inv_clear:
  assumes inv: "wb_inv h s" and p: "p < length (sy_clients s)" "sy_clients s ! p = (False, jobs)"
    and i: "i < length (c_shards (sy_cache s))" and cl: "clear_section i jobs (sy_cache s) = (Inr jobs', c)"
  shows "wb_inv h (s\<lparr>sy_cache := c, sy_clients := (sy_clients s)[p := (False, jobs')],
    sy_spec := (\<lambda>k. if k \<in> sh_live (c_shards (sy_cache s) ! i) then None else sy_spec s k),
    sy_lost := sy_lost s - sh_live (c_shards (sy_cache s) ! i)\<rparr>)"
proof (rule wb_step_clients [OF inv p])
  fix J w
  assume ok: "wb_ok h (sy_cache s) (J + mset jobs) (sy_spec s) (sy_lost s) w"
  from wb_ok_clear [OF ok i cl] show "\<exists>N. queued c = queued (sy_cache s) + N \<and>
      wb_ok h c (J + mset jobs' + N) (\<lambda>k. if k \<in> sh_live (c_shards (sy_cache s) ! i) then None else sy_spec s k)
        (sy_lost s - sh_live (c_shards (sy_cache s) ! i)) w"
    by (auto simp: ac_simps)
qed

lemma wb_inv_same_jobs:
  assumes inv: "wb_inv h s" and q: "queued c = queued (sy_cache s)"
    and ok: "\<And>w. wb_ok h (sy_cache s) (outstanding s) (sy_spec s) (sy_lost s) w \<Longrightarrow>
      wb_ok h c (outstanding s) (sy_spec s) (sy_lost s) w"
  shows "wb_inv h (s\<lparr>sy_cache := c\<rparr>)"
proof -
  obtain w where w: "sy_workers s = [w]" and wb: "wb_ok h (sy_cache s) (outstanding s) (sy_spec s) (sy_lost s) w"
    using inv by (rule wb_invE)
  then show ?thesis using ok [OF wb] q by (simp add: wb_inv_def outstanding_def)
qed

lemma wb_inv_quiet:
  assumes inv: "wb_inv h s" and i: "i < length (c_shards (sy_cache s))"
    and q: "quiet_section (cache_now (sy_cache s)) (c_shards (sy_cache s) ! i) sh"
  shows "wb_inv h (s\<lparr>sy_cache := set_shard i sh (sy_cache s)\<rparr>)"
proof (rule wb_inv_same_jobs [OF inv])
  fix w
  assume ok: "wb_ok h (sy_cache s) (outstanding s) (sy_spec s) (sy_lost s) w"
  have "cache_inv h (sy_cache s)" using ok by (simp add: wb_ok_def)
  note si = cache_inv_shard [OF this i]
  from wb_ok_quiet [OF ok i quiet_section_evolves [OF si q] quiet_section_frame [OF si q]]
  show "wb_ok h (set_shard i sh (sy_cache s)) (outstanding s) (sy_spec s) (sy_lost s) w" .
qed simp

lemma wb_inv_clock:
  assumes "wb_inv h s"
  shows "wb_inv h (s\<lparr>sy_cache := (sy_cache s)\<lparr>c_clock := cl\<rparr>\<rparr>)"
  by (rule wb_inv_same_jobs [OF assms], simp, rule wb_ok_cong, assumption) (simp_all add: wb_ok_def)

lemma wb_inv_enqueue_other:
  assumes "wb_inv h s" and "\<And>j. job \<noteq> FlushWriteBack j"
  shows "wb_inv h (s\<lparr>sy_cache := snd (enqueue_job job critical (sy_cache s))\<rparr>)"
proof (rule wb_inv_same_jobs [OF assms(1)])
  show "queued (snd (enqueue_job job critical (sy_cache s))) = queued (sy_cache s)"
    using assms(2) flush_items_other [of job "[]"] by simp
  show "wb_ok h (snd (enqueue_job job critical (sy_cache s))) (outstanding s) (sy_spec s) (sy_lost s) w"
    if "wb_ok h (sy_cache s) (outstanding s) (sy_spec s) (sy_lost s) w" for w
    using that prod.collapse [symmetric] by (rule wb_ok_enqueue)
qed

lemma wb_inv_enqueue:
  assumes inv: "wb_inv h s" and p: "p < length (sy_clients s)" "sy_clients s ! p = (False, j # js)"
    and e: "enqueue_job (FlushWriteBack j) True (sy_cache s) = (r, c)"
  shows "wb_inv h (s\<lparr>sy_cache := c, sy_clients := (sy_clients s)[p := (isl r, if isl r then j # js else js)]\<rparr>)"
proof -
  have "wb_inv h (s\<lparr>sy_cache := c, sy_clients := (sy_clients s)[p := (isl r, if isl r then j # js else js)],
      sy_spec := sy_spec s, sy_lost := sy_lost s\<rparr>)"
  proof (rule wb_step_clients [OF inv p])
    fix J w
    assume "wb_ok h (sy_cache s) (J + mset (j # js)) (sy_spec s) (sy_lost s) w"
    from wb_ok_enqueue [OF this e] enqueue_outstanding [OF e]
    show "\<exists>N. queued c = queued (sy_cache s) + N \<and>
        wb_ok h c (J + mset (if isl r then j # js else js) + N) (sy_spec s) (sy_lost s) w"
      by (intro exI [of _ "if isl r then {#} else {#j#}"]) simp
  qed
  then show ?thesis by simp
qed

lemma wb_inv_release:
  assumes inv: "wb_inv h s" and p: "p < length (sy_clients s)" "sy_clients s ! p = (True, j # js)"
  shows "wb_inv h (s\<lparr>sy_cache := resolve_pending (fj_shard_index j) (fj_key j) (sy_cache s),
    sy_clients := (sy_clients s)[p := (True, js)], sy_lost := insert (fj_key j) (sy_lost s)\<rparr>)"
proof -
  let ?c = "resolve_pending (fj_shard_index j) (fj_key j) (sy_cache s)"
  have "wb_inv h (s\<lparr>sy_cache := ?c, sy_clients := (sy_clients s)[p := (True, js)],
      sy_spec := sy_spec s, sy_lost := insert (fj_key j) (sy_lost s)\<rparr>)"
  proof (rule wb_step_clients [OF inv p])
    fix J w
    assume w: "sy_workers s = [w]" and out: "outstanding s = J + mset (j # js)"
      and ok: "wb_ok h (sy_cache s) (J + mset (j # js)) (sy_spec s) (sy_lost s) w"
    have "held w \<subseteq># J + mset js" by (rule client_not_held [OF w p]) (simp add: out)
    moreover have "wb_ok h (sy_cache s) (add_mset j (J + mset js)) (sy_spec s) (insert (fj_key j) (sy_lost s)) w"
      using wb_ok_lost [OF ok] by simp
    ultimately have "wb_ok h ?c (J + mset js) (sy_spec s) (insert (fj_key j) (sy_lost s)) w"
      by (intro wb_ok_resolve) simp_all
    then show "\<exists>N. queued ?c = queued (sy_cache s) + N \<and>
        wb_ok h ?c (J + mset js + N) (sy_spec s) (insert (fj_key j) (sy_lost s)) w"
      by (intro exI [of _ "{#}"]) simp
  qed
  then show ?thesis by simp
qed

text \<open>Worker steps.\<close>

lemma wb_inv_take_other:
  assumes "wb_inv h s" and g: "jq_get (c_queue (sy_cache s)) = Some (job, q)" and "\<And>j. job \<noteq> FlushWriteBack j"
  shows "wb_inv h (s\<lparr>sy_cache := task_done ((sy_cache s)\<lparr>c_queue := q\<rparr>)\<rparr>)"
proof (rule wb_inv_same_jobs [OF assms(1)])
  have items: "jq_items (c_queue (sy_cache s)) = job # jq_items q" using jq_get_items [OF g] by simp
  then show "queued (task_done ((sy_cache s)\<lparr>c_queue := q\<rparr>)) = queued (sy_cache s)"
    using assms(3) by simp
  fix w
  assume ok: "wb_ok h (sy_cache s) (outstanding s) (sy_spec s) (sy_lost s) w"
  have inv: "cache_inv h (sy_cache s)" using ok by (simp add: wb_ok_def)
  note G = cache_inv_get [OF inv g]
  show "wb_ok h (task_done ((sy_cache s)\<lparr>c_queue := q\<rparr>)) (outstanding s) (sy_spec s) (sy_lost s) w"
  proof (rule wb_ok_cong [OF ok])
    show "w \<noteq> Idle \<longrightarrow> 1 \<le> surplus (task_done ((sy_cache s)\<lparr>c_queue := q\<rparr>))"
      using ok surplus_get [OF g] surplus_task_done [OF G(2)] by (simp add: wb_ok_def)
  qed (use ok cache_inv_task_done [OF G] in \<open>simp_all add: wb_ok_def\<close>)
qed

lemma wb_inv_take:
  assumes inv: "wb_inv h s" and p: "w < length (sy_workers s)" "sy_workers s ! w = Idle"
    and g: "jq_get (c_queue (sy_cache s)) = Some (FlushWriteBack j, q)"
  shows "wb_inv h (s\<lparr>sy_cache := (sy_cache s)\<lparr>c_queue := q\<rparr>, sy_workers := (sy_workers s)[w := Taken j]\<rparr>)"
proof -
  have "wb_inv h (s\<lparr>sy_cache := (sy_cache s)\<lparr>c_queue := q\<rparr>, sy_workers := (sy_workers s)[w := Taken j],
      sy_lost := sy_lost s\<rparr>)"
  proof (rule wb_step_worker [OF inv p])
    fix C
    assume ok: "wb_ok h (sy_cache s) (queued (sy_cache s) + C + held Idle) (sy_spec s) (sy_lost s) Idle"
    have i: "cache_inv h (sy_cache s)" using ok by (simp add: wb_ok_def)
    note G = cache_inv_get [OF i g]
    have "queued (sy_cache s) = add_mset j (queued ((sy_cache s)\<lparr>c_queue := q\<rparr>))"
      using jq_get_items [OF g] by simp
    moreover from this have "wb_ok h ((sy_cache s)\<lparr>c_queue := q\<rparr>) (queued (sy_cache s) + C + held Idle) (sy_spec s) (sy_lost s) (Taken j)"
      by (intro wb_ok_cong [OF ok]) (use G in simp_all)
    ultimately show "wb_ok h ((sy_cache s)\<lparr>c_queue := q\<rparr>)
        (queued ((sy_cache s)\<lparr>c_queue := q\<rparr>) + C + held (Taken j)) (sy_spec s) (sy_lost s) (Taken j)"
      by simp
  qed
  then show ?thesis by simp
qed

lemma wb_step_worker':
  assumes "wb_inv h s" and "p < length (sy_workers s)" and "sy_workers s ! p = w"
    and "\<And>C. wb_ok h (sy_cache s) (queued (sy_cache s) + C + held w) (sy_spec s) (sy_lost s) w \<Longrightarrow>
      wb_ok h c' (queued c' + C + held w') (sy_spec s) (sy_lost s) w'"
  shows "wb_inv h (s\<lparr>sy_cache := c', sy_workers := (sy_workers s)[p := w']\<rparr>)"
  using wb_step_worker [OF assms] by simp

lemma wb_inv_stale:
  assumes inv: "wb_inv h s" and p: "p < length (sy_workers s)" "sy_workers s ! p = Taken j"
    and ch: "flush_check j (sy_cache s) = (True, c)"
  shows "wb_inv h (s\<lparr>sy_cache := task_done (inc_runtime f c), sy_workers := (sy_workers s)[p := Idle]\<rparr>)"
proof (rule wb_step_worker' [OF inv p])
  fix C
  let ?c0 = "sy_cache s" and ?c1 = "inc_runtime ''stale_write_back_jobs_skipped'' (sy_cache s)"
  assume ok: "wb_ok h ?c0 (queued ?c0 + C + held (Taken j)) (sy_spec s) (sy_lost s) (Taken j)"
  have c: "c = resolve_pending (fj_shard_index j) (fj_key j) ?c1"
    and st: "is_stale_write_back (sh_version_marks (c_shards ?c0 ! fj_shard_index j))
      (sh_tombstones (c_shards ?c0 ! fj_shard_index j)) j"
    using ch by (auto simp: flush_check_def Let_def split: if_splits)
  have "fj_version j \<noteq> mark_of (c_shards ?c0 ! fj_shard_index j) (fj_key j)"
    by (rule stale_not_current [OF ok _ st]) simp
  then have "wb_ok h (task_done (inc_runtime f c)) (queued ?c0 + C) (sy_spec s) (sy_lost s) Idle"
    unfolding c by (intro wb_ok_drop [where w = "Taken j"]) (use wb_ok_runtime [OF ok] in simp_all)
  then show "wb_ok h (task_done (inc_runtime f c)) (queued (task_done (inc_runtime f c)) + C + held Idle)
      (sy_spec s) (sy_lost s) Idle" by (simp add: c)
qed

lemma wb_inv_fresh:
  assumes inv: "wb_inv h s" and p: "p < length (sy_workers s)" "sy_workers s ! p = Taken j"
    and ch: "flush_check j (sy_cache s) = (False, c)"
  shows "wb_inv h (s\<lparr>sy_cache := c, sy_workers := (sy_workers s)[p := Checked j]\<rparr>)"
proof (rule wb_step_worker' [OF inv p])
  fix C
  assume ok: "wb_ok h (sy_cache s) (queued (sy_cache s) + C + held (Taken j)) (sy_spec s) (sy_lost s) (Taken j)"
  then have "job_op_ok j" by (simp add: wb_ok_def)
  note F = fresh_current [OF ch this]
  show "wb_ok h c (queued c + C + held (Checked j)) (sy_spec s) (sy_lost s) (Checked j)"
    unfolding F(1) using wb_ok_checked [OF ok F(2)] by simp
qed

lemma wb_inv_store:
  assumes inv: "wb_inv h s" and p: "p < length (sy_workers s)" "sy_workers s ! p = Checked j"
    and a: "flush_apply j (sy_cache s) = (Inr u, c)"
  shows "wb_inv h (s\<lparr>sy_cache := c, sy_workers := (sy_workers s)[p := Applied j]\<rparr>)"
proof (rule wb_step_worker' [OF inv p])
  fix C
  assume ok: "wb_ok h (sy_cache s) (queued (sy_cache s) + C + held (Checked j)) (sy_spec s) (sy_lost s) (Checked j)"
  have "queued c = queued (sy_cache s)" using a by (auto simp: flush_apply_def split: prod.splits)
  then show "wb_ok h c (queued c + C + held (Applied j)) (sy_spec s) (sy_lost s) (Applied j)"
    using wb_ok_store [OF ok a] by simp
qed

lemma wb_inv_refuse:
  assumes inv: "wb_inv h s" and p: "p < length (sy_workers s)" "sy_workers s ! p = Checked j"
    and a: "flush_apply j (sy_cache s) = (Inl e, c)"
  shows "wb_inv h (s\<lparr>sy_cache := c, sy_workers := (sy_workers s)[p := Refused j]\<rparr>)"
proof (rule wb_step_worker' [OF inv p])
  fix C
  let ?c0 = "sy_cache s"
  assume ok: "wb_ok h ?c0 (queued ?c0 + C + held (Checked j)) (sy_spec s) (sy_lost s) (Checked j)"
  have R: "wb_ok h ?c0 (queued ?c0 + C + held (Checked j)) (sy_spec s) (sy_lost s) (Refused j)"
    by (rule wb_ok_worker [OF ok]) simp_all
  obtain s' where s': "apply_write_back j (c_source ?c0) = (Inl e, s')" and c: "c = ?c0\<lparr>c_source := s'\<rparr>"
    using a by (auto simp: flush_apply_def split: prod.splits)
  have "sd_contents s' = sd_contents (c_source ?c0)" using s' by (rule apply_write_back_fail)
  then show "wb_ok h c (queued c + C + held (Refused j)) (sy_spec s) (sy_lost s) (Refused j)"
    using R c by (simp add: wb_ok_def shard_for_def)
qed

lemma wb_inv_finish:
  assumes inv: "wb_inv h s" and p: "p < length (sy_workers s)" "sy_workers s ! p = Applied j"
  shows "wb_inv h (s\<lparr>sy_cache := task_done (inc_runtime f (flush_finish j (sy_cache s))),
    sy_workers := (sy_workers s)[p := Idle]\<rparr>)"
proof (rule wb_step_worker' [OF inv p])
  fix C
  let ?c0 = "sy_cache s"
  assume ok: "wb_ok h ?c0 (queued ?c0 + C + held (Applied j)) (sy_spec s) (sy_lost s) (Applied j)"
  then have "wb_ok h (flush_finish j ?c0) (queued ?c0 + C) (sy_spec s) (sy_lost s) Idle"
    by (intro wb_ok_finish) simp
  moreover have "1 \<le> surplus (flush_finish j ?c0)" using wb_ok_surplus [OF ok] by simp
  ultimately show "wb_ok h (task_done (inc_runtime f (flush_finish j ?c0)))
      (queued (task_done (inc_runtime f (flush_finish j ?c0))) + C + held Idle) (sy_spec s) (sy_lost s) Idle"
    by (simp add: wb_ok_done)
qed

lemma wb_inv_retry:
  assumes inv: "wb_inv h s" and p: "p < length (sy_workers s)" "sy_workers s ! p = Refused j"
    and e: "enqueue_job (FlushWriteBack (retry_job j)) True (inc_runtime g (sy_cache s)) = (r, c)"
  shows "r = Inr b \<Longrightarrow> wb_inv h (s\<lparr>sy_cache := task_done (inc_runtime f c), sy_workers := (sy_workers s)[p := Idle]\<rparr>)"
    and "r = Inl err \<Longrightarrow> wb_inv h (s\<lparr>sy_cache := c, sy_workers := (sy_workers s)[p := Abandoned j]\<rparr>)"
proof -
  let ?c0 = "sy_cache s"
  note Q = enqueue_outstanding [OF e]
  show "wb_inv h (s\<lparr>sy_cache := task_done (inc_runtime f c), sy_workers := (sy_workers s)[p := Idle]\<rparr>)" if "r = Inr b"
  proof (rule wb_step_worker' [OF inv p])
    fix C
    assume ok: "wb_ok h ?c0 (queued ?c0 + C + held (Refused j)) (sy_spec s) (sy_lost s) (Refused j)"
    have c: "wb_ok h c (queued ?c0 + C + held (Refused j)) (sy_spec s) (sy_lost s) (Refused j)"
      by (rule wb_ok_enqueue [OF wb_ok_runtime [OF ok] e])
    have "wb_ok h c (add_mset j (queued ?c0 + C)) (sy_spec s) (sy_lost s) Idle"
      using wb_ok_worker [OF c, of Idle] by simp
    then have "wb_ok h (task_done (inc_runtime f c)) (add_mset (retry_job j) (queued ?c0 + C)) (sy_spec s) (sy_lost s) Idle"
      using wb_ok_surplus [OF c] by (intro wb_ok_done wb_ok_retry_job) simp_all
    then show "wb_ok h (task_done (inc_runtime f c)) (queued (task_done (inc_runtime f c)) + C + held Idle)
        (sy_spec s) (sy_lost s) Idle" using Q that by simp
  qed
  show "wb_inv h (s\<lparr>sy_cache := c, sy_workers := (sy_workers s)[p := Abandoned j]\<rparr>)" if "r = Inl err"
  proof (rule wb_step_worker' [OF inv p])
    fix C
    assume ok: "wb_ok h ?c0 (queued ?c0 + C + held (Refused j)) (sy_spec s) (sy_lost s) (Refused j)"
    have "wb_ok h c (queued ?c0 + C + held (Refused j)) (sy_spec s) (sy_lost s) (Abandoned j)"
      by (rule wb_ok_worker [OF wb_ok_enqueue [OF wb_ok_runtime [OF ok] e]]) simp_all
    then show "wb_ok h c (queued c + C + held (Abandoned j)) (sy_spec s) (sy_lost s) (Abandoned j)"
      using Q that by simp
  qed
qed

lemma wb_inv_no_retry:
  assumes inv: "wb_inv h s" and p: "p < length (sy_workers s)" "sy_workers s ! p = Refused j"
  shows "wb_inv h (s\<lparr>sy_workers := (sy_workers s)[p := Abandoned j]\<rparr>)"
proof -
  have "wb_inv h (s\<lparr>sy_cache := sy_cache s, sy_workers := (sy_workers s)[p := Abandoned j]\<rparr>)"
  proof (rule wb_step_worker' [OF inv p])
    fix C
    assume ok: "wb_ok h (sy_cache s) (queued (sy_cache s) + C + held (Refused j)) (sy_spec s) (sy_lost s) (Refused j)"
    show "wb_ok h (sy_cache s) (queued (sy_cache s) + C + held (Abandoned j)) (sy_spec s) (sy_lost s) (Abandoned j)"
      using wb_ok_worker [OF ok, of "Abandoned j"] by simp
  qed
  then show ?thesis by simp
qed

lemma wb_inv_give_up:
  assumes inv: "wb_inv h s" and p: "p < length (sy_workers s)" "sy_workers s ! p = Abandoned j"
  shows "wb_inv h (s\<lparr>sy_cache := task_done (inc_runtime f (flush_give_up j (sy_cache s))),
    sy_workers := (sy_workers s)[p := Idle], sy_lost := insert (fj_key j) (sy_lost s)\<rparr>)"
proof (rule wb_step_worker [OF inv p])
  fix C
  let ?c0 = "sy_cache s" and ?c1 = "inc_runtime ''flush_failures'' (sy_cache s)"
  assume ok: "wb_ok h ?c0 (queued ?c0 + C + held (Abandoned j)) (sy_spec s) (sy_lost s) (Abandoned j)"
  have "wb_ok h ?c1 (add_mset j (queued ?c0 + C)) (sy_spec s) (insert (fj_key j) (sy_lost s)) (Abandoned j)"
    using wb_ok_runtime [OF wb_ok_lost [OF ok]] by simp
  then have "wb_ok h (task_done (inc_runtime f (flush_give_up j ?c0))) (queued ?c0 + C)
      (sy_spec s) (insert (fj_key j) (sy_lost s)) Idle"
    unfolding flush_give_up_def by (rule wb_ok_drop) simp_all
  then show "wb_ok h (task_done (inc_runtime f (flush_give_up j ?c0)))
      (queued (task_done (inc_runtime f (flush_give_up j ?c0))) + C + held Idle)
      (sy_spec s) (insert (fj_key j) (sy_lost s)) Idle"
    by (simp add: flush_give_up_def)
qed

lemma wb_step_inv: "wb_inv h s \<Longrightarrow> wb_step h s s' \<Longrightarrow> wb_inv h s'"
proof -
  assume inv: "wb_inv h s"
  assume "wb_step h s s'"
  then show "wb_inv h s'"
  proof cases
    case clear_call
    then show ?thesis using inv by (simp add: wb_inv_def outstanding_def)
  next
    case (enqueue p j js ok c)
    then show ?thesis using wb_inv_enqueue [OF inv enqueue(2-4)] by simp
  next
    case (reject p j js e c)
    then show ?thesis using wb_inv_enqueue [OF inv reject(2-4)] by simp
  next
    case (retry w j ok c)
    then show ?thesis using wb_inv_retry(1) [OF inv retry(2,3,5) refl] by simp
  next
    case (retry_full w j e c)
    then show ?thesis using wb_inv_retry(2) [OF inv retry_full(2,3,5) refl] by simp
  next
    case (stale w j c)
    then show ?thesis using wb_inv_stale [OF inv stale(2-4)] by simp
  next
    case (clear p jobs i jobs' c)
    then show ?thesis using wb_inv_clear [OF inv clear(2-5)] by simp
  qed (use inv in \<open>simp_all add: wb_inv_put wb_inv_delete wb_inv_quiet wb_inv_clock wb_inv_enqueue_other
      wb_inv_release wb_inv_take_other wb_inv_take wb_inv_fresh wb_inv_store wb_inv_refuse wb_inv_finish
      wb_inv_no_retry wb_inv_give_up\<close>)
qed

text \<open>A fresh write-back cache with a policy other than LFU and one worker.\<close>

definition wb_init :: "('k \<Rightarrow> nat) \<Rightarrow> ('k, 'v) system \<Rightarrow> bool" where
  "wb_init h s \<longleftrightarrow> (\<exists>cfg a source clock c. cache_init (Some cfg) a source clock = Inr c \<and>
     config_post_init cfg = Inr cfg \<and> c_write_mode c = WRITE_BACK \<and>
     str_lower (cfg_policy cfg) \<noteq> ''lfu'' \<and> s = wb_start 1 c)"

lemma wb_init_inv:
  assumes "wb_init h s"
  shows "wb_inv h s"
proof -
  obtain cfg a source clock c where init: "cache_init (Some cfg) a source clock = Inr c"
    and cfg: "config_post_init cfg = Inr cfg" and wbm: "c_write_mode c = WRITE_BACK"
    and nl: "str_lower (cfg_policy cfg) \<noteq> ''lfu''" and s: "s = wb_start 1 c"
    using assms by (auto simp: wb_init_def)
  have inv: "cache_inv h c"
    by (rule cache_init_inv [OF init]) (use cfg in \<open>simp add: config_post_init_iff\<close>)
  have f: "c_config c = cfg" "jq_items (c_queue c) = []"
    "make_shards cfg 0 (shard_capacities (cfg_capacity cfg) (cfg_shard_count cfg)) = Inr (c_shards c)"
    using init by (auto simp: cache_init_def init_config_def jq_init_def split: sum.splits if_splits)
  have "wb_key (c_shards c ! shard_for h c k) {#} (sd_contents (c_source c) k) (sd_contents (c_source c) k) False Idle k" for k
    using make_shards_fresh [OF f(3) nth_mem [OF shard_for_less [OF inv, of k]]] by (simp add: wb_key_defs)
  then show ?thesis using inv wbm nl f s by (simp add: wb_inv_def wb_start_def wb_ok_def outstanding_def)
qed

interpretation wb: step_invariant "wb_init h" "wb_step h" "wb_inv h" for h
  by unfold_locales (simp_all add: wb_init_inv wb_step_inv)

end
