(* ===== verification/Write_Back_Examples.thy ===== *)
theory Write_Back_Examples
  imports Write_Back_Inv
begin

text \<open>
  Concrete executions of the write-back system: one worker that flushes a put, two
  workers that race, and the LFU policy evicting the entry it has just inserted.
\<close>

definition wb_config :: "string \<Rightarrow> cache_config" where
  "wb_config policy = default_config\<lparr>cfg_capacity := 1, cfg_policy := policy,
     cfg_write_mode := ''write-back'', cfg_worker_count := 1\<rparr>"

definition wb_cache :: "string \<Rightarrow> (nat, nat) cache" where
  "wb_cache policy = (case cache_init (Some (wb_config policy)) init_args_unset None (fake_clock_init 0) of
     Inr c \<Rightarrow> c | Inl e \<Rightarrow> undefined)"

lemma wb_config_ok: "config_post_init (wb_config ''lru'') = Inr (wb_config ''lru'')"
  by code_simp

lemma wb_cache_init:
  "cache_init (Some (wb_config ''lru'')) init_args_unset None (fake_clock_init 0) = Inr (wb_cache ''lru'')"
  "c_write_mode (wb_cache ''lru'') = WRITE_BACK" "str_lower (cfg_policy (wb_config ''lru'')) \<noteq> ''lfu''"
  by code_simp+

lemma wb_example_init: "wb_init id (wb_start 1 (wb_cache ''lru''))"
  unfolding wb_init_def using wb_config_ok wb_cache_init by blast

section \<open>Steps as functions\<close>

text \<open>Each function takes one step, with a proof that the step relation allows it.\<close>

definition do_put :: "nat \<Rightarrow> nat \<Rightarrow> (nat, nat) system \<Rightarrow> (nat, nat) system" where
  "do_put k v s =
     (case put_section id k v TTL_UNSET (sy_cache s) of
        (Inr (Some j), c) \<Rightarrow> s\<lparr>sy_cache := c, sy_clients := sy_clients s @ [(False, [j])],
          sy_spec := (sy_spec s)(k \<mapsto> v), sy_lost := sy_lost s - {k}\<rparr>
      | _ \<Rightarrow> s)"

definition do_delete :: "nat \<Rightarrow> (nat, nat) system \<Rightarrow> (nat, nat) system" where
  "do_delete k s =
     (case delete_section id k (sy_cache s) of
        (Inr (b, Some j), c) \<Rightarrow> s\<lparr>sy_cache := c, sy_clients := sy_clients s @ [(False, [j])],
          sy_spec := (sy_spec s)(k := None), sy_lost := sy_lost s - {k}\<rparr>
      | _ \<Rightarrow> s)"

definition do_enqueue :: "nat \<Rightarrow> (nat, nat) system \<Rightarrow> (nat, nat) system" where
  "do_enqueue p s =
     (if p < length (sy_clients s)
      then (case sy_clients s ! p of
              (False, j # js) \<Rightarrow>
                (case enqueue_job (FlushWriteBack j) True (sy_cache s) of
                   (Inr ok, c) \<Rightarrow> s\<lparr>sy_cache := c, sy_clients := (sy_clients s)[p := (False, js)]\<rparr>
                 | _ \<Rightarrow> s)
            | _ \<Rightarrow> s)
      else s)"

definition do_work :: "nat \<Rightarrow> (nat, nat) system \<Rightarrow> (nat, nat) system" where
  "do_work w s =
     (if w < length (sy_workers s)
      then (case sy_workers s ! w of
              Idle \<Rightarrow>
                (case jq_get (c_queue (sy_cache s)) of
                   Some (FlushWriteBack j, q) \<Rightarrow>
                     s\<lparr>sy_cache := (sy_cache s)\<lparr>c_queue := q\<rparr>, sy_workers := (sy_workers s)[w := Taken j]\<rparr>
                 | _ \<Rightarrow> s)
            | Taken j \<Rightarrow>
                (case flush_check j (sy_cache s) of
                   (True, c) \<Rightarrow> s\<lparr>sy_cache := task_done (inc_runtime ''worker_jobs_completed'' c),
                                  sy_workers := (sy_workers s)[w := Idle]\<rparr>
                 | (False, c) \<Rightarrow> s\<lparr>sy_cache := c, sy_workers := (sy_workers s)[w := Checked j]\<rparr>)
            | Checked j \<Rightarrow>
                (case flush_apply j (sy_cache s) of
                   (Inr u, c) \<Rightarrow> s\<lparr>sy_cache := c, sy_workers := (sy_workers s)[w := Applied j]\<rparr>
                 | (Inl e, c) \<Rightarrow> s\<lparr>sy_cache := c, sy_workers := (sy_workers s)[w := Refused j]\<rparr>)
            | Applied j \<Rightarrow>
                s\<lparr>sy_cache := task_done (inc_runtime ''worker_jobs_completed'' (flush_finish j (sy_cache s))),
                  sy_workers := (sy_workers s)[w := Idle]\<rparr>
            | _ \<Rightarrow> s)
      else s)"

lemma do_put_steps: "(wb_step id)\<^sup>*\<^sup>* s (do_put k v s)"
  by (auto simp: do_put_def split: prod.splits sum.splits option.splits intro: wb_step.put)

lemma do_delete_steps: "(wb_step id)\<^sup>*\<^sup>* s (do_delete k s)"
  by (auto simp: do_delete_def split: prod.splits sum.splits option.splits intro: wb_step.delete)

lemma do_enqueue_steps: "(wb_step id)\<^sup>*\<^sup>* s (do_enqueue p s)"
  by (auto simp: do_enqueue_def split: prod.splits sum.splits bool.splits list.splits intro: wb_step.enqueue)

lemma do_work_steps: "(wb_step id)\<^sup>*\<^sup>* s (do_work w s)"
proof (cases "w < length (sy_workers s)")
  case len: True
  show ?thesis
  proof (cases "sy_workers s ! w")
    case Idle
    then show ?thesis
      using wb_step.take [OF len Idle] len
      by (auto simp: do_work_def split: option.split prod.split job.split)
  next
    case (Taken j)
    then show ?thesis
      using wb_step.stale [OF len Taken] wb_step.fresh [OF len Taken] len
      by (auto simp: do_work_def split: prod.split bool.split)
  next
    case (Checked j)
    then show ?thesis
      using wb_step.store [OF len Checked] wb_step.refuse [OF len Checked] len
      by (auto simp: do_work_def split: prod.split sum.split)
  next
    case (Applied j)
    then show ?thesis using wb_step.finish [OF len Applied] len by (simp add: do_work_def r_into_rtranclp)
  qed (simp_all add: do_work_def)
qed (simp add: do_work_def)

datatype move = MPut nat nat | MDelete nat | MEnqueue nat | MWork nat

fun do_move :: "move \<Rightarrow> (nat, nat) system \<Rightarrow> (nat, nat) system" where
  "do_move (MPut k v) s = do_put k v s"
| "do_move (MDelete k) s = do_delete k s"
| "do_move (MEnqueue p) s = do_enqueue p s"
| "do_move (MWork w) s = do_work w s"

lemma do_move_steps: "(wb_step id)\<^sup>*\<^sup>* s (do_move m s)"
  by (cases m) (simp_all add: do_put_steps do_delete_steps do_enqueue_steps do_work_steps)

lemma do_moves_steps: "(wb_step id)\<^sup>*\<^sup>* s (fold do_move ms s)"
proof (induction ms arbitrary: s)
  case (Cons m ms)
  show ?case using rtranclp_trans [OF do_move_steps [of s m] Cons.IH] by simp
qed simp

section \<open>One worker flushes a put\<close>

definition flushed :: "(nat, nat) system" where
  "flushed = fold do_move [MPut 1 10, MEnqueue 0, MWork 0, MWork 0, MWork 0, MWork 0]
     (wb_start 1 (wb_cache ''lru''))"

lemma flushed_reachable: "(wb_step id)\<^sup>*\<^sup>* (wb_start 1 (wb_cache ''lru'')) flushed"
  unfolding flushed_def by (rule do_moves_steps)

text \<open>What the examples report of a final state.\<close>

definition summary where
  "summary s = (flush_items (jq_items (c_queue (sy_cache s))), concat (map snd (sy_clients s)), sy_workers s,
     sy_lost s = {}, sy_spec s 1, sd_data (c_source (sy_cache s)),
     map (\<lambda>e. (ce_key e, ce_value e, ce_dirty e)) (mem_entries (sh_backend (c_shards (sy_cache s) ! 0))),
     rt_flush_failures (c_runtime (sy_cache s)), jq_dropped (c_queue (sy_cache s)))"

lemma flushed_summary:
  "summary flushed = ([], [], [Idle], True, Some 10, [(1, 10)], [(1, 10, False)], 0, 0)"
  by code_simp

lemma flushed_quiescent: "outstanding flushed = {#}" "sy_lost flushed = {}"
  using flushed_summary by (simp_all add: summary_def outstanding_def)

section \<open>Two workers race\<close>

text \<open>
  The first worker has found the put of key 1 fresh; before it writes, the key is
  deleted and the second worker flushes the delete; then the first worker writes.
\<close>

definition raced :: "(nat, nat) system" where
  "raced = fold do_move
     [MPut 1 10, MEnqueue 0, MWork 0, MWork 0, MDelete 1, MEnqueue 1, MWork 1, MWork 1, MWork 1, MWork 1,
      MWork 0, MWork 0] (wb_start 2 (wb_cache ''lru''))"

lemma raced_reachable: "(wb_step id)\<^sup>*\<^sup>* (wb_start 2 (wb_cache ''lru'')) raced"
  unfolding raced_def by (rule do_moves_steps)

lemma raced_summary:
  "summary raced = ([], [], [Idle, Idle], True, None, [(1, 10)], [], 0, 0)"
  by code_simp

section \<open>LFU evicts the newcomer\<close>

text \<open>
  The shard holds one entry, key 1, read once. A put of key 2 is evicted by its own
  capacity check; its flush job is then found stale and skipped.
\<close>

definition lfu_run :: "(nat, nat) cache" where
  "lfu_run = run id [Put 1 10 TTL_UNSET, Get 1 None, Put 2 20 TTL_UNSET, WorkerTurn, WorkerTurn] (wb_cache ''lfu'')"

lemma lfu_run_summary:
  "(sd_data (c_source lfu_run), mem_keys (sh_backend (c_shards lfu_run ! 0)), jq_depth (c_queue lfu_run),
    rt_stale_write_back_jobs_skipped (c_runtime lfu_run), rt_flush_failures (c_runtime lfu_run),
    jq_dropped (c_queue lfu_run)) = ([(1, 10)], [1], 0, 1, 0, 0)"
  by code_simp

end
