(* ===== verification/Lifecycle.thy ===== *)
theory Lifecycle
  imports Flush
begin

text \<open>
  \<open>Cache.close\<close> with \<open>workers/worker_pool.py\<close>, \<open>workers/scheduler.py\<close> and
  \<open>workers/shutdown.py\<close>: the end of a cache's life, and the flush of dirty entries at
  shutdown.

  \<open>close\<close> waits twice for the worker threads, each time at most \<open>timeout\<close> seconds. What the
  threads do in a wait is a number of worker turns, given as an argument; the wait
  ends early when there is nothing left to wait for. The closing thread holds
  \<open>_lifecycle_lock\<close> throughout, so a worker whose job calls \<open>put\<close> blocks until it returns.
\<close>

section \<open>Stopping the scheduler\<close>

text \<open>
  The scheduler thread wakes as soon as the stop event is set; \<open>exits\<close> says whether it was
  seen to end before the join timed out.
\<close>

definition scheduler_stop :: "bool \<Rightarrow> expiration_scheduler \<Rightarrow> expiration_scheduler" where
  "scheduler_stop exits sc =
     sc\<lparr>sc_stop := True,
        sc_thread := (case sc_thread sc of Some True \<Rightarrow> Some (\<not> exits) | t \<Rightarrow> t)\<rparr>"

definition scheduler_alive :: "expiration_scheduler \<Rightarrow> bool" where
  "scheduler_alive sc \<longleftrightarrow> sc_thread sc = Some True"

section \<open>Flushing at shutdown\<close>

definition dirty_put_jobs :: "int \<Rightarrow> ('k, 'v) shard \<Rightarrow> ('k, 'v) flush_job list" where
  "dirty_put_jobs retries sh =
     map (\<lambda>e. flush_put_job sh (ce_key e) (ce_value e) (ce_version e) retries)
       (filter ce_dirty (mem_entries (sh_backend sh)))"

definition tombstone_jobs :: "int \<Rightarrow> ('k, 'v) shard \<Rightarrow> ('k, 'v) flush_job list" where
  "tombstone_jobs retries sh =
     map (\<lambda>(k, version). flush_delete_job sh k version retries) (sh_tombstones sh)"

text \<open>\<open>_enqueue_dirty_write_back_jobs\<close>.\<close>

fun register_jobs :: "('k, 'v) flush_job list \<Rightarrow> ('k, 'v) shard \<Rightarrow> ('k, 'v) shard" where
  "register_jobs [] sh = sh"
| "register_jobs (j # js) sh = register_jobs js (register_pending_locked (fj_key j) sh)"

fun enqueue_or_release :: "('k, 'v) flush_job list \<Rightarrow> ('k, 'v) cache \<Rightarrow> ('k, 'v) cache" where
  "enqueue_or_release [] c = c"
| "enqueue_or_release (j # js) c =
     (case enqueue_job (FlushWriteBack j) True c of
        (Inl e, c1) \<Rightarrow> release_jobs (j # js) c1
      | (Inr ok, c1) \<Rightarrow> enqueue_or_release js c1)"

definition enqueue_dirty_shard :: "nat \<Rightarrow> ('k, 'v) cache \<Rightarrow> ('k, 'v) cache" where
  "enqueue_dirty_shard i c =
     (let retries = cfg_write_back_retry_count (c_config c);
          sh = c_shards c ! i;
          jobs = dirty_put_jobs retries sh @ tombstone_jobs retries sh
      in enqueue_or_release jobs (set_shard i (register_jobs jobs sh) c))"

definition enqueue_dirty_write_back_jobs :: "('k, 'v) cache \<Rightarrow> ('k, 'v) cache" where
  "enqueue_dirty_write_back_jobs c = fold enqueue_dirty_shard [0..<length (c_shards c)] c"

text \<open>
  \<open>_flush_dirty_entries_sync\<close>: the retry loop of one job (\<open>attempts\<close> tries left), one job,
  the jobs of one shard, all shards. The result says whether something failed.
\<close>

definition sync_attempt :: "('k, 'v) flush_job \<Rightarrow> ('k, 'v) cache \<Rightarrow> bool \<times> ('k, 'v) cache" where
  "sync_attempt j c =
     (case (if fj_operation j = ''put'' then sd_put_value (fj_key j) (the (fj_value j)) (c_source c)
            else sd_delete_value (fj_key j) (c_source c)) of
        (Inl e, source) \<Rightarrow> (False, c\<lparr>c_source := source\<rparr>)
      | (Inr u, source) \<Rightarrow>
          (let i = fj_shard_index j; c1 = c\<lparr>c_source := source\<rparr>
           in (True, if fj_operation j = ''put''
                     then set_shard i (mark_clean_locked (fj_key j) (fj_version j) (c_shards c1 ! i)) c1
                     else c1)))"

fun sync_attempts :: "nat \<Rightarrow> ('k, 'v) flush_job \<Rightarrow> ('k, 'v) cache \<Rightarrow> bool \<times> ('k, 'v) cache" where
  "sync_attempts 0 j c = (False, c)"
| "sync_attempts (Suc left) j c =
     (case sync_attempt j c of
        (True, c1) \<Rightarrow> (True, c1)
      | (False, c1) \<Rightarrow>
          sync_attempts left j
            (if 0 < left
             then (let c2 = inc_runtime ''write_back_retries'' c1
                   in c2\<lparr>c_clock := clock_sleep (cfg_write_back_retry_delay (c_config c2)) (c_clock c2)\<rparr>)
             else c1))"

definition clear_pending :: "nat \<Rightarrow> 'k \<Rightarrow> ('k, 'v) cache \<Rightarrow> ('k, 'v) cache" where
  "clear_pending i k c = set_shard i (clear_pending_flushes_locked k (c_shards c ! i)) c"

definition sync_job :: "('k, 'v) flush_job \<Rightarrow> ('k, 'v) cache \<Rightarrow> bool \<times> ('k, 'v) cache" where
  "sync_job j c =
     (let i = fj_shard_index j; sh = c_shards c ! i in
      if is_stale_write_back (sh_version_marks sh) (sh_tombstones sh) j
      then (False, clear_pending i (fj_key j) (inc_runtime ''stale_write_back_jobs_skipped'' c))
      else (case sync_attempts (nat (fj_retries_left j + 1)) j c of
              (True, c1) \<Rightarrow> (False, clear_pending i (fj_key j) c1)
            | (False, c1) \<Rightarrow> (True, clear_pending i (fj_key j) (inc_runtime ''flush_failures'' c1))))"

fun sync_jobs :: "('k, 'v) flush_job list \<Rightarrow> bool \<Rightarrow> ('k, 'v) cache \<Rightarrow> bool \<times> ('k, 'v) cache" where
  "sync_jobs [] failed c = (failed, c)"
| "sync_jobs (j # js) failed c =
     (case sync_job j c of (f, c1) \<Rightarrow> sync_jobs js (failed \<or> f) c1)"

fun sync_shards :: "nat list \<Rightarrow> bool \<Rightarrow> ('k, 'v) cache \<Rightarrow> bool \<times> ('k, 'v) cache" where
  "sync_shards [] failed c = (failed, c)"
| "sync_shards (i # is) failed c =
     (let retries = cfg_write_back_retry_count (c_config c); sh = c_shards c ! i
      in case sync_jobs (dirty_put_jobs retries sh @ tombstone_jobs retries sh) failed c of
           (f, c1) \<Rightarrow> sync_shards is f c1)"

definition flush_dirty_entries_sync :: "('k, 'v) cache \<Rightarrow> bool \<times> ('k, 'v) cache" where
  "flush_dirty_entries_sync c = sync_shards [0..<length (c_shards c)] False c"

definition count_dirty_entries :: "('k, 'v) cache \<Rightarrow> nat" where
  "count_dirty_entries c =
     sum_list (map (\<lambda>sh. length (filter ce_dirty (mem_entries (sh_backend sh)))) (c_shards c))"

section \<open>Close\<close>

text \<open>
  A wait of the closing thread: at most \<open>turns\<close> worker turns by \<open>free\<close> threads. A preload
  whose loader returns calls \<open>put\<close>, which blocks its thread on the lifecycle lock: the
  thread keeps its job and is free no longer. A thread that leaves its loop is gone.
  The result counts the threads still in their loop, free and blocked.
\<close>

fun close_window ::
  "('k \<Rightarrow> nat) \<Rightarrow> nat \<Rightarrow> nat \<Rightarrow> nat \<Rightarrow> ('k, 'v) cache \<Rightarrow> nat \<times> nat \<times> ('k, 'v) cache" where
  "close_window h 0 free blocked c = (free, blocked, c)"
| "close_window h (Suc turns) free blocked c =
     (if free = 0 then (free, blocked, c)
      else
        (case jq_get (c_queue c) of
           Some (PreloadKey j, q) \<Rightarrow>
             (case pj_loader j of
                Inr v \<Rightarrow> close_window h turns (free - 1) (blocked + 1) (c\<lparr>c_queue := q\<rparr>)
              | Inl e \<Rightarrow> close_window h turns free blocked (snd (worker_turn h c)))
         | _ \<Rightarrow>
             (case worker_turn h c of
                (True, c1) \<Rightarrow> close_window h turns (free - 1) blocked c1
              | (False, c1) \<Rightarrow> close_window h turns free blocked c1)))"

text \<open>\<open>join_until\<close>: true when every task is finished at the end of the wait.\<close>

definition join_until :: "('k, 'v) cache \<Rightarrow> bool" where
  "join_until c \<longleftrightarrow> jq_unfinished (c_queue c) = 0"

definition offer_stops :: "nat \<Rightarrow> ('k, 'v) job job_queue \<Rightarrow> ('k, 'v) job job_queue" where
  "offer_stops n q = ((\<lambda>q. snd (jq_offer (StopWorker ''shutdown'') q)) ^^ n) q"

text \<open>\<open>WorkerPool.stop\<close>, given the threads that are free and blocked when it is called.\<close>

definition worker_pool_stop ::
  "('k \<Rightarrow> nat) \<Rightarrow> nat \<Rightarrow> nat \<Rightarrow> nat \<Rightarrow> ('k, 'v) cache \<Rightarrow> ('k, 'v) cache" where
  "worker_pool_stop h turns free blocked c =
     (let c3 = (if wp_started (c_pool c)
                then (let n = length (wp_threads (c_pool c));
                          c1 = c\<lparr>c_pool := (c_pool c)\<lparr>wp_stop_event := True\<rparr>,
                                 c_queue := offer_stops n (c_queue c)\<rparr>;
                          (free', blocked', c2) = close_window h turns free blocked c1
                      in c2\<lparr>c_pool := (c_pool c2)\<lparr>wp_started := False,
                                                   wp_threads := replicate (free' + blocked') True\<rparr>\<rparr>)
                else c)
      in c3\<lparr>c_queue := snd (jq_drain (c_queue c3))\<rparr>)"

text \<open>
  The write-back flush of \<open>close\<close>: whether it failed, the threads left free and blocked.
\<close>

definition close_flush ::
  "('k \<Rightarrow> nat) \<Rightarrow> nat \<Rightarrow> ('k, 'v) cache \<Rightarrow> bool \<times> nat \<times> nat \<times> ('k, 'v) cache" where
  "close_flush h turns c =
     (let workers = length (filter id (wp_threads (c_pool c)));
          d = enqueue_dirty_write_back_jobs c;
          running = (wp_started (c_pool d) \<and> 0 < cfg_worker_count (c_config d));
          (free, blocked, d1) = (if running then close_window h turns workers 0 d else (workers, 0, d));
          (sync_failed, d2) = flush_dirty_entries_sync d1;
          flush_failed = (sync_failed \<or> \<not> (running \<longrightarrow> join_until d1))
      in (flush_failed, free, blocked,
          if flush_failed then inc_runtime ''shutdown_flush_failures'' d2 else d2))"

text \<open>
  \<open>flush\<close> is the argument of \<open>close\<close> or the configured default. \<open>exits\<close> is as in
  \<open>scheduler_stop\<close>; \<open>turns1\<close> and \<open>turns2\<close> are the turns of the two waits.
\<close>

definition cache_close ::
  "('k \<Rightarrow> nat) \<Rightarrow> bool option \<Rightarrow> bool \<Rightarrow> nat \<Rightarrow> nat \<Rightarrow> ('k, 'v) cache \<Rightarrow> (unit, ('k, 'v) cache) outcome" where
  "cache_close h flush exits turns1 turns2 c =
     (if c_state c = CLOSED then (Inr (), c)
      else
        (let do_flush = arg_or flush (cfg_shutdown_flush (c_config c));
             c1 = c\<lparr>c_state := CLOSING, c_scheduler := scheduler_stop exits (c_scheduler c)\<rparr>;
             (failed, free, blocked, c2) =
               (if do_flush \<and> c_write_mode c1 = WRITE_BACK then close_flush h turns1 c1
                else (False, length (filter id (wp_threads (c_pool c1))), 0, c1));
             c3 = (worker_pool_stop h turns2 free blocked c2)\<lparr>c_state := CLOSED\<rparr>
         in if failed then (Inl (ShutdownFlushError (count_dirty_entries c3)), c3) else (Inr (), c3)))"

end
