(* ===== verification/Shutdown.thy ===== *)
theory Shutdown
  imports Lifecycle
begin

text \<open>
  What shutdown guarantees: the synchronous flush persists every dirty entry and every
  tombstone or reports a failure, a normal \<open>close(flush=True)\<close> leaves no dirty entry, the
  lifecycle is one-way, and a closed cache refuses every operation.
\<close>

section \<open>One job of the synchronous flush\<close>

definition job_effect :: "('k, 'v) flush_job \<Rightarrow> ('k \<Rightarrow> 'v option) \<Rightarrow> ('k \<Rightarrow> 'v option)" where
  "job_effect j m = m(fj_key j := (if fj_operation j = ''put'' then Some (the (fj_value j)) else None))"

definition job_cleaned :: "('k, 'v) flush_job \<Rightarrow> ('k, 'v) cache \<Rightarrow> ('k, 'v) shard" where
  "job_cleaned j c = (let sh = c_shards c ! fj_shard_index j in
     if fj_operation j = ''put'' then mark_clean_locked (fj_key j) (fj_version j) sh else sh)"

lemma sync_attempt_effect:
  assumes "sync_attempt j c = (ok, c')"
  shows "c_shards c' = (if ok then (c_shards c)[fj_shard_index j := job_cleaned j c] else c_shards c)"
    and "sd_contents (c_source c') = (if ok then job_effect j (sd_contents (c_source c)) else sd_contents (c_source c))"
    and "c_config c' = c_config c" and "ok \<longleftrightarrow> sd_failures_remaining (c_source c) \<le> 0"
    and "\<not> ok \<Longrightarrow> sd_failures_remaining (c_source c') = sd_failures_remaining (c_source c) - 1"
    and "ok \<Longrightarrow> sd_failures_remaining (c_source c') = sd_failures_remaining (c_source c)"
  using assms
  by (auto simp: sync_attempt_def sd_defs Let_def job_cleaned_def job_effect_def set_shard_def fun_eq_iff
      split: if_splits)

lemma sync_attempt_inv:
  assumes inv: "cache_inv h c" and i: "fj_shard_index j < length (c_shards c)"
  shows "cache_inv h (snd (sync_attempt j c))"
proof -
  have "cache_inv h (set_shard (fj_shard_index j)
      (mark_clean_locked (fj_key j) (fj_version j) (c_shards c ! fj_shard_index j)) c)"
    by (rule cache_inv_set_shard [OF inv i evolves_mark_clean [OF cache_inv_shard [OF inv i]]])
  then have "cache_inv h (set_shard (fj_shard_index j)
      (mark_clean_locked (fj_key j) (fj_version j) (c_shards c ! fj_shard_index j)) (c\<lparr>c_source := x\<rparr>))" for x
    by (simp add: cache_inv_def)
  then show ?thesis using inv by (simp add: sync_attempt_def Let_def case_prod_beta split: sum.splits)
qed

lemma sync_attempts_effect:
  assumes "sync_attempts n j c = (ok, c')"
  shows "c_shards c' = (if ok then (c_shards c)[fj_shard_index j := job_cleaned j c] else c_shards c) \<and>
    sd_contents (c_source c') = (if ok then job_effect j (sd_contents (c_source c)) else sd_contents (c_source c)) \<and>
    c_config c' = c_config c \<and> (0 < n \<longrightarrow> sd_failures_remaining (c_source c) < int n \<longrightarrow> ok) \<and>
    sd_failures_remaining (c_source c') \<le> sd_failures_remaining (c_source c)"
  using assms
proof (induction n arbitrary: c)
  case 0
  then show ?case by auto
next
  case (Suc n)
  obtain ok1 c1 where a: "sync_attempt j c = (ok1, c1)" by fastforce
  note A = sync_attempt_effect [OF a]
  show ?case
  proof (cases ok1)
    case True
    then show ?thesis using Suc.prems a A by simp
  next
    case False
    let ?c2 = "if 0 < n then (let c2 = inc_runtime ''write_back_retries'' c1
      in c2\<lparr>c_clock := clock_sleep (cfg_write_back_retry_delay (c_config c2)) (c_clock c2)\<rparr>) else c1"
    have same: "c_shards ?c2 = c_shards c1" "c_source ?c2 = c_source c1" "c_config ?c2 = c_config c1"
      by (simp_all add: Let_def)
    have "sync_attempts n j ?c2 = (ok, c')" using Suc.prems a False by simp
    from Suc.IH [OF this] show ?thesis
      using A False same by (auto simp: job_cleaned_def)
  qed
qed

lemma sync_attempts_inv:
  assumes "cache_inv h c" and "fj_shard_index j < length (c_shards c)"
  shows "cache_inv h (snd (sync_attempts n j c))"
  using assms
proof (induction n arbitrary: c)
  case (Suc n)
  obtain ok1 c1 where a: "sync_attempt j c = (ok1, c1)" by fastforce
  have "cache_inv h c1" using sync_attempt_inv [OF Suc.prems] a by simp
  moreover have "length (c_shards c1) = length (c_shards c)" using sync_attempt_effect(1) [OF a] by simp
  ultimately show ?case using Suc.IH Suc.prems a by (simp add: Let_def split: bool.splits)
qed simp

text \<open>The part of a shard that concerns one key.\<close>

definition key_same :: "'k \<Rightarrow> ('k, 'v) shard \<Rightarrow> ('k, 'v) shard \<Rightarrow> bool" where
  "key_same k sh sh' \<longleftrightarrow> dict_get (sh_backend sh') k = dict_get (sh_backend sh) k \<and>
     dict_get0 (sh_version_marks sh') k = dict_get0 (sh_version_marks sh) k \<and>
     dict_get (sh_tombstones sh') k = dict_get (sh_tombstones sh) k"

lemma key_same_clear_pending: "i \<noteq> k \<Longrightarrow> key_same i sh (clear_pending_flushes_locked k sh)"
  by (simp add: key_same_def clear_pending_flushes_locked_def maybe_prune_marks_locked_def)

lemma key_same_mark_clean: "shard_inv sh \<Longrightarrow> i \<noteq> k \<Longrightarrow> key_same i sh (mark_clean_locked k v sh)"
  using inv_entry_key [of sh k]
  by (auto simp: key_same_def mark_clean_locked_def mem_get_entry_def mem_put_entry_def split: option.splits)

lemma key_same_trans: "key_same k a b \<Longrightarrow> key_same k b c \<Longrightarrow> key_same k a c"
  by (simp add: key_same_def)

lemma stale_key_same:
  "key_same (fj_key j) sh sh' \<Longrightarrow>
     is_stale_write_back (sh_version_marks sh') (sh_tombstones sh') j =
     is_stale_write_back (sh_version_marks sh) (sh_tombstones sh) j"
  by (simp add: key_same_def is_stale_write_back_def Let_def)

definition job_fresh :: "('k, 'v) cache \<Rightarrow> ('k, 'v) flush_job \<Rightarrow> bool" where
  "job_fresh c j \<longleftrightarrow> fj_shard_index j < length (c_shards c) \<and>
     \<not> is_stale_write_back (sh_version_marks (c_shards c ! fj_shard_index j))
         (sh_tombstones (c_shards c ! fj_shard_index j)) j"

text \<open>
  A fresh job either fails, or puts its value into the source and cleans its entry. Other
  keys and other shards are left alone either way.
\<close>

lemma sync_job_effect:
  assumes inv: "cache_inv h c" and fresh: "job_fresh c j" and s: "sync_job j c = (f, c')"
  shows "cache_inv h c'" and "length (c_shards c') = length (c_shards c)" and "c_config c' = c_config c"
    and "\<And>i. i \<noteq> fj_shard_index j \<Longrightarrow> c_shards c' ! i = c_shards c ! i"
    and "\<And>k. k \<noteq> fj_key j \<Longrightarrow> key_same k (c_shards c ! fj_shard_index j) (c_shards c' ! fj_shard_index j)"
    and "sd_contents (c_source c') = (if f then sd_contents (c_source c) else job_effect j (sd_contents (c_source c)))"
    and "sh_backend (c_shards c' ! fj_shard_index j) =
      sh_backend (if f then c_shards c ! fj_shard_index j else job_cleaned j c)"
    and "sd_failures_remaining (c_source c) \<le> fj_retries_left j \<Longrightarrow> 0 \<le> fj_retries_left j \<Longrightarrow> \<not> f"
    and "sd_failures_remaining (c_source c') \<le> sd_failures_remaining (c_source c)"
proof -
  let ?i = "fj_shard_index j" and ?k = "fj_key j"
  have i: "?i < length (c_shards c)" using fresh by (simp add: job_fresh_def)
  note si = cache_inv_shard [OF inv i]
  obtain ok c1 where a: "sync_attempts (nat (fj_retries_left j + 1)) j c = (ok, c1)" by fastforce
  note A = sync_attempts_effect [OF a]
  have inv1: "cache_inv h c1" using sync_attempts_inv [OF inv i, of "nat (fj_retries_left j + 1)"] a by simp
  have c': "f = (\<not> ok)" "c' = clear_pending ?i ?k (if ok then c1 else inc_runtime ''flush_failures'' c1)"
    using s fresh a by (auto simp: sync_job_def job_fresh_def Let_def split: bool.splits)
  have len1: "length (c_shards c1) = length (c_shards c)" using A by simp
  have sh1: "c_shards c1 ! ?i = (if ok then job_cleaned j c else c_shards c ! ?i)" using A i by simp
  have shards': "c_shards c' = (c_shards c1)[?i := clear_pending_flushes_locked ?k (c_shards c1 ! ?i)]"
    by (simp add: c'(2) clear_pending_def)
  have "cache_inv h (clear_pending ?i ?k c1)"
    unfolding clear_pending_def using inv1 i len1
    by (intro cache_inv_set_shard evolves_clear_pending) (simp_all add: cache_inv_shard)
  then show "cache_inv h c'" by (auto simp: c'(2) clear_pending_def set_shard_def cache_inv_def)
  show "length (c_shards c') = length (c_shards c)" using shards' len1 by simp
  show "c_config c' = c_config c" using A by (simp add: c'(2) clear_pending_def)
  show "c_shards c' ! m = c_shards c ! m" if "m \<noteq> ?i" for m using A that by (simp add: shards')
  show "sd_contents (c_source c') = (if f then sd_contents (c_source c) else job_effect j (sd_contents (c_source c)))"
    using A by (simp add: c' clear_pending_def)
  show "sh_backend (c_shards c' ! ?i) = sh_backend (if f then c_shards c ! ?i else job_cleaned j c)"
    using shards' i len1 sh1 by (simp add: c'(1))
  show "key_same k (c_shards c ! ?i) (c_shards c' ! ?i)" if k: "k \<noteq> ?k" for k
  proof -
    have "key_same k (c_shards c ! ?i) (c_shards c1 ! ?i)"
      using key_same_mark_clean [OF si k] sh1 by (simp add: job_cleaned_def key_same_def Let_def)
    then show ?thesis
      using key_same_trans [OF _ key_same_clear_pending [OF k]] shards' i len1 by simp
  qed
  show "\<not> f" if "sd_failures_remaining (c_source c) \<le> fj_retries_left j" "0 \<le> fj_retries_left j"
    using A that c'(1) by simp
  show "sd_failures_remaining (c_source c') \<le> sd_failures_remaining (c_source c)"
    using A by (simp add: c'(2) clear_pending_def)
qed

section \<open>The jobs of a shard\<close>

lemma job_cleaned_key_same:
  "key_same (fj_key j) sh sh' \<Longrightarrow> fj_shard_index j = i \<Longrightarrow> c_shards c ! i = sh \<Longrightarrow> c_shards c' ! i = sh' \<Longrightarrow>
     shard_inv sh \<Longrightarrow> shard_inv sh' \<Longrightarrow>
     dict_get (sh_backend (job_cleaned j c')) (fj_key j) = dict_get (sh_backend (job_cleaned j c)) (fj_key j)"
  using inv_entry_key [of sh "fj_key j"] inv_entry_key [of sh' "fj_key j"]
  by (auto simp: job_cleaned_def Let_def mark_clean_locked_def mem_get_entry_def mem_put_entry_def key_same_def
      split: option.splits)

lemma sync_jobs_effect:
  assumes "cache_inv h c" and "\<forall>j \<in> set js. job_fresh c j \<and> fj_shard_index j = i" and "distinct (map fj_key js)"
    and "sync_jobs js f0 c = (f, c')"
  shows "cache_inv h c' \<and> length (c_shards c') = length (c_shards c) \<and> c_config c' = c_config c \<and>
    (\<forall>m. m \<noteq> i \<longrightarrow> c_shards c' ! m = c_shards c ! m) \<and>
    (\<forall>k. k \<notin> fj_key ` set js \<longrightarrow> key_same k (c_shards c ! i) (c_shards c' ! i) \<and>
       sd_contents (c_source c') k = sd_contents (c_source c) k) \<and>
    (\<not> f \<longrightarrow> (\<forall>j \<in> set js. sd_contents (c_source c') (fj_key j) = job_effect j Map.empty (fj_key j) \<and>
       dict_get (sh_backend (c_shards c' ! i)) (fj_key j) = dict_get (sh_backend (job_cleaned j c)) (fj_key j))) \<and>
    (f0 \<longrightarrow> f) \<and> sd_failures_remaining (c_source c') \<le> sd_failures_remaining (c_source c) \<and>
    (\<not> f0 \<and> (\<forall>j \<in> set js. 0 \<le> fj_retries_left j \<and> sd_failures_remaining (c_source c) \<le> fj_retries_left j) \<longrightarrow> \<not> f)"
  using assms
proof (induction js arbitrary: c f0)
  case Nil
  then show ?case by (auto simp: key_same_def)
next
  case (Cons j js)
  obtain f1 c1 where s: "sync_job j c = (f1, c1)" by fastforce
  have fj: "job_fresh c j" and ij: "fj_shard_index j = i" using Cons.prems(2) by simp_all
  then have i: "i < length (c_shards c)" by (auto simp: job_fresh_def)
  note E = sync_job_effect [OF Cons.prems(1) fj s]
  have si: "shard_inv (c_shards c ! i)" "shard_inv (c_shards c1 ! i)"
    using cache_inv_shard [OF Cons.prems(1) i] cache_inv_shard [OF E(1), of i] E(2) i by simp_all
  have jk: "fj_key j \<notin> fj_key ` set js" using Cons.prems(3) by simp
  have other: "fj_key j' \<noteq> fj_key j" if "j' \<in> set js" for j' using jk that by (metis imageI)
  have fresh1: "\<forall>j' \<in> set js. job_fresh c1 j' \<and> fj_shard_index j' = i"
  proof
    fix j'
    assume j': "j' \<in> set js"
    have "key_same (fj_key j') (c_shards c ! i) (c_shards c1 ! i)" using E(5) other [OF j'] ij by simp
    moreover have "job_fresh c j'" and "fj_shard_index j' = i" using Cons.prems(2) j' by simp_all
    ultimately show "job_fresh c1 j' \<and> fj_shard_index j' = i"
      using E(2) stale_key_same by (metis job_fresh_def)
  qed
  have "sync_jobs js (f0 \<or> f1) c1 = (f, c')" using Cons.prems(4) s by simp
  note I = Cons.IH [OF E(1) fresh1 _ this]
  have "distinct (map fj_key js)" using Cons.prems(3) by simp
  note I = I [OF this]
  have rest: "dict_get (sh_backend (job_cleaned j' c1)) (fj_key j') = dict_get (sh_backend (job_cleaned j' c)) (fj_key j')"
    if "j' \<in> set js" for j'
    by (rule job_cleaned_key_same [OF _ _ refl refl si]) (use E(5) other [OF that] ij fresh1 that in auto)
  show ?case
  proof (intro conjI allI impI ballI)
    show "cache_inv h c'" "length (c_shards c') = length (c_shards c)" "c_config c' = c_config c"
      using I E by simp_all
    show "c_shards c' ! m = c_shards c ! m" if "m \<noteq> i" for m using I E(4) ij that by simp
    fix k
    assume k: "k \<notin> fj_key ` set (j # js)"
    show "key_same k (c_shards c ! i) (c_shards c' ! i)"
      using I E(5) [of k] ij k by (auto intro: key_same_trans)
    show "sd_contents (c_source c') k = sd_contents (c_source c) k"
      using I E(6) k by (auto simp: job_effect_def)
  next
    fix j'
    assume nf: "\<not> f" and j': "j' \<in> set (j # js)"
    have nf1: "\<not> f1" using I nf by auto
    show "sd_contents (c_source c') (fj_key j') = job_effect j' Map.empty (fj_key j')"
      using I E(6) j' nf nf1 jk by (auto simp: job_effect_def)
    show "dict_get (sh_backend (c_shards c' ! i)) (fj_key j') = dict_get (sh_backend (job_cleaned j' c)) (fj_key j')"
      using I E(7) ij j' nf nf1 jk rest by (auto simp: key_same_def)
  next
    show "f" if f0 using I that by simp
    show "sd_failures_remaining (c_source c') \<le> sd_failures_remaining (c_source c)" using I E(9) by simp
    show "\<not> f" if "\<not> f0 \<and> (\<forall>j \<in> set (j # js). 0 \<le> fj_retries_left j \<and> sd_failures_remaining (c_source c) \<le> fj_retries_left j)"
    proof -
      have "\<not> f1" using E(8) that by simp
      moreover have "0 \<le> fj_retries_left j' \<and> sd_failures_remaining (c_source c1) \<le> fj_retries_left j'"
        if "j' \<in> set js" for j'
        using \<open>\<not> f0 \<and> _\<close> that order_trans [OF E(9)] by simp
      ultimately show ?thesis using I that by simp
    qed
  qed
qed

section \<open>The synchronous flush\<close>

lemma shard_jobs:
  fixes c :: "('k, 'v) cache" and r :: int
  assumes inv: "cache_inv h c" and i: "i < length (c_shards c)"
  defines "js \<equiv> dirty_put_jobs r (c_shards c ! i) @ tombstone_jobs r (c_shards c ! i)"
  shows "\<And>j. j \<in> set js \<Longrightarrow> job_fresh c j \<and> fj_shard_index j = i \<and> fj_retries_left j = r \<and> shard_for h c (fj_key j) = i"
    and "distinct (map fj_key js)"
    and "\<And>k e. dict_get (sh_backend (c_shards c ! i)) k = Some e \<Longrightarrow> ce_dirty e \<Longrightarrow>
      flush_put_job (c_shards c ! i) k (ce_value e) (ce_version e) r \<in> set js"
    and "\<And>k t. dict_get (sh_tombstones (c_shards c ! i)) k = Some t \<Longrightarrow> flush_delete_job (c_shards c ! i) k t r \<in> set js"
    and "\<And>j. j \<in> set js \<Longrightarrow>
      (\<exists>e. dict_get (sh_backend (c_shards c ! i)) (fj_key j) = Some e \<and> ce_dirty e) \<or>
      dict_get (sh_tombstones (c_shards c ! i)) (fj_key j) \<noteq> None"
proof -
  let ?sh = "c_shards c ! i"
  note si = cache_inv_shard [OF inv i] and idx = cache_inv_index [OF inv i]
  have mem: "mem_inv (sh_backend ?sh)" and wf: "dict_wf (sh_tombstones ?sh)"
    and marks: "\<And>k e. dict_get (sh_backend ?sh) k = Some e \<Longrightarrow>
      dict_get (sh_version_marks ?sh) k = Some (ce_version e) \<and> dict_get (sh_tombstones ?sh) k = None"
    and tombs: "\<And>k t. dict_get (sh_tombstones ?sh) k = Some t \<Longrightarrow> dict_get (sh_version_marks ?sh) k = Some t"
    using si by (auto simp: shard_inv_def core_defs)
  have route: "shard_for h c k = i" if "k \<in> sh_live ?sh \<union> sh_tombs ?sh" for k
    using inv i that by (auto simp: cache_inv_def shard_at_def shard_for_def)
  have entry: "dict_get (sh_backend ?sh) (ce_key e) = Some e" if "e \<in> snd ` set (sh_backend ?sh)" for e
    using mem that by (auto simp: mem_inv_def map_of_eq_Some_iff)
  have tomb: "dict_get (sh_tombstones ?sh) k = Some t" if "(k, t) \<in> set (sh_tombstones ?sh)" for k t
    using wf that by (simp add: map_of_eq_Some_iff)
  have in_js: "j \<in> set js \<longleftrightarrow> (\<exists>e \<in> snd ` set (sh_backend ?sh). ce_dirty e \<and> j = flush_put_job ?sh (ce_key e) (ce_value e) (ce_version e) r) \<or>
      (\<exists>(k, t) \<in> set (sh_tombstones ?sh). j = flush_delete_job ?sh k t r)" for j
    by (auto simp: js_def dirty_put_jobs_def tombstone_jobs_def mem_entries_def)
  show "flush_put_job ?sh k (ce_value e) (ce_version e) r \<in> set js"
    if "dict_get (sh_backend ?sh) k = Some e" and "ce_dirty e" for k e
    unfolding in_js using that inv_entry_key [OF si that(1)] by (force dest: map_of_SomeD)
  show "flush_delete_job ?sh k t r \<in> set js" if "dict_get (sh_tombstones ?sh) k = Some t" for k t
    unfolding in_js using that by (force dest: map_of_SomeD)
  show "(\<exists>e. dict_get (sh_backend ?sh) (fj_key j) = Some e \<and> ce_dirty e) \<or> dict_get (sh_tombstones ?sh) (fj_key j) \<noteq> None"
    if "j \<in> set js" for j
    using that entry tomb unfolding in_js by (fastforce simp: flush_put_job_def flush_delete_job_def)
  show "job_fresh c j \<and> fj_shard_index j = i \<and> fj_retries_left j = r \<and> shard_for h c (fj_key j) = i" if "j \<in> set js" for j
    using that unfolding in_js
  proof (elim disjE bexE)
    fix e
    assume e: "e \<in> snd ` set (sh_backend ?sh)" "ce_dirty e \<and> j = flush_put_job ?sh (ce_key e) (ce_value e) (ce_version e) r"
    then show ?thesis
      using marks [OF entry [OF e(1)]] idx i route [of "ce_key e"] dict_get_in_keys [OF entry [OF e(1)]]
      by (simp add: job_fresh_def flush_put_job_def is_stale_write_back_def Let_def)
  next
    fix p
    assume p: "p \<in> set (sh_tombstones ?sh)" "case p of (k, t) \<Rightarrow> j = flush_delete_job ?sh k t r"
    then show ?thesis
      using tombs [OF tomb, of "fst p" "snd p"] tomb [of "fst p" "snd p"] idx i route [of "fst p"]
      by (auto simp: job_fresh_def flush_delete_job_def is_stale_write_back_def Let_def)
  qed
  have "map fj_key js = map ce_key (filter ce_dirty (map snd (sh_backend ?sh))) @ map fst (sh_tombstones ?sh)"
    by (simp add: js_def dirty_put_jobs_def tombstone_jobs_def mem_entries_def flush_put_job_def flush_delete_job_def
        o_def case_prod_beta)
  moreover have "map ce_key (map snd (sh_backend ?sh)) = map fst (sh_backend ?sh)"
    using mem by (auto simp: mem_inv_def)
  then have "distinct (map ce_key (filter ce_dirty (map snd (sh_backend ?sh))))"
    using mem by (metis distinct_map_filter mem_inv_def)
  moreover have "ce_key e \<notin> sh_tombs ?sh" if "e \<in> snd ` set (sh_backend ?sh)" for e
    using marks [OF entry [OF that]] by (simp add: dict_get_None)
  ultimately show "distinct (map fj_key js)" using wf by auto
qed

text \<open>
  What a successful flush of shard \<open>i\<close> has done: every dirty entry is in the source, every
  tombstoned key is gone from it, the other keys of the shard are as they were, no
  entry is dirty and no cached value has changed.
\<close>

definition flushed_value :: "('k, 'v) shard \<Rightarrow> 'k \<Rightarrow> 'v option \<Rightarrow> 'v option" where
  "flushed_value sh k v =
     (case dict_get (sh_backend sh) k of
        Some e \<Rightarrow> if ce_dirty e then Some (ce_value e) else v
      | None \<Rightarrow> if dict_get (sh_tombstones sh) k = None then v else None)"

definition shard_flushed :: "('k \<Rightarrow> nat) \<Rightarrow> nat \<Rightarrow> ('k, 'v) cache \<Rightarrow> ('k, 'v) cache \<Rightarrow> bool" where
  "shard_flushed h i c c' \<longleftrightarrow>
     (\<forall>k. shard_for h c k = i \<longrightarrow>
        sd_contents (c_source c') k = flushed_value (c_shards c ! i) k (sd_contents (c_source c) k)) \<and>
     (\<forall>k. dict_get (sh_backend (c_shards c' ! i)) k =
        map_option (\<lambda>e. e\<lparr>ce_dirty := False\<rparr>) (dict_get (sh_backend (c_shards c ! i)) k))"

lemma job_cleaned_put:
  assumes "shard_inv sh" and "dict_get (sh_backend sh) k = Some e" and "c_shards c ! i = sh" and "sh_index sh = i"
  shows "dict_get (sh_backend (job_cleaned (flush_put_job sh k (ce_value e) (ce_version e) r) c)) k =
    Some (e\<lparr>ce_dirty := False\<rparr>)"
  using assms inv_entry_key [OF assms(1,2)]
  by (simp add: job_cleaned_def flush_put_job_def mark_clean_locked_def mem_get_entry_def mem_put_entry_def)

lemma sync_shard_flushed:
  assumes inv: "cache_inv h c" and i: "i < length (c_shards c)"
    and s: "sync_jobs (dirty_put_jobs r (c_shards c ! i) @ tombstone_jobs r (c_shards c ! i)) f0 c = (False, c')"
  shows "shard_flushed h i c c'"
proof -
  let ?sh = "c_shards c ! i" and ?js = "dirty_put_jobs r (c_shards c ! i) @ tombstone_jobs r (c_shards c ! i)"
  note J = shard_jobs [OF inv i, where r = r]
  note si = cache_inv_shard [OF inv i] and idx = cache_inv_index [OF inv i]
  have E: "cache_inv h c'" "\<And>k. k \<notin> fj_key ` set ?js \<Longrightarrow> key_same k ?sh (c_shards c' ! i) \<and>
        sd_contents (c_source c') k = sd_contents (c_source c) k"
      "\<And>j. j \<in> set ?js \<Longrightarrow> sd_contents (c_source c') (fj_key j) = job_effect j Map.empty (fj_key j) \<and>
        dict_get (sh_backend (c_shards c' ! i)) (fj_key j) = dict_get (sh_backend (job_cleaned j c)) (fj_key j)"
    using sync_jobs_effect [OF inv _ J(2) s] J(1) by blast+
  have live: "dict_get (sh_tombstones ?sh) k = None" if "dict_get (sh_backend ?sh) k = Some e" for k e
    using si that by (auto simp: shard_inv_def core_defs)
  have dirty: "sd_contents (c_source c') k = Some (ce_value e) \<and>
      dict_get (sh_backend (c_shards c' ! i)) k = Some (e\<lparr>ce_dirty := False\<rparr>)"
    if e: "dict_get (sh_backend ?sh) k = Some e" "ce_dirty e" for k e
    using E(3) [OF J(3) [OF e]] job_cleaned_put [OF si e(1) refl idx, of r]
    by (simp add: job_effect_def flush_put_job_def)
  have tomb: "sd_contents (c_source c') k = None \<and> dict_get (sh_backend (c_shards c' ! i)) k = None"
    if t: "dict_get (sh_tombstones ?sh) k = Some t" for k t
  proof -
    have "dict_get (sh_backend ?sh) k = None" using live [of k] t by (cases "dict_get (sh_backend ?sh) k") auto
    then show ?thesis using E(3) [OF J(4) [OF t]] idx by (simp add: job_effect_def flush_delete_job_def job_cleaned_def)
  qed
  have other: "sd_contents (c_source c') k = sd_contents (c_source c) k \<and>
      dict_get (sh_backend (c_shards c' ! i)) k = dict_get (sh_backend ?sh) k"
    if "dict_get (sh_tombstones ?sh) k = None" "\<And>e. dict_get (sh_backend ?sh) k = Some e \<Longrightarrow> \<not> ce_dirty e" for k
    using E(2) [of k] J(5) that by (fastforce simp: key_same_def)
  have "sd_contents (c_source c') k = flushed_value ?sh k (sd_contents (c_source c) k) \<and>
      dict_get (sh_backend (c_shards c' ! i)) k = map_option (\<lambda>e. e\<lparr>ce_dirty := False\<rparr>) (dict_get (sh_backend ?sh) k)" for k
  proof (cases "dict_get (sh_backend ?sh) k")
    case None
    then show ?thesis using tomb [of k] other [of k]
      by (cases "dict_get (sh_tombstones ?sh) k") (auto simp: flushed_value_def)
  next
    case (Some e)
    then show ?thesis using dirty [OF Some] other [of k] live [OF Some] by (cases "ce_dirty e") (auto simp: flushed_value_def)
  qed
  then show ?thesis by (simp add: shard_flushed_def)
qed

lemma sync_shards_effect:
  assumes "cache_inv h c" and "\<forall>i \<in> set is. i < length (c_shards c)" and "distinct is"
    and "sync_shards is f0 c = (f, c')"
  shows "cache_inv h c' \<and> length (c_shards c') = length (c_shards c) \<and> c_config c' = c_config c \<and>
    (\<forall>m. m \<notin> set is \<longrightarrow> c_shards c' ! m = c_shards c ! m) \<and>
    (\<forall>k. shard_for h c k \<notin> set is \<longrightarrow> sd_contents (c_source c') k = sd_contents (c_source c) k) \<and>
    (\<not> f \<longrightarrow> (\<forall>i \<in> set is. shard_flushed h i c c')) \<and> (f0 \<longrightarrow> f) \<and>
    (\<not> f0 \<and> sd_failures_remaining (c_source c) \<le> cfg_write_back_retry_count (c_config c) \<longrightarrow> \<not> f)"
  using assms
proof (induction "is" arbitrary: c f0)
  case Nil
  then show ?case by auto
next
  case (Cons i "is")
  let ?r = "cfg_write_back_retry_count (c_config c)"
  let ?js = "dirty_put_jobs ?r (c_shards c ! i) @ tombstone_jobs ?r (c_shards c ! i)"
  obtain f1 c1 where s: "sync_jobs ?js f0 c = (f1, c1)" by fastforce
  have i: "i < length (c_shards c)" using Cons.prems(2) by simp
  have r: "0 \<le> ?r" using Cons.prems(1) by (simp add: cache_inv_def config_valid_def)
  note J = shard_jobs [OF Cons.prems(1) i, where r = ?r]
  have all: "\<forall>j \<in> set ?js. job_fresh c j \<and> fj_shard_index j = i" using J(1) by blast
  note E = sync_jobs_effect [OF Cons.prems(1) all J(2) s]
  have len: "length (c_shards c1) = length (c_shards c)" and cfg: "c_config c1 = c_config c"
    and sf: "\<And>k. shard_for h c1 k = shard_for h c k"
    using E by (simp_all add: shard_for_def)
  have rest: "sync_shards is f1 c1 = (f, c')" using Cons.prems(4) s by (simp add: Let_def)
  have "cache_inv h c1" "\<forall>i \<in> set is. i < length (c_shards c1)" "distinct is" using E len Cons.prems(2,3) by simp_all
  note I = Cons.IH [OF this rest]
  have ni: "i \<notin> set is" using Cons.prems(3) by simp
  show ?case
  proof (intro conjI allI impI ballI)
    show "cache_inv h c'" "length (c_shards c') = length (c_shards c)" "c_config c' = c_config c"
      using I len cfg by simp_all
    show "c_shards c' ! m = c_shards c ! m" if "m \<notin> set (i # is)" for m using I E that by simp
    show "sd_contents (c_source c') k = sd_contents (c_source c) k" if "shard_for h c k \<notin> set (i # is)" for k
    proof -
      have "k \<notin> fj_key ` set ?js" using J(1) that by auto
      then show ?thesis using I E that sf by simp
    qed
    show f if f0 using I E that by simp
    show "\<not> f" if "\<not> f0 \<and> sd_failures_remaining (c_source c) \<le> ?r"
    proof -
      have "\<forall>j \<in> set ?js. 0 \<le> fj_retries_left j \<and> sd_failures_remaining (c_source c) \<le> fj_retries_left j"
        using that r J(1) by metis
      with E that have "\<not> f1" by (elim conjE) simp
      moreover have "sd_failures_remaining (c_source c1) \<le> ?r" using E that by simp
      ultimately show ?thesis using I cfg by simp
    qed
  next
    fix m
    assume nf: "\<not> f" and m: "m \<in> set (i # is)"
    have "\<not> f1" using I nf by blast
    then have fl: "shard_flushed h i c c1" using sync_shard_flushed [OF Cons.prems(1) i] s by simp
    show "shard_flushed h m c c'"
    proof (cases "m = i")
      case True
      then show ?thesis using fl I ni sf by (simp add: shard_flushed_def)
    next
      case False
      then have "shard_flushed h m c1 c'" and "c_shards c1 ! m = c_shards c ! m" using m I E nf by auto
      moreover have "sd_contents (c_source c1) k = sd_contents (c_source c) k" if "shard_for h c k = m" for k
      proof -
        have "k \<notin> fj_key ` set ?js" using J(1) that False by auto
        then show ?thesis using E by simp
      qed
      ultimately show ?thesis using sf by (simp add: shard_flushed_def)
    qed
  qed
qed

end
