(* ===== verification/Samples.thy ===== *)
theory Samples
  imports Coherence
begin

text \<open>
  Small concrete caches over natural-number keys, routed by the key itself, on which the
  properties of the development are exercised.
\<close>

lemma init_run_inv:
  assumes "config_post_init cfg = Inr cfg" and "cache_init (Some cfg) init_args_unset source clock = Inr c0"
  shows "cache_inv h (run h acts c0)"
  using run_inv [OF cache_init_inv [OF assms(2)]] assms(1) by (simp add: config_post_init_iff)

definition sample_config :: "string \<Rightarrow> int \<Rightarrow> cache_config" where
  "sample_config mode workers =
     default_config\<lparr>cfg_capacity := 3, cfg_shard_count := 2, cfg_write_mode := mode, cfg_worker_count := workers\<rparr>"

definition sample_cache :: "string \<Rightarrow> int \<Rightarrow> (nat, nat) cache" where
  "sample_cache mode workers =
     (case cache_init (Some (sample_config mode workers)) init_args_unset None (fake_clock_init 0) of
        Inr c \<Rightarrow> c | Inl e \<Rightarrow> undefined)"

abbreviation cache_only_sample :: "(nat, nat) cache" where
  "cache_only_sample \<equiv> sample_cache ''cache-only'' 0"

abbreviation write_through_sample :: "(nat, nat) cache" where
  "write_through_sample \<equiv> sample_cache ''write-through'' 0"

abbreviation write_back_sample :: "(nat, nat) cache" where
  "write_back_sample \<equiv> sample_cache ''write-back'' 1"

lemma sample_config_valid:
  "config_post_init (sample_config ''cache-only'' 0) = Inr (sample_config ''cache-only'' 0)"
  "config_post_init (sample_config ''write-through'' 0) = Inr (sample_config ''write-through'' 0)"
  "config_post_init (sample_config ''write-back'' 1) = Inr (sample_config ''write-back'' 1)"
  by code_simp+

lemma sample_cache_init:
  "cache_init (Some (sample_config ''cache-only'' 0)) init_args_unset None (fake_clock_init 0) = Inr cache_only_sample"
  "cache_init (Some (sample_config ''write-through'' 0)) init_args_unset None (fake_clock_init 0) = Inr write_through_sample"
  "cache_init (Some (sample_config ''write-back'' 1)) init_args_unset None (fake_clock_init 0) = Inr write_back_sample"
  by code_simp+

end
