(* ===== verification/Close.thy ===== *)
theory Close
  imports Shutdown Samples
begin

text \<open>
  The whole of \<open>Cache.close\<close>: it closes whatever the workers did meanwhile, keeps the
  invariant, leaves no job in the queue, and when it returns normally from a flush no
  entry is dirty. Without running workers it has persisted exactly the dirty entries and
  tombstones of the shards.
\<close>

section \<open>Nothing dirties an entry during shutdown\<close>

definition clean_shard :: "('k, 'v) shard \<Rightarrow> bool" where
  "clean_shard sh \<longleftrightarrow> (\<forall>k e. dict_get (sh_backend sh) k = Some e \<longrightarrow> \<not> ce_dirty e)"

definition clean_cache :: "('k, 'v) cache \<Rightarrow> bool" where
  "clean_cache c \<longleftrightarrow> (\<forall>sh \<in> set (c_shards c). clean_shard sh)"

lemma count_dirty_zero:
  assumes "cache_inv h c"
  shows "count_dirty_entries c = 0 \<longleftrightarrow> clean_cache c"
proof -
  have "(\<forall>e \<in> set (mem_entries (sh_backend sh)). \<not> ce_dirty e) \<longleftrightarrow> clean_shard sh" if "sh \<in> set (c_shards c)" for sh
  proof -
    have "dict_wf (sh_backend sh)"
      using cache_inv_shard [OF assms] that by (auto simp: in_set_conv_nth shard_inv_def core_defs mem_inv_def)
    then show ?thesis by (auto simp: clean_shard_def mem_entries_def dict_mem_get [symmetric])
  qed
  then show ?thesis by (auto simp: count_dirty_entries_def clean_cache_def filter_empty_conv)
qed

lemma clean_shard_backend: "sh_backend sh' = sh_backend sh \<Longrightarrow> clean_shard sh' = clean_shard sh"
  by (simp add: clean_shard_def)

lemma clean_remove: "clean_shard sh \<Longrightarrow> clean_shard (snd (remove_entry_locked k r sh))"
  by (simp add: clean_shard_def)

lemma clean_expire_keys: "clean_shard sh \<Longrightarrow> clean_shard (snd (expire_keys_locked ks sh n))"
  by (induction ks arbitrary: sh n) (simp_all add: case_prod_beta clean_remove)

lemma clean_mark_clean:
  assumes "shard_inv sh" and "clean_shard sh"
  shows "clean_shard (mark_clean_locked k v sh)"
  using assms inv_entry_key [OF assms(1), of k]
  by (auto simp: clean_shard_def mark_clean_locked_def mem_defs split: option.splits)

lemma clean_set_shard: "clean_cache c \<Longrightarrow> clean_shard sh \<Longrightarrow> clean_cache (set_shard i sh c)"
  using set_update_subset_insert [of "c_shards c" i sh] by (auto simp: clean_cache_def)

lemma clean_nth: "clean_cache c \<Longrightarrow> i < length (c_shards c) \<Longrightarrow> clean_shard (c_shards c ! i)"
  by (simp add: clean_cache_def)

lemma clean_shards: "c_shards c' = c_shards c \<Longrightarrow> clean_cache c' = clean_cache c"
  by (simp add: clean_cache_def)

lemma clean_irrelevant [simp]:
  "clean_cache (inc_runtime f c) = clean_cache c" "clean_cache (task_done c) = clean_cache c"
  "clean_cache (c\<lparr>c_source := s\<rparr>) = clean_cache c" "clean_cache (c\<lparr>c_clock := t\<rparr>) = clean_cache c"
  "clean_cache (c\<lparr>c_queue := q\<rparr>) = clean_cache c" "clean_cache (c\<lparr>c_last_snapshot := l\<rparr>) = clean_cache c"
  "clean_cache (c\<lparr>c_pool := p\<rparr>) = clean_cache c" "clean_cache (c\<lparr>c_state := st\<rparr>) = clean_cache c"
  "clean_cache (snd (enqueue_job job b c)) = clean_cache c"
  by (simp_all add: clean_cache_def)

lemma clean_resolve: "clean_cache c \<Longrightarrow> i < length (c_shards c) \<Longrightarrow> clean_cache (resolve_pending i k c)"
  by (simp add: resolve_pending_def clean_set_shard clean_shard_backend [OF resolve_fields(1)] clean_nth)

lemma clean_flush_failed:
  "clean_cache c \<Longrightarrow> fj_shard_index j < length (c_shards c) \<Longrightarrow> clean_cache (snd (flush_failed j c))"
  by (auto simp: flush_failed_def flush_give_up_def Let_def case_prod_beta clean_resolve split: sum.splits)

lemma clean_flush:
  assumes inv: "cache_inv h c" and cl: "clean_cache c" and i: "fj_shard_index j < length (c_shards c)"
  shows "clean_cache (snd (flush_write_back_job j c))"
proof -
  let ?c = "snd (flush_apply j c)"
  have "clean_cache ?c" "c_shards ?c = c_shards c" using cl by (simp_all add: flush_apply_def case_prod_beta)
  then have "clean_cache (snd (flush_failed j ?c))" "clean_cache (flush_finish j ?c)"
    using i clean_flush_failed [of ?c j] clean_mark_clean [OF cache_inv_shard [OF inv i] clean_nth [OF cl i]]
    by (auto simp: flush_finish_def Let_def clean_shard_backend [OF resolve_fields(1)] clean_nth cl intro!: clean_set_shard)
  moreover have "clean_cache (snd (flush_check j c))" using cl i by (simp add: flush_check_def Let_def clean_resolve)
  ultimately show ?thesis using cl
    by (auto simp: flush_write_back_job_def flush_check_def Let_def case_prod_beta split: sum.splits)
qed

text \<open>The jobs a worker can finish while the closing thread holds the lifecycle lock.\<close>

definition blocks :: "('k, 'v) job \<Rightarrow> bool" where
  "blocks job \<longleftrightarrow> (\<exists>j v. job = PreloadKey j \<and> pj_loader j = Inr v)"

lemma clean_handle_job:
  assumes "cache_inv h c" and "clean_cache c" and "\<not> blocks job"
  shows "clean_cache (snd (handle_job h job c))"
  using assms clean_flush [OF assms(1,2)]
  by (auto simp: handle_job_def blocks_def expire_shard_def on_shard_def expire_shard_locked_def case_prod_beta
      clean_set_shard clean_expire_keys clean_nth split: job.splits sum.splits)

lemma clean_worker_turn:
  assumes inv: "cache_inv h c" and cl: "clean_cache c"
    and nb: "\<And>job q. jq_get (c_queue c) = Some (job, q) \<Longrightarrow> \<not> blocks job"
  shows "clean_cache (snd (worker_turn h c))"
proof (cases "jq_get (c_queue c)")
  case None
  then show ?thesis using cl by (simp add: worker_turn_def)
next
  case (Some p)
  obtain job q where p: "p = (job, q)" by fastforce
  have "cache_inv h (c\<lparr>c_queue := q\<rparr>)" using inv Some p by (simp add: cache_inv_take(1))
  then have "clean_cache (snd (handle_job h job (c\<lparr>c_queue := q\<rparr>)))"
    using cl nb Some p by (intro clean_handle_job) auto
  then show ?thesis using Some p cl
    by (auto simp: worker_turn_def Let_def case_prod_beta record_worker_failure_def split: job.splits sum.splits)
qed

lemma close_window_inv:
  "cache_inv h c \<Longrightarrow> cache_inv h (snd (snd (close_window h n free blocked c)))"
proof (induction n arbitrary: free blocked c)
  case (Suc n)
  have "cache_inv h (c\<lparr>c_queue := q\<rparr>)" if "jq_get (c_queue c) = Some (job, q)" for job q
    using Suc.prems that by (rule cache_inv_take(1))
  with Suc.IH Suc.prems worker_turn_inv [OF Suc.prems] show ?case
    by (auto simp: case_prod_beta split: option.splits job.splits sum.splits bool.splits)
qed simp

lemma close_window_clean:
  "cache_inv h c \<Longrightarrow> clean_cache c \<Longrightarrow> clean_cache (snd (snd (close_window h n free blocked c)))"
proof (induction n arbitrary: free blocked c)
  case (Suc n)
  have take: "cache_inv h (c\<lparr>c_queue := q\<rparr>)" if "jq_get (c_queue c) = Some (job, q)" for job q
    using Suc.prems(1) that by (rule cache_inv_take(1))
  show ?case
  proof (cases "\<exists>job q. jq_get (c_queue c) = Some (job, q) \<and> blocks job")
    case True
    then show ?thesis using Suc take by (auto simp: blocks_def)
  next
    case False
    then have "clean_cache (snd (worker_turn h c))" using Suc.prems by (intro clean_worker_turn) auto
    with Suc.IH worker_turn_inv [OF Suc.prems(1)] Suc.prems False show ?thesis
      by (auto simp: case_prod_beta blocks_def split: option.splits job.splits sum.splits bool.splits)
  qed
qed simp

section \<open>Enqueueing the dirty entries\<close>

text \<open>
  Registering the jobs of a shard and offering them to the queue, whether it takes them
  or not, changes outstanding counts only: entries, tombstones and the source stay.
\<close>

definition stays :: "('k, 'v) cache \<Rightarrow> ('k, 'v) cache \<Rightarrow> bool" where
  "stays c c' \<longleftrightarrow> length (c_shards c') = length (c_shards c) \<and> c_source c' = c_source c \<and>
     c_config c' = c_config c \<and> c_write_mode c' = c_write_mode c \<and> c_pool c' = c_pool c \<and>
     (\<forall>i. sh_backend (c_shards c' ! i) = sh_backend (c_shards c ! i) \<and>
          sh_tombstones (c_shards c' ! i) = sh_tombstones (c_shards c ! i))"

lemma stays_trans: "stays c c' \<Longrightarrow> stays c' c'' \<Longrightarrow> stays c c''"
  by (simp add: stays_def)

lemma nth_update_all: "xs[i := x] ! m = (if m = i \<and> i < length xs then x else xs ! m)"
  by (cases "i < length xs") (auto simp: nth_list_update list_update_beyond)

lemma stays_flushed: "stays c c' \<Longrightarrow> flushed_value (c_shards c' ! i) k v = flushed_value (c_shards c ! i) k v"
  by (auto simp add: stays_def flushed_value_def split: option.splits)

lemma stays_set_shard:
  "sh_backend sh = sh_backend (c_shards c ! i) \<Longrightarrow> sh_tombstones sh = sh_tombstones (c_shards c ! i) \<Longrightarrow>
     stays c (set_shard i sh c)"
  by (auto simp: stays_def nth_update_all)

lemma stays_enqueue: "stays c (snd (enqueue_job job b c))"
  by (simp add: stays_def enqueue_job_eq)

lemma register_jobs_inv:
  "shard_inv sh \<Longrightarrow> shard_evolves K sh (register_jobs js sh) \<and>
     sh_backend (register_jobs js sh) = sh_backend sh \<and> sh_tombstones (register_jobs js sh) = sh_tombstones sh"
proof (induction js arbitrary: sh)
  case (Cons j js)
  note e = evolves_register [OF Cons.prems, of K "fj_key j"]
  from Cons.IH [OF evolves_inv [OF e]] show ?case
    using evolves_trans [OF e] by (simp add: register_pending_locked_def)
qed (simp add: evolves_refl)

lemma register_jobs_pending:
  "distinct (map fj_key js) \<Longrightarrow> dict_get0 (sh_pending_flushes (register_jobs js sh)) k =
     dict_get0 (sh_pending_flushes sh) k + (if k \<in> fj_key ` set js then 1 else 0)"
  by (induction js arbitrary: sh) (auto simp: register_pending_locked_def)

text \<open>A release that does not take the last outstanding flush of a dead key prunes nothing.\<close>

definition releasable :: "('k, 'v) cache \<Rightarrow> ('k, 'v) flush_job \<Rightarrow> bool" where
  "releasable c j \<longleftrightarrow> fj_shard_index j < length (c_shards c) \<and>
     (let sh = c_shards c ! fj_shard_index j in
      fj_key j \<in> sh_live sh \<or> 2 \<le> dict_get0 (sh_pending_flushes sh) (fj_key j))"

lemma resolve_releasable:
  assumes "releasable c j"
  shows "stays c (resolve_pending (fj_shard_index j) (fj_key j) c)"
  using assms unfolding resolve_pending_def
  by (intro stays_set_shard)
     (auto simp: releasable_def resolve_pending_locked_def maybe_prune_marks_locked_def Let_def mem_get_entry_def
       dict_get_None)

lemma resolve_pending_other:
  "k \<noteq> k' \<Longrightarrow> dict_get0 (sh_pending_flushes (resolve_pending_locked k sh)) k' = dict_get0 (sh_pending_flushes sh) k'"
  by (simp add: resolve_pending_locked_def Let_def)

lemma releasable_resolve:
  "releasable c j' \<Longrightarrow> fj_key j' \<noteq> fj_key j \<Longrightarrow>
     releasable (resolve_pending (fj_shard_index j) (fj_key j) c) j'"
  by (auto simp: releasable_def resolve_pending_def Let_def nth_update_all resolve_pending_other)

lemma release_jobs_stays:
  "\<forall>j \<in> set js. releasable c j \<Longrightarrow> distinct (map fj_key js) \<Longrightarrow> stays c (release_jobs js c)"
proof (induction js arbitrary: c)
  case (Cons j js)
  let ?c1 = "resolve_pending (fj_shard_index j) (fj_key j) c"
  have "releasable ?c1 j'" if "j' \<in> set js" for j'
    using Cons.prems that by (intro releasable_resolve) (auto simp: image_iff)
  with Cons have "stays ?c1 (release_jobs js ?c1)" by simp
  then show ?case using stays_trans [OF resolve_releasable [of c j]] Cons.prems by simp
qed (simp add: stays_def)

lemma enqueue_or_release_stays:
  "\<forall>j \<in> set js. releasable c j \<Longrightarrow> distinct (map fj_key js) \<Longrightarrow> stays c (enqueue_or_release js c)"
proof (induction js arbitrary: c)
  case (Cons j js)
  let ?c1 = "snd (enqueue_job (FlushWriteBack j) True c)"
  have rel: "\<forall>j \<in> set (j # js). releasable ?c1 j" using Cons.prems(1) by (simp add: releasable_def)
  then have "stays ?c1 (enqueue_or_release js ?c1)" "stays ?c1 (release_jobs (j # js) ?c1)"
    using Cons release_jobs_stays [OF rel] by simp_all
  then show ?case
    using stays_trans [OF stays_enqueue [of c "FlushWriteBack j" True]]
    by (auto simp: case_prod_beta simp del: release_jobs.simps split: sum.splits)
qed (simp add: stays_def)

lemma enqueue_or_release_inv:
  "cache_inv h c \<Longrightarrow> \<forall>j \<in> set js. fj_shard_index j < length (c_shards c) \<Longrightarrow> cache_inv h (enqueue_or_release js c)"
proof (induction js arbitrary: c)
  case (Cons j js)
  let ?c1 = "snd (enqueue_job (FlushWriteBack j) True c)"
  have "cache_inv h ?c1" "\<forall>j \<in> set (j # js). fj_shard_index j < length (c_shards ?c1)"
    using Cons.prems by (simp_all add: enqueue_job_inv)
  then show ?case using Cons.IH release_jobs_inv [of h ?c1 "j # js"]
    by (auto simp: case_prod_beta simp del: release_jobs.simps split: sum.splits)
qed simp

lemma enqueue_dirty_shard_stays:
  assumes inv: "cache_inv h c" and i: "i < length (c_shards c)"
  shows "stays c (enqueue_dirty_shard i c) \<and> cache_inv h (enqueue_dirty_shard i c)"
proof -
  let ?r = "cfg_write_back_retry_count (c_config c)" and ?sh = "c_shards c ! i"
  let ?js = "dirty_put_jobs ?r ?sh @ tombstone_jobs ?r ?sh"
  let ?c1 = "set_shard i (register_jobs ?js ?sh) c"
  note J = shard_jobs [OF inv i, where r = ?r] and si = cache_inv_shard [OF inv i]
  note R = register_jobs_inv [OF si, of "{k. shard_for h c k = i}" ?js]
  have inv1: "cache_inv h ?c1" using inv i R by (simp add: cache_inv_set_shard)
  have st: "stays c ?c1" using R by (simp add: stays_set_shard)
  have "releasable ?c1 j" if j: "j \<in> set ?js" for j
  proof -
    have "fj_key j \<in> sh_live ?sh \<or> 1 \<le> dict_get0 (sh_pending_flushes ?sh) (fj_key j)"
      using J(5) [OF j] si pending_pos_iff [of ?sh "fj_key j"]
      by (auto simp: shard_inv_def core_defs dest: dict_get_in_keys)
    moreover have "dict_get0 (sh_pending_flushes (register_jobs ?js ?sh)) (fj_key j) =
        dict_get0 (sh_pending_flushes ?sh) (fj_key j) + 1"
      using register_jobs_pending [OF J(2)] j by simp
    ultimately show ?thesis using J(1) [OF j] i R by (auto simp: releasable_def Let_def)
  qed
  then have "stays ?c1 (enqueue_or_release ?js ?c1)" by (intro enqueue_or_release_stays J(2)) blast
  moreover have "cache_inv h (enqueue_or_release ?js ?c1)"
    using inv1 J(1) i by (intro enqueue_or_release_inv) auto
  ultimately show ?thesis using stays_trans [OF st] by (simp add: enqueue_dirty_shard_def Let_def)
qed

lemma enqueue_dirty_stays:
  assumes "cache_inv h c"
  shows "stays c (enqueue_dirty_write_back_jobs c) \<and> cache_inv h (enqueue_dirty_write_back_jobs c)"
proof -
  have "stays c (fold enqueue_dirty_shard is c) \<and> cache_inv h (fold enqueue_dirty_shard is c)"
    if "\<forall>i \<in> set is. i < length (c_shards c)" for "is"
    using assms that
  proof (induction "is" arbitrary: c)
    case (Cons i "is")
    then have S: "stays c (enqueue_dirty_shard i c) \<and> cache_inv h (enqueue_dirty_shard i c)"
      by (intro enqueue_dirty_shard_stays) simp_all
    then have "\<forall>m \<in> set is. m < length (c_shards (enqueue_dirty_shard i c))" using Cons.prems by (simp add: stays_def)
    with Cons.IH S show ?case using stays_trans [of c "enqueue_dirty_shard i c"] by simp
  qed (simp add: stays_def)
  then show ?thesis by (simp add: enqueue_dirty_write_back_jobs_def)
qed

section \<open>Stopping the workers\<close>

lemma jq_offer_inv: "jq_inv q \<Longrightarrow> jq_inv (snd (jq_offer job q)) \<and> jq_maxsize (snd (jq_offer job q)) = jq_maxsize q"
  by (auto simp: jq_defs jq_inv_def)

lemma offer_stops_inv: "jq_inv q \<Longrightarrow> jq_inv (offer_stops n q) \<and> jq_maxsize (offer_stops n q) = jq_maxsize q"
  unfolding offer_stops_def by (induction n) (simp_all add: jq_offer_inv)

lemma drain_inv:
  assumes "cache_inv h c"
  shows "cache_inv h (c\<lparr>c_queue := snd (jq_drain (c_queue c))\<rparr>)" and "jq_items (snd (jq_drain (c_queue c))) = []"
proof -
  have q: "jq_inv (c_queue c)" using assms by (simp add: cache_inv_def)
  show "jq_items (snd (jq_drain (c_queue c))) = []" by (simp add: jq_drain_settles [OF q])
  show "cache_inv h (c\<lparr>c_queue := snd (jq_drain (c_queue c))\<rparr>)"
    using q by (intro cache_inv_queue [OF assms]) (simp_all add: jq_drain_settles [OF q] jq_inv_def jq_depth_def)
qed

lemma worker_pool_stop_inv:
  assumes "cache_inv h c"
  shows "cache_inv h (worker_pool_stop h n free blocked c)"
    and "clean_cache c \<Longrightarrow> clean_cache (worker_pool_stop h n free blocked c)"
    and "jq_items (c_queue (worker_pool_stop h n free blocked c)) = []"
proof -
  let ?c1 = "c\<lparr>c_pool := (c_pool c)\<lparr>wp_stop_event := True\<rparr>, c_queue := offer_stops (length (wp_threads (c_pool c))) (c_queue c)\<rparr>"
  have "cache_inv h ?c1"
    using assms offer_stops_inv [of "c_queue c"] by (simp add: cache_inv_def)
  note W = close_window_inv [OF this, of n free blocked] close_window_clean [OF this, of n free blocked]
  obtain f b c2 where w: "close_window h n free blocked ?c1 = (f, b, c2)" by (metis prod_cases3)
  let ?c3 = "if wp_started (c_pool c) then c2\<lparr>c_pool := (c_pool c2)\<lparr>wp_started := False, wp_threads := replicate (f + b) True\<rparr>\<rparr> else c"
  have c3: "cache_inv h ?c3" "clean_cache c \<Longrightarrow> clean_cache ?c3" using W w assms by auto
  have stop: "worker_pool_stop h n free blocked c = ?c3\<lparr>c_queue := snd (jq_drain (c_queue ?c3))\<rparr>"
    using w by (simp add: worker_pool_stop_def Let_def)
  show "cache_inv h (worker_pool_stop h n free blocked c)"
    and "jq_items (c_queue (worker_pool_stop h n free blocked c)) = []"
    unfolding stop using drain_inv [OF c3(1)] by simp_all
  show "clean_cache (worker_pool_stop h n free blocked c)" if "clean_cache c"
    unfolding stop using c3(2) [OF that] by simp
qed

section \<open>Close\<close>

lemma flush_sync_effect:
  assumes inv: "cache_inv h c" and s: "flush_dirty_entries_sync c = (f, c')"
  shows "cache_inv h c'" and "\<not> f \<Longrightarrow> clean_cache c'"
    and "\<not> f \<Longrightarrow> sd_contents (c_source c') k = flushed_value (c_shards c ! shard_for h c k) k (sd_contents (c_source c) k)"
    and "sd_failures_remaining (c_source c) \<le> cfg_write_back_retry_count (c_config c) \<Longrightarrow> \<not> f"
proof -
  let ?is = "[0..<length (c_shards c)]"
  have E: "cache_inv h c'" "length (c_shards c') = length (c_shards c)" "\<not> f \<Longrightarrow> (\<forall>i \<in> set ?is. shard_flushed h i c c')"
      "sd_failures_remaining (c_source c) \<le> cfg_write_back_retry_count (c_config c) \<Longrightarrow> \<not> f"
    using sync_shards_effect [OF inv, of ?is False f c'] s by (simp_all add: flush_dirty_entries_sync_def)
  then show "cache_inv h c'" and "sd_failures_remaining (c_source c) \<le> cfg_write_back_retry_count (c_config c) \<Longrightarrow> \<not> f"
    by simp_all
  assume "\<not> f"
  with E have fl: "shard_flushed h i c c'" if "i < length (c_shards c)" for i using that by simp
  show "clean_cache c'"
    unfolding clean_cache_def clean_shard_def
    using fl E(2) by (auto simp: in_set_conv_nth shard_flushed_def)
  show "sd_contents (c_source c') k = flushed_value (c_shards c ! shard_for h c k) k (sd_contents (c_source c) k)"
    using fl [OF shard_for_less [OF inv]] by (simp add: shard_flushed_def)
qed

lemma close_flush_inv:
  assumes inv: "cache_inv h c" and s: "close_flush h turns c = (f, free, blocked, c')"
  shows "cache_inv h c'" and "\<not> f \<Longrightarrow> clean_cache c'"
proof -
  let ?d = "enqueue_dirty_write_back_jobs c"
  let ?running = "wp_started (c_pool ?d) \<and> 0 < cfg_worker_count (c_config ?d)"
  let ?workers = "length (filter id (wp_threads (c_pool c)))"
  obtain fr bl d1 where w: "(if ?running then close_window h turns ?workers 0 ?d else (?workers, 0, ?d)) = (fr, bl, d1)"
    by (metis prod_cases3)
  obtain sf d2 where fl: "flush_dirty_entries_sync d1 = (sf, d2)" by fastforce
  have "cache_inv h ?d" using enqueue_dirty_stays [OF inv] by simp
  from close_window_inv [OF this, of turns ?workers 0] this have "cache_inv h d1" using w by (auto split: if_splits)
  note F = flush_sync_effect [OF this fl]
  have "f \<longleftrightarrow> sf \<or> \<not> (?running \<longrightarrow> join_until d1)" "c' = (if f then inc_runtime ''shutdown_flush_failures'' d2 else d2)"
    using s w fl by (auto simp: close_flush_def Let_def)
  then show "cache_inv h c'" and "\<not> f \<Longrightarrow> clean_cache c'" using F(1,2) by auto
qed

lemma cache_close_cases:
  assumes inv: "cache_inv h c" and alive: "c_state c \<noteq> CLOSED" and s: "cache_close h flush exits turns1 turns2 c = (r, c')"
  obtains failed free blocked c2 where "cache_inv h c2"
    "c' = (worker_pool_stop h turns2 free blocked c2)\<lparr>c_state := CLOSED\<rparr>"
    "r = (if failed then Inl (ShutdownFlushError (count_dirty_entries c')) else Inr ())"
    "arg_or flush (cfg_shutdown_flush (c_config c)) \<Longrightarrow> c_write_mode c = WRITE_BACK \<Longrightarrow> \<not> failed \<Longrightarrow> clean_cache c2"
proof -
  let ?c1 = "c\<lparr>c_state := CLOSING, c_scheduler := scheduler_stop exits (c_scheduler c)\<rparr>"
  let ?do = "arg_or flush (cfg_shutdown_flush (c_config c)) \<and> c_write_mode c = WRITE_BACK"
  have inv1: "cache_inv h ?c1" using inv by (simp add: cache_inv_def scheduler_stop_def)
  obtain failed free blocked c2 where f: "(if ?do then close_flush h turns1 ?c1
      else (False, length (filter id (wp_threads (c_pool c))), 0, ?c1)) = (failed, free, blocked, c2)"
    by (metis prod_cases4)
  have "cache_inv h c2" "?do \<Longrightarrow> \<not> failed \<Longrightarrow> clean_cache c2"
    using f inv1 close_flush_inv [OF inv1, of turns1 failed free blocked c2] by (auto split: if_splits)
  then show thesis using that [of c2 free blocked failed] s f by (auto simp: cache_close_def alive Let_def split: if_splits)
qed

section \<open>What close promises\<close>

text \<open>
  C17: Shutdown completes from any state of the cache, whatever the workers did while it
  waited, and for any value of the flush argument: afterwards the lifecycle state is
  CLOSED, no job is left in the queue and the capacity bound still holds; closing again
  returns at once and changes nothing, and starting again raises \<open>RuntimeError\<close>.
\<close>

theorem close_completes:
  assumes "config_post_init cfg = Inr cfg" and "cache_init (Some cfg) init_args_unset source clock = Inr c0"
    and "c_state (run h acts c0) \<noteq> CLOSED"
    and "cache_close h flush exits turns1 turns2 (run h acts c0) = (r, c')"
  shows "c_state c' = CLOSED \<and> jq_items (c_queue c') = [] \<and> int (total_size c') \<le> cfg_capacity (c_config c') \<and>
    cache_close h flush' exits' n m c' = (Inr (), c') \<and> cache_start c' = (Inl RuntimeError, c')"
proof -
  note inv = init_run_inv [OF assms(1,2)]
  from inv assms(3,4) show ?thesis
  proof (cases rule: cache_close_cases)
    case (1 failed free blocked c2)
    note S = worker_pool_stop_inv [OF 1(1), of turns2 free blocked]
    have "cache_inv h c'" "c_state c' = CLOSED" "jq_items (c_queue c') = []" using 1(2) S(1,3) by simp_all
    then show ?thesis using total_size_bounded by (auto simp: cache_close_def cache_start_def)
  qed
qed

abbreviation busy_sample :: "(nat, nat) cache" where
  "busy_sample \<equiv> run id [Start, Put 1 10 TTL_UNSET, Put 2 20 TTL_UNSET, WorkerTurn] write_back_sample"

lemma busy_sample_state:
  "(c_state busy_sample \<noteq> CLOSED, c_write_mode busy_sample, length (filter id (wp_threads (c_pool busy_sample)))) =
     (True, WRITE_BACK, 1)"
  by code_simp

theorem close_completes_witness:
  "c_state (snd (cache_close id None True 2 2 busy_sample)) = CLOSED \<and>
   jq_items (c_queue (snd (cache_close id None True 2 2 busy_sample))) = [] \<and>
   cache_start (snd (cache_close id None True 2 2 busy_sample)) =
     (Inl RuntimeError, snd (cache_close id None True 2 2 busy_sample))"
  using close_completes [OF sample_config_valid(3) sample_cache_init(3) _ prod.collapse [symmetric],
    of id "[Start, Put 1 10 TTL_UNSET, Put 2 20 TTL_UNSET, WorkerTurn]" None True 2 2] busy_sample_state
  by blast

text \<open>
  C18: A flushing shutdown of a write-back cache tells the truth about dirty entries: if
  \<open>close\<close> returns, no entry of the closed cache is dirty; if it raises, the exception is
  \<open>ShutdownFlushError\<close> and it carries the number of entries that are still dirty.
\<close>

theorem close_reports_dirty_entries:
  assumes "config_post_init cfg = Inr cfg" and "cache_init (Some cfg) init_args_unset source clock = Inr c0"
    and "c_state (run h acts c0) \<noteq> CLOSED" and "c_write_mode (run h acts c0) = WRITE_BACK"
    and "cache_close h (Some True) exits turns1 turns2 (run h acts c0) = (r, c')"
  shows "case r of Inr u \<Rightarrow> count_dirty_entries c' = 0
     | Inl e \<Rightarrow> e = ShutdownFlushError (count_dirty_entries c')"
proof -
  note inv = init_run_inv [OF assms(1,2)]
  from inv assms(3,5) show ?thesis
  proof (cases rule: cache_close_cases)
    case (1 failed free blocked c2)
    note S = worker_pool_stop_inv [OF 1(1), of turns2 free blocked]
    have "cache_inv h c'" using 1(2) S(1) by simp
    moreover have "clean_cache c'" if "\<not> failed" using 1(2,4) S(2) that assms(4) by (simp add: arg_or_def)
    ultimately show ?thesis using 1(3) count_dirty_zero by auto
  qed
qed

theorem close_reports_dirty_entries_witness:
  "count_dirty_entries busy_sample = 1 \<and>
   fst (cache_close id (Some True) True 2 2 busy_sample) = Inr () \<and>
   count_dirty_entries (snd (cache_close id (Some True) True 2 2 busy_sample)) = 0"
proof -
  have r: "(count_dirty_entries busy_sample, fst (cache_close id (Some True) True 2 2 busy_sample)) = (1, Inr ())"
    by code_simp
  from close_reports_dirty_entries [OF sample_config_valid(3) sample_cache_init(3) _ _ prod.collapse [symmetric],
      of id "[Start, Put 1 10 TTL_UNSET, Put 2 20 TTL_UNSET, WorkerTurn]" True 2 2] busy_sample_state
  show ?thesis using r by (simp split: sum.splits)
qed

lemma sync_pool:
  "c_pool (snd (sync_attempt j c)) = c_pool c"
  "c_pool (snd (sync_attempts n j c)) = c_pool c"
  "c_pool (snd (sync_job j c)) = c_pool c"
  "c_pool (snd (sync_jobs js f c)) = c_pool c"
  "c_pool (snd (sync_shards is f c)) = c_pool c"
proof -
  show a: "c_pool (snd (sync_attempt j c)) = c_pool c" for j and c :: "('a, 'b) cache"
    by (simp add: sync_attempt_def Let_def case_prod_beta split: sum.splits)
  show b: "c_pool (snd (sync_attempts n j c)) = c_pool c" for n j and c :: "('a, 'b) cache"
  proof (induction n arbitrary: c)
    case (Suc n)
    have "c_pool (snd (sync_attempt j c)) = c_pool c" by (rule a)
    with Suc show ?case by (auto simp: Let_def split: prod.splits bool.splits)
  qed simp
  show d: "c_pool (snd (sync_job j c)) = c_pool c" for j and c :: "('a, 'b) cache"
    using b [of "nat (fj_retries_left j + 1)" j c]
    by (auto simp: sync_job_def clear_pending_def Let_def split: prod.splits bool.splits)
  show e: "c_pool (snd (sync_jobs js f c)) = c_pool c" for js f and c :: "('a, 'b) cache"
  proof (induction js arbitrary: f c)
    case (Cons j js)
    with d [of j c] show ?case by (simp add: case_prod_beta)
  qed simp
  show "c_pool (snd (sync_shards is f c)) = c_pool c"
  proof (induction "is" arbitrary: f c)
    case (Cons i "is")
    then show ?case by (simp add: Let_def case_prod_beta e)
  qed simp
qed

lemma close_idle_pool:
  assumes inv: "cache_inv h c" and idle: "\<not> wp_started (c_pool c)" and alive: "c_state c \<noteq> CLOSED"
    and wb: "c_write_mode c = WRITE_BACK"
    and few: "sd_failures_remaining (c_source c) \<le> cfg_write_back_retry_count (c_config c)"
    and s: "cache_close h (Some True) exits turns1 turns2 c = (r, c')"
  shows "r = Inr ()" and "sd_contents (c_source c') k = flushed_value (c_shards c ! shard_for h c k) k (sd_contents (c_source c) k)"
proof -
  let ?c1 = "c\<lparr>c_state := CLOSING, c_scheduler := scheduler_stop exits (c_scheduler c)\<rparr>"
  let ?d = "enqueue_dirty_write_back_jobs ?c1"
  have inv1: "cache_inv h ?c1" using inv by (simp add: cache_inv_def scheduler_stop_def)
  have st: "stays ?c1 ?d" and invd: "cache_inv h ?d" using enqueue_dirty_stays [OF inv1] by simp_all
  obtain f d2 where fl: "flush_dirty_entries_sync ?d = (f, d2)" by fastforce
  note F = flush_sync_effect [OF invd fl]
  have nf: "\<not> f" using F(4) st few by (simp add: stays_def)
  have idle_d: "\<not> wp_started (c_pool ?d)" using st idle by (simp add: stays_def)
  have pool2: "\<not> wp_started (c_pool d2)"
    using sync_pool(5) [of "[0..<length (c_shards ?d)]" False ?d] fl idle_d by (simp add: flush_dirty_entries_sync_def)
  have c': "r = Inr ()" "c_source c' = c_source d2"
    using s fl nf idle_d pool2 alive wb
    by (auto simp: cache_close_def close_flush_def worker_pool_stop_def Let_def arg_or_def)
  then show "r = Inr ()" by simp
  show "sd_contents (c_source c') k = flushed_value (c_shards c ! shard_for h c k) k (sd_contents (c_source c) k)"
    using c'(2) F(3) [OF nf, of k] st stays_flushed [OF st] by (simp add: stays_def shard_for_def)
qed

text \<open>
  C19: A flushing shutdown of a write-back cache whose workers never ran makes every cached
  write durable: unless the source refuses more writes than one job may retry, \<open>close\<close>
  returns, and then each key that had a dirty entry has its value in the source, each
  key with a tombstone is gone from it, and every other key is as it was.
\<close>

theorem close_without_workers_persists:
  assumes "config_post_init cfg = Inr cfg" and "cache_init (Some cfg) init_args_unset source clock = Inr c0"
    and "c_state (run h acts c0) \<noteq> CLOSED" and "c_write_mode (run h acts c0) = WRITE_BACK"
    and "\<not> wp_started (c_pool (run h acts c0))"
    and "sd_failures_remaining (c_source (run h acts c0)) \<le> cfg_write_back_retry_count (c_config (run h acts c0))"
  shows "fst (cache_close h (Some True) exits turns1 turns2 (run h acts c0)) = Inr () \<and>
    sd_contents (c_source (snd (cache_close h (Some True) exits turns1 turns2 (run h acts c0)))) k =
      (let sh = c_shards (run h acts c0) ! shard_for h (run h acts c0) k in
       case dict_get (sh_backend sh) k of
         Some e \<Rightarrow> if ce_dirty e then Some (ce_value e) else sd_contents (c_source (run h acts c0)) k
       | None \<Rightarrow> if dict_get (sh_tombstones sh) k = None then sd_contents (c_source (run h acts c0)) k else None)"
  using close_idle_pool [OF init_run_inv [OF assms(1,2)] assms(5,3,4,6)]
  by (metis (no_types) flushed_value_def prod.collapse)

abbreviation idle_sample :: "(nat, nat) cache" where
  "idle_sample \<equiv> run id [Put 1 10 TTL_UNSET, Put 2 20 TTL_UNSET, Delete 2] write_back_sample"

theorem close_without_workers_persists_witness:
  "fst (cache_close id (Some True) True 0 0 idle_sample) = Inr () \<and>
   sd_contents (c_source (snd (cache_close id (Some True) True 0 0 idle_sample))) 1 = Some 10"
proof -
  have state: "(c_state idle_sample \<noteq> CLOSED, c_write_mode idle_sample = WRITE_BACK, wp_started (c_pool idle_sample),
      sd_failures_remaining (c_source idle_sample) \<le> cfg_write_back_retry_count (c_config idle_sample)) =
      (True, True, False, True)"
    by code_simp
  have val: "(let sh = c_shards idle_sample ! shard_for id idle_sample 1 in
       case dict_get (sh_backend sh) 1 of
         Some e \<Rightarrow> if ce_dirty e then Some (ce_value e) else sd_contents (c_source idle_sample) 1
       | None \<Rightarrow> if dict_get (sh_tombstones sh) 1 = None then sd_contents (c_source idle_sample) 1 else None) = Some 10"
    by code_simp
  show ?thesis
    using close_without_workers_persists [OF sample_config_valid(3) sample_cache_init(3),
      of id "[Put 1 10 TTL_UNSET, Put 2 20 TTL_UNSET, Delete 2]" True 0 0 1] state val by simp
qed



section \<open>Two shutdowns that do not keep their word\<close>

definition tiny_cache :: "(nat, nat) cache" where
  "tiny_cache =
     (case cache_init (Some (default_config\<lparr>cfg_capacity := 1, cfg_write_mode := ''write-back''\<rparr>)) init_args_unset
        None (fake_clock_init 0) of Inr c \<Rightarrow> c | Inl e \<Rightarrow> undefined)"


lemma close_window_none_free [simp]: "close_window h n 0 blocked c = (0, blocked, c)"
  by (cases n) simp_all

lemma close_flush_blocked:
  assumes "length (filter id (wp_threads (c_pool c))) = 1"
    and "\<exists>j q v. jq_get (c_queue (enqueue_dirty_write_back_jobs c)) = Some (PreloadKey j, q) \<and> pj_loader j = Inr v"
  shows "close_flush h (Suc n) c = close_flush h (Suc 0) c"
  using assms by (auto simp: close_flush_def Let_def)

text \<open>
  C24: A preload that a worker picks up while the cache closes blocks shutdown: its \<open>put\<close>
  waits for the lifecycle lock that \<open>close\<close> holds, so the queue is never joined and
  \<open>close\<close> raises \<open>ShutdownFlushError\<close> although no entry is dirty, however long it waits.
\<close>

theorem close_blocked_by_preload:
  "fst (cache_close id (Some True) True (Suc n) 0
     (run id [Start, Preload 1 (Inr 10) TTL_UNSET] write_back_sample)) = Inl (ShutdownFlushError 0)"
proof -
  let ?c = "run id [Start, Preload 1 (Inr 10) TTL_UNSET] write_back_sample"
  let ?c1 = "?c\<lparr>c_state := CLOSING, c_scheduler := scheduler_stop True (c_scheduler ?c)\<rparr>"
  have "(length (filter id (wp_threads (c_pool ?c1))),
      case jq_get (c_queue (enqueue_dirty_write_back_jobs ?c1)) of Some (PreloadKey j, q) \<Rightarrow> pj_loader j = Inr 10 | _ \<Rightarrow> False) = (1, True)"
    by code_simp
  then have "close_flush id (Suc n) ?c1 = close_flush id (Suc 0) ?c1"
    by (intro close_flush_blocked) (auto split: option.splits job.splits)
  then have "cache_close id (Some True) True (Suc n) 0 ?c = cache_close id (Some True) True (Suc 0) 0 ?c"
    by (simp only: cache_close_def Let_def)
  moreover have "fst (cache_close id (Some True) True (Suc 0) 0 ?c) = Inl (ShutdownFlushError 0)" by code_simp
  ultimately show ?thesis by simp
qed

end
