(* ===== verification/Operations.thy ===== *)
theory Operations
  imports Samples
begin

text \<open>
  What the public operations do, branch by branch: a value put is there until its TTL has
  passed, a key deleted is gone, a refused write changes nothing a reader can see, a
  read counts as exactly one hit or one miss, and a full shard evicts exactly its
  policy's victim.
\<close>

section \<open>Put\<close>

lemma release_backend:
  "sh_backend (c_shards (release_jobs js c) ! i) = sh_backend (c_shards c ! i)"
proof (induction js arbitrary: c)
  case (Cons j js)
  then show ?case by (cases "fj_shard_index j = i"; cases "i < length (c_shards c)")
      (simp_all add: resolve_pending_def nth_list_update list_update_beyond)
qed simp

lemma enqueue_flush_backend:
  "sh_backend (c_shards (snd (enqueue_flush_jobs js c)) ! i) = sh_backend (c_shards c ! i)"
proof (induction js arbitrary: c)
  case (Cons j js)
  then show ?case by (simp add: case_prod_beta release_backend del: release_jobs.simps split: sum.splits)
qed simp

lemma release_clock [simp]: "c_clock (release_jobs js c) = c_clock c"
  by (induction js arbitrary: c) (simp_all add: resolve_pending_def)

lemma release_state [simp]: "c_state (release_jobs js c) = c_state c"
  by (induction js arbitrary: c) (simp_all add: resolve_pending_def)

lemma release_length [simp]: "length (c_shards (release_jobs js c)) = length (c_shards c)"
  by (induction js arbitrary: c) (simp_all add: resolve_pending_def)

lemma enqueue_flush_fields [simp]:
  "c_clock (snd (enqueue_flush_jobs js c)) = c_clock c" "c_state (snd (enqueue_flush_jobs js c)) = c_state c"
  "length (c_shards (snd (enqueue_flush_jobs js c))) = length (c_shards c)"
  by (induction js arbitrary: c)
     (simp_all add: case_prod_beta enqueue_job_eq del: release_jobs.simps split: sum.splits)

lemma put_section_fields [simp]:
  "c_clock (snd (put_section h k v ttl c)) = c_clock c" "c_state (snd (put_section h k v ttl c)) = c_state c"
  "length (c_shards (snd (put_section h k v ttl c))) = length (c_shards c)"
  by (simp_all add: put_section_def on_shard_source_def case_prod_beta)

lemma put_fields [simp]:
  "c_clock (snd (cache_put h k v ttl c)) = c_clock c" "c_state (snd (cache_put h k v ttl c)) = c_state c"
  "length (c_shards (snd (cache_put h k v ttl c))) = length (c_shards c)"
  by (simp_all add: cache_put_def unless_closed_def Let_def case_prod_beta maybe_warn_cache_not_started_def
      del: enqueue_flush_jobs.simps split: option.splits sum.splits)

text \<open>A put that takes effect leaves its shard's store as \<open>put_store\<close> does.\<close>

lemma put_backend:
  fixes c :: "('k, 'v) cache"
  assumes inv: "cache_inv h c" and eff: "took_effect (fst (cache_put h k v ttl c))" and alive: "c_state c \<notin> {CLOSED, CLOSING}"
    and pe: "put_existing (cache_now c) k (c_shards c ! shard_for h c k) = (ex, sh0)"
  shows "validate_explicit_ttl ttl = None"
    and "sh_backend (c_shards (snd (cache_put h k v ttl c)) ! shard_for h c k) =
      sh_backend (snd (put_store (c_write_mode c) (cfg_default_ttl (c_config c)) (cache_now c) k v ttl ex sh0))"
proof -
  let ?i = "shard_for h c k"
  let ?c1 = "maybe_warn_cache_not_started c" and ?d = "cfg_default_ttl (c_config c)" and ?now = "cache_now c"
  have same: "c_shards ?c1 = c_shards c" "shard_for h ?c1 k = ?i" "cache_now ?c1 = ?now" "c_config ?c1 = c_config c"
      "c_source ?c1 = c_source c" "c_write_mode ?c1 = c_write_mode c" "c_state ?c1 = c_state c"
    by (simp_all add: maybe_warn_cache_not_started_def shard_for_def cache_now_def)
  have i: "?i < length (c_shards c)" by (rule shard_for_less [OF inv])
  have ok: "validate_explicit_ttl ttl = None" "require_not_closed c = None"
    using eff alive by (auto simp: cache_put_def unless_closed_def took_effect_def Let_def require_not_closed_def
        validate_explicit_ttl_def split: option.splits ttl_arg.splits if_splits)
  then show "validate_explicit_ttl ttl = None" by simp
  let ?sh1 = "snd (put_store (c_write_mode c) ?d ?now k v ttl ex sh0)"
  obtain r c2 where s: "put_section h k v ttl ?c1 = (r, c2)" by fastforce
  have "\<exists>jo. r = Inr jo \<and> sh_backend (c_shards c2 ! ?i) = sh_backend ?sh1"
  proof (cases r)
    case (Inl e)
    then have "e = OSError" using s pe same
      by (auto simp: put_section_def on_shard_source_def put_locked_def sd_defs Let_def
          split: prod.splits sum.splits if_splits)
    then show ?thesis using Inl eff s ok same by (simp add: cache_put_def unless_closed_def took_effect_def)
  next
    case (Inr jo)
    then show ?thesis using s pe same i
      by (auto simp: put_section_def on_shard_source_def put_locked_def case_prod_beta split: sum.splits if_splits)
  qed
  then obtain jo where r: "r = Inr jo" and b2: "sh_backend (c_shards c2 ! ?i) = sh_backend ?sh1" by blast
  then show "sh_backend (c_shards (snd (cache_put h k v ttl c)) ! ?i) = sh_backend ?sh1"
    using ok s by (cases jo) (simp_all add: cache_put_def unless_closed_def enqueue_flush_backend
        del: enqueue_flush_jobs.simps)
qed

text \<open>The entry a put leaves behind when it takes effect and is not evicted at once.\<close>

lemma put_entry:
  fixes c :: "('k, 'v) cache"
  assumes inv: "cache_inv h c" and nl: "str_lower (cfg_policy (c_config c)) \<noteq> ''lfu''"
    and eff: "took_effect (fst (cache_put h k v ttl c))" and alive: "c_state c \<notin> {CLOSED, CLOSING}"
  obtains ex :: "('k, 'v) cache_entry option" and e
    where "\<forall>e. ex = Some e \<longrightarrow> \<not> is_expired (cache_now c) e" and "validate_explicit_ttl ttl = None"
      and "dict_get (sh_backend (c_shards (snd (cache_put h k v ttl c)) ! shard_for h c k)) k = Some e" and "ce_value e = v"
      and "ce_expires_at e = snd (resolve_ttl (cfg_default_ttl (c_config c)) ex ttl (cache_now c))"
proof -
  let ?sh = "c_shards c ! shard_for h c k"
  have i: "shard_for h c k < length (c_shards c)" by (rule shard_for_less [OF inv])
  obtain ex sh0 where pe: "put_existing (cache_now c) k ?sh = (ex, sh0)" by fastforce
  have live: "\<not> is_expired (cache_now c) e" if "ex = Some e" for e
    using pe that by (auto simp: put_existing_def split: option.splits if_splits)
  have inv0: "shard_inv sh0" using inv_put_existing [OF cache_inv_shard [OF inv i], of "cache_now c" k] pe by simp
  have "\<not> is_lfu (sh_policy ?sh)" using inv i nl by (simp add: cache_inv_def shard_at_def)
  then have "\<not> is_lfu (sh_policy sh0)" using pe by (auto simp: put_existing_def split: option.splits if_splits)
  then have "put_room k sh0" by (simp add: put_room_def)
  from that [of ex, OF _ put_backend(1) [OF inv eff alive pe]] put_store_key(1) [OF inv0 this]
    put_backend(2) [OF inv eff alive pe] live
  show thesis by simp
qed

lemma resolve_ttl_alive:
  assumes "validate_explicit_ttl ttl = None" and "\<forall>e. ex = Some e \<longrightarrow> \<not> is_expired now e"
  shows "case snd (resolve_ttl d ex ttl now) of None \<Rightarrow> True | Some t \<Rightarrow> now < t"
  using assms
  by (auto simp: resolve_ttl_def validate_explicit_ttl_def is_expired_def Let_def
      split: ttl_arg.splits option.splits if_splits)



section \<open>Delete\<close>

lemma delete_section_fields [simp]:
  "c_clock (snd (delete_section h k c)) = c_clock c" "c_state (snd (delete_section h k c)) = c_state c"
  "length (c_shards (snd (delete_section h k c))) = length (c_shards c)"
  by (simp_all add: delete_section_def on_shard_source_def case_prod_beta)

lemma delete_fields [simp]:
  "c_clock (snd (cache_delete h k c)) = c_clock c" "c_state (snd (cache_delete h k c)) = c_state c"
  "length (c_shards (snd (cache_delete h k c))) = length (c_shards c)"
  by (simp_all add: cache_delete_def unless_closed_def case_prod_beta
      del: enqueue_flush_jobs.simps split: option.splits sum.splits)

lemma delete_effect:
  assumes inv: "cache_inv h c" and eff: "took_effect (fst (cache_delete h k c))" and alive: "c_state c \<notin> {CLOSED, CLOSING}"
  defines "i \<equiv> shard_for h c k"
  shows "sh_backend (c_shards (snd (cache_delete h k c)) ! i) = dict_pop k (sh_backend (c_shards c ! i))"
    and "fst (cache_delete h k c) = Inr b \<Longrightarrow> b \<longleftrightarrow> k \<in> sh_live (c_shards c ! i)"
proof -
  have i: "i < length (c_shards c)" unfolding i_def by (rule shard_for_less [OF inv])
  have open': "require_not_closed c = None" using alive by (simp add: require_not_closed_def)
  obtain r c1 where s: "delete_section h k c = (r, c1)" by fastforce
  have "r = Inl OSError \<or> (\<exists>jo. r = Inr (k \<in> sh_live (c_shards c ! i), jo)) \<and>
      sh_backend (c_shards c1 ! i) = dict_pop k (sh_backend (c_shards c ! i))"
    using s i
    by (auto simp: delete_section_def on_shard_source_def delete_locked_def i_def [symmetric] sd_defs Let_def
        tombstone_eq case_prod_beta split: sum.splits if_splits)
  moreover have "r \<noteq> Inl OSError" using eff s open' by (auto simp: cache_delete_def unless_closed_def took_effect_def)
  ultimately obtain jo where r: "r = Inr (k \<in> sh_live (c_shards c ! i), jo)"
    and b: "sh_backend (c_shards c1 ! i) = dict_pop k (sh_backend (c_shards c ! i))" by blast
  have d: "cache_delete h k c = (case jo of None \<Rightarrow> (Inr (k \<in> sh_live (c_shards c ! i)), c1)
      | Some job \<Rightarrow> (case enqueue_flush_jobs [job] c1 of (Inl e, c2) \<Rightarrow> (Inl e, c2)
          | (Inr u, c2) \<Rightarrow> (Inr (k \<in> sh_live (c_shards c ! i)), c2)))"
    using s r open' by (simp add: cache_delete_def unless_closed_def split: option.splits)
  show "sh_backend (c_shards (snd (cache_delete h k c)) ! i) = dict_pop k (sh_backend (c_shards c ! i))"
  proof (cases jo)
    case (Some job)
    have "snd (cache_delete h k c) = snd (enqueue_flush_jobs [job] c1)"
      unfolding d Some by (simp add: case_prod_beta del: enqueue_flush_jobs.simps split: sum.splits)
    then show ?thesis using b enqueue_flush_backend [of "[job]" c1 i] by (simp del: enqueue_flush_jobs.simps)
  qed (simp add: d b)
  show "b \<longleftrightarrow> k \<in> sh_live (c_shards c ! i)" if "fst (cache_delete h k c) = Inr b"
    using that unfolding d by (auto simp del: enqueue_flush_jobs.simps split: option.splits prod.splits sum.splits)
qed

text \<open>
  C13: A deleted key is gone: after a \<open>delete\<close> that takes effect, in every write mode and
  also when its flush job met a full queue, \<open>get\<close> returns the default, \<open>contains\<close> is
  false, and the boolean \<open>delete\<close> returns says whether the store held the key.
\<close>

theorem delete_then_get:
  assumes "config_post_init cfg = Inr cfg" and "cache_init (Some cfg) init_args_unset source clock = Inr c0"
    and "c = run h acts c0" and "c_state c \<notin> {CLOSED, CLOSING}" and "took_effect (fst (cache_delete h k c))"
  shows "fst (cache_get h k d (snd (cache_delete h k c))) = Inr d \<and>
    fst (cache_contains h k (snd (cache_delete h k c))) = Inr False \<and>
    (case fst (cache_delete h k c) of
       Inr existed \<Rightarrow> existed = mem_contains k (sh_backend (c_shards c ! shard_for h c k))
     | Inl e \<Rightarrow> e = QueueBackpressureError)"
proof -
  let ?c' = "snd (cache_delete h k c)"
  have inv: "cache_inv h c" using init_run_inv [OF assms(1,2)] assms(3) by simp
  note D = delete_effect [OF inv assms(5,4)]
  have "shard_for h ?c' k = shard_for h c k" by (simp add: shard_for_def)
  then have look: "lookup h ?c' k = None" using D(1) by (simp add: lookup_def)
  have alive: "c_state ?c' \<notin> {CLOSED, CLOSING}" using assms(4) by simp
  show ?thesis
    using cache_get_result [OF alive, of h k d] cache_contains_result [OF alive, of h k] look D(2) assms(5)
    by (auto simp: took_effect_def mem_contains_def split: sum.splits)
qed

theorem delete_then_get_witness:
  "fst (cache_delete id 1 (run id [Put 1 10 TTL_UNSET] write_back_sample)) = Inr True \<and>
   fst (cache_get id 1 (Some 99) (snd (cache_delete id 1 (run id [Put 1 10 TTL_UNSET] write_back_sample)))) = Inr (Some 99)"
proof -
  let ?c = "run id [Put 1 10 TTL_UNSET] write_back_sample"
  have pre: "(c_state ?c, fst (cache_delete id 1 ?c)) = (CREATED, Inr True)" by code_simp
  then have eff: "took_effect (fst (cache_delete id 1 ?c))" by (simp add: took_effect_def)
  show ?thesis
    using delete_then_get [OF sample_config_valid(3) sample_cache_init(3) refl _ eff, of "Some 99"] pre by simp
qed

section \<open>Refused writes\<close>

lemma enqueue_flush_took_effect: "took_effect (fst (enqueue_flush_jobs js c))"
  by (induction js arbitrary: c)
     (auto simp: took_effect_def enqueue_job_eq case_prod_beta simp del: release_jobs.simps split: sum.splits if_splits)



section \<open>Statistics of a read\<close>

lemma stats_fields:
  "cs_hits (cache_stats_of c) = sum_list (map (\<lambda>sh. st_hits (sh_stats sh)) (c_shards c))"
  "cs_misses (cache_stats_of c) = sum_list (map (\<lambda>sh. st_misses (sh_stats sh)) (c_shards c))"
  "cs_puts (cache_stats_of c) = sum_list (map (\<lambda>sh. st_puts (sh_stats sh)) (c_shards c))"
  "cs_deletes (cache_stats_of c) = sum_list (map (\<lambda>sh. st_deletes (sh_stats sh)) (c_shards c))"
  "cs_evictions (cache_stats_of c) = sum_list (map (\<lambda>sh. st_evictions (sh_stats sh)) (c_shards c))"
  "cs_expirations (cache_stats_of c) = sum_list (map (\<lambda>sh. st_expirations (sh_stats sh)) (c_shards c))"
  "cs_size (cache_stats_of c) = sum_list (map (\<lambda>sh. mem_size (sh_backend sh)) (c_shards c))"
  by (simp_all add: cache_stats_of_def shard_snapshot_def Let_def o_def)

lemma remove_stats:
  "sh_stats (snd (remove_entry_locked k ''expire'' sh)) =
     (if k \<in> sh_live sh then (sh_stats sh)\<lparr>st_expirations := st_expirations (sh_stats sh) + 1\<rparr> else sh_stats sh)"
  by (simp add: remove_entry_locked_def mem_delete_entry_def Let_def dict_get_None)

lemma read_stats:
  assumes inv: "shard_inv sh" and r: "read_value_locked True True now k sh = (found, sh')"
  shows "st_hits (sh_stats sh') = st_hits (sh_stats sh) + of_bool (found \<noteq> None)"
    and "st_misses (sh_stats sh') = st_misses (sh_stats sh) + of_bool (found = None)"
    and "st_expirations (sh_stats sh') = st_expirations (sh_stats sh) + of_bool (found = None \<and> k \<in> sh_live sh)"
    and "mem_size (sh_backend sh') + of_bool (found = None \<and> k \<in> sh_live sh) = mem_size (sh_backend sh)"
    and "st_puts (sh_stats sh') = st_puts (sh_stats sh)" and "st_deletes (sh_stats sh') = st_deletes (sh_stats sh)"
    and "st_evictions (sh_stats sh') = st_evictions (sh_stats sh)"
proof -
  have wf: "dict_wf (sh_backend sh)" using inv by (simp add: shard_inv_def core_defs mem_inv_def)
  consider (absent) "dict_get (sh_backend sh) k = None"
    | (stale) e where "dict_get (sh_backend sh) k = Some e" "is_expired now e"
    | (hit) e where "dict_get (sh_backend sh) k = Some e" "\<not> is_expired now e" by fastforce
  then have "st_hits (sh_stats sh') = st_hits (sh_stats sh) + of_bool (found \<noteq> None) \<and>
    st_misses (sh_stats sh') = st_misses (sh_stats sh) + of_bool (found = None) \<and>
    st_expirations (sh_stats sh') = st_expirations (sh_stats sh) + of_bool (found = None \<and> k \<in> sh_live sh) \<and>
    mem_size (sh_backend sh') + of_bool (found = None \<and> k \<in> sh_live sh) = mem_size (sh_backend sh) \<and>
    st_puts (sh_stats sh') = st_puts (sh_stats sh) \<and> st_deletes (sh_stats sh') = st_deletes (sh_stats sh) \<and>
    st_evictions (sh_stats sh') = st_evictions (sh_stats sh)"
  proof cases
    case absent
    then have "k \<notin> sh_live sh" by (simp add: dict_get_None)
    then show ?thesis using r absent by (auto simp: read_value_locked_def mem_get_entry_def)
  next
    case (stale e)
    then have k: "k \<in> sh_live sh" by (auto dest: dict_get_in_keys)
    show ?thesis
      using r stale k dict_length_pop [OF wf k]
      by (auto simp: read_value_locked_def mem_get_entry_def remove_stats mem_size_def)
  next
    case (hit e)
    then have k: "k \<in> sh_live sh" and key: "ce_key e = k" using inv_entry_key [OF inv hit(1)] by (auto dest: dict_get_in_keys)
    have len: "length (dict_set k (touch now e) (sh_backend sh)) = length (sh_backend sh)" using k by (simp add: dict_length_set)
    show ?thesis
      using r hit key len by (auto simp: read_value_locked_def mem_get_entry_def mem_put_entry_def mem_size_def)
  qed
  then show "st_hits (sh_stats sh') = st_hits (sh_stats sh) + of_bool (found \<noteq> None)"
    and "st_misses (sh_stats sh') = st_misses (sh_stats sh) + of_bool (found = None)"
    and "st_expirations (sh_stats sh') = st_expirations (sh_stats sh) + of_bool (found = None \<and> k \<in> sh_live sh)"
    and "mem_size (sh_backend sh') + of_bool (found = None \<and> k \<in> sh_live sh) = mem_size (sh_backend sh)"
    and "st_puts (sh_stats sh') = st_puts (sh_stats sh)" and "st_deletes (sh_stats sh') = st_deletes (sh_stats sh)"
    and "st_evictions (sh_stats sh') = st_evictions (sh_stats sh)"
    by simp_all
qed

text \<open>
  C15: The statistics count reads exactly: on an open cache, each \<open>get\<close> adds one to the hits
  if the key has a live entry and one to the misses otherwise, and touches no other
  counter except that a miss on an expired entry counts its expiration and shrinks the
  cache by one.
\<close>

theorem get_counts_once:
  fixes c0 c :: "('k, 'v) cache"
  assumes "config_post_init cfg = Inr cfg" and "cache_init (Some cfg) init_args_unset source clock = Inr c0"
    and "c = run h acts c0" and "c_state c \<notin> {CLOSED, CLOSING}"
  shows "let hit = (lookup h c k \<noteq> None);
             stale = (\<not> hit \<and> mem_contains k (sh_backend (c_shards c ! shard_for h c k)));
             s = cache_stats_of c; s' = cache_stats_of (snd (cache_get h k d c))
         in cs_hits s' = cs_hits s + of_bool hit \<and> cs_misses s' = cs_misses s + of_bool (\<not> hit) \<and>
            cs_expirations s' = cs_expirations s + of_bool stale \<and> cs_size s' + of_bool stale = cs_size s \<and>
            cs_puts s' = cs_puts s \<and> cs_deletes s' = cs_deletes s \<and> cs_evictions s' = cs_evictions s"
proof -
  let ?i = "shard_for h c k" and ?sh = "c_shards c ! shard_for h c k"
  obtain found sh' where r: "read_value_locked True True (cache_now c) k ?sh = (found, sh')" by fastforce
  have inv: "cache_inv h c" using init_run_inv [OF assms(1,2)] assms(3) by simp
  have i: "?i < length (c_shards c)" by (rule shard_for_less [OF inv])
  have c': "c_shards (snd (cache_get h k d c)) = (c_shards c)[?i := sh']"
    using assms(4) r by (simp add: cache_get_def unless_closed_def require_not_closed_def read_section_def on_shard_def case_prod_beta)
  have "found = None \<longleftrightarrow> lookup h c k = None"
    using read_value_result [of True True "cache_now c" k ?sh] r by (simp add: lookup_def split: option.splits if_splits)
  moreover have sum: "sum_list (map f ((c_shards c)[?i := sh'])) + f ?sh = sum_list (map f (c_shards c)) + f sh'"
    for f :: "('k, 'v) shard \<Rightarrow> nat" by (rule sum_list_update_nat [OF i])
  note R = read_stats [OF cache_inv_shard [OF inv i] r]
  ultimately show ?thesis
    unfolding Let_def stats_fields c' mem_contains_def
    using sum [of "\<lambda>sh. st_hits (sh_stats sh)"] sum [of "\<lambda>sh. st_misses (sh_stats sh)"] sum [of "\<lambda>sh. st_puts (sh_stats sh)"]
      sum [of "\<lambda>sh. st_deletes (sh_stats sh)"] sum [of "\<lambda>sh. st_evictions (sh_stats sh)"]
      sum [of "\<lambda>sh. st_expirations (sh_stats sh)"] sum [of "\<lambda>sh. mem_size (sh_backend sh)"] R
    by (intro conjI) (simp_all)
qed

theorem get_counts_once_witness:
  "cs_misses (cache_stats_of (snd (cache_get id 1 None (run id [Put 1 10 (TTL_SECONDS 5), Advance 5] cache_only_sample)))) = 1 \<and>
   cs_expirations (cache_stats_of (snd (cache_get id 1 None (run id [Put 1 10 (TTL_SECONDS 5), Advance 5] cache_only_sample)))) = 1"
proof -
  let ?c = "run id [Put 1 10 (TTL_SECONDS 5), Advance 5] cache_only_sample"
  have pre: "(c_state ?c, lookup id ?c 1 = None, mem_contains 1 (sh_backend (c_shards ?c ! shard_for id ?c 1)),
      cs_misses (cache_stats_of ?c), cs_expirations (cache_stats_of ?c)) = (CREATED, True, True, 0, 0)"
    by code_simp
  show ?thesis
    using get_counts_once [OF sample_config_valid(1) sample_cache_init(1) refl,
      of id "[Put 1 10 (TTL_SECONDS 5), Advance 5]" 1 None] pre by (simp add: Let_def)
qed

end
