(* ===== verification/Cache_Only.thy ===== *)
theory Cache_Only
  imports Operations
begin

text \<open>
  Puts and gets of an open cache-only cache in terms of what it stores: the facts the
  command line and the workload simulator rest on.
\<close>

definition stored :: "('k \<Rightarrow> nat) \<Rightarrow> ('k, 'v) cache \<Rightarrow> 'k \<Rightarrow> ('k, 'v) cache_entry option" where
  "stored h c k = dict_get (sh_backend (c_shards c ! shard_for h c k)) k"

definition fill :: "('k, 'v) cache \<Rightarrow> nat \<Rightarrow> nat" where
  "fill c i = mem_size (sh_backend (c_shards c ! i))"

definition plain :: "('k \<Rightarrow> nat) \<Rightarrow> ('k, 'v) cache \<Rightarrow> bool" where
  "plain h c \<longleftrightarrow> cache_inv h c \<and> c_state c \<notin> {CLOSED, CLOSING} \<and> c_write_mode c = CACHE_ONLY"

text \<open>Configuration, clock, lifecycle and capacities are as before.\<close>

definition same_frame :: "('k, 'v) cache \<Rightarrow> ('k, 'v) cache \<Rightarrow> bool" where
  "same_frame c c' \<longleftrightarrow> c_config c' = c_config c \<and> c_clock c' = c_clock c \<and> c_state c' = c_state c \<and>
     c_write_mode c' = c_write_mode c \<and> map sh_capacity (c_shards c') = map sh_capacity (c_shards c)"

lemma same_frame_refl [simp]: "same_frame c c"
  by (simp add: same_frame_def)

lemma same_frame_trans: "same_frame c c' \<Longrightarrow> same_frame c' c'' \<Longrightarrow> same_frame c c''"
  by (simp add: same_frame_def)

lemma same_frame_length: "same_frame c c' \<Longrightarrow> length (c_shards c') = length (c_shards c)"
  unfolding same_frame_def by (metis length_map)

lemma same_frame_shard_for: "same_frame c c' \<Longrightarrow> shard_for h c' k = shard_for h c k"
  by (simp add: shard_for_def same_frame_length)

lemma same_frame_now: "same_frame c c' \<Longrightarrow> cache_now c' = cache_now c"
  by (simp add: same_frame_def cache_now_def)

lemma same_frame_capacity: "same_frame c c' \<Longrightarrow> i < length (c_shards c) \<Longrightarrow> sh_capacity (c_shards c' ! i) = sh_capacity (c_shards c ! i)"
  unfolding same_frame_def by (metis length_map nth_map)

lemma same_frame_plain: "same_frame c c' \<Longrightarrow> cache_inv h c' \<Longrightarrow> plain h c \<Longrightarrow> plain h c'"
  by (simp add: plain_def same_frame_def)

lemma plain_open: "plain h c \<Longrightarrow> unless_closed c body = body"
  by (simp add: plain_def unless_closed_def require_not_closed_def)

lemma lookup_stored:
  "lookup h c k = (case stored h c k of None \<Rightarrow> None | Some e \<Rightarrow> if is_expired (cache_now c) e then None else Some e)"
  by (simp add: lookup_def stored_def)

text \<open>Replacing one shard, seen from outside.\<close>

lemma set_shard_view:
  assumes "i < length (c_shards c)"
  shows "stored h (set_shard i sh c) j = (if shard_for h c j = i then dict_get (sh_backend sh) j else stored h c j)"
    and "fill (set_shard i sh c) i' = (if i' = i then mem_size (sh_backend sh) else fill c i')"
    and "sh_capacity sh = sh_capacity (c_shards c ! i) \<Longrightarrow> same_frame c (set_shard i sh c)"
  using assms
  by (auto simp: stored_def fill_def shard_for_def same_frame_def nth_list_update map_update
      intro!: nth_equalityI)

lemma set_shard_sum:
  fixes f :: "('k, 'v) shard \<Rightarrow> nat"
  assumes "i < length (c_shards c)"
  shows "sum_list (map f (c_shards (set_shard i sh c))) + f (c_shards c ! i) = sum_list (map f (c_shards c)) + f sh"
  using sum_list_update_nat [OF assms, of f sh] by simp

section \<open>Put\<close>

lemma plain_put:
  assumes "plain h c" and "validate_explicit_ttl ttl = None"
    and pe: "put_existing (cache_now c) k (c_shards c ! shard_for h c k) = (ex, sh0)"
  shows "\<exists>c1. same_frame c c1 \<and> c_shards c1 = c_shards c \<and> cache_put h k v ttl c =
    (Inr (), set_shard (shard_for h c k) (enforce_capacity_locked
       (put_insert (put_entry_of CACHE_ONLY (cfg_default_ttl (c_config c)) (cache_now c) k v ttl ex sh0) sh0)) c1)"
proof -
  let ?c1 = "maybe_warn_cache_not_started c"
  have same: "same_frame c ?c1" "c_shards ?c1 = c_shards c" "shard_for h ?c1 k = shard_for h c k" "cache_now ?c1 = cache_now c"
    "c_config ?c1 = c_config c" "c_write_mode ?c1 = CACHE_ONLY"
    using assms(1) by (simp_all add: maybe_warn_cache_not_started_def same_frame_def shard_for_def cache_now_def plain_def)
  have "require_not_closed c = None" using assms(1) by (simp add: plain_def require_not_closed_def)
  then have "cache_put h k v ttl c = (Inr (), set_shard (shard_for h c k) (enforce_capacity_locked
       (put_insert (put_entry_of CACHE_ONLY (cfg_default_ttl (c_config c)) (cache_now c) k v ttl ex sh0) sh0)) ?c1)"
    using assms(2) pe same by (simp add: cache_put_def unless_closed_def put_section_def on_shard_source_def put_locked_def put_store_eq)
  with same(1,2) show ?thesis by blast
qed

text \<open>A new key in a shard that has room: it is added, nothing else changes.\<close>

lemma plain_put_new:
  fixes c :: "('k, 'v) cache" and v :: 'v and k :: 'k
  assumes pl: "plain h c" and ttl: "validate_explicit_ttl ttl = None"
    and new: "stored h c k = None" and room: "fill c (shard_for h c k) < sh_capacity (c_shards c ! shard_for h c k)"
  defines "c' \<equiv> snd (cache_put h k v ttl c)"
  shows "fst (cache_put h k v ttl c) = Inr ()" and "plain h c'" and "same_frame c c'"
    and "\<exists>e. stored h c' = (stored h c)(k \<mapsto> e) \<and> ce_value e = v \<and> ce_hit_count e = 0 \<and> ce_key e = k \<and>
      ce_expires_at e = snd (resolve_ttl (cfg_default_ttl (c_config c)) (None :: ('k, 'v) cache_entry option) ttl (cache_now c))"
    and "fill c' i = fill c i + of_bool (i = shard_for h c k)"
    and "cs_hits (cache_stats_of c') = cs_hits (cache_stats_of c)" and "cs_misses (cache_stats_of c') = cs_misses (cache_stats_of c)"
    and "cs_evictions (cache_stats_of c') = cs_evictions (cache_stats_of c)"
proof -
  let ?i = "shard_for h c k" and ?sh = "c_shards c ! shard_for h c k"
  let ?e = "put_entry_of CACHE_ONLY (cfg_default_ttl (c_config c)) (cache_now c) k v ttl None ?sh"
  have inv: "cache_inv h c" using pl by (simp add: plain_def)
  have i: "?i < length (c_shards c)" by (rule shard_for_less [OF inv])
  have none: "dict_get (sh_backend ?sh) k = None" using new by (simp add: stored_def)
  then have pe: "put_existing (cache_now c) k ?sh = (None, ?sh)" by (simp add: put_existing_def mem_get_entry_def)
  have len: "mem_size (sh_backend (put_insert ?e ?sh)) = Suc (fill c ?i)"
    using none by (simp add: mem_size_def fill_def dict_length_set dict_get_None)
  then have "enforce_capacity_locked (put_insert ?e ?sh) = put_insert ?e ?sh"
    using room by (intro enforce_within_capacity) simp
  with plain_put [OF pl ttl pe, of v] obtain c1 where c1: "same_frame c c1" "c_shards c1 = c_shards c"
    and put: "cache_put h k v ttl c = (Inr (), set_shard ?i (put_insert ?e ?sh) c1)" by auto
  then have c': "c' = set_shard ?i (put_insert ?e ?sh) c1" by (simp add: c'_def)
  have i1: "?i < length (c_shards c1)" using i c1(2) by simp
  note V = set_shard_view [OF i1, where sh = "put_insert ?e ?sh"]
  show "fst (cache_put h k v ttl c) = Inr ()" using put by simp
  show frame: "same_frame c c'" unfolding c' using same_frame_trans [OF c1(1) V(3)] c1(2) by simp
  show "plain h c'" using same_frame_plain [OF frame _ pl] put_inv [OF inv, of k v ttl] by (simp add: c'_def)
  have st1: "stored h c1 = stored h c" using c1(2) by (auto simp: stored_def shard_for_def)
  have sf1: "shard_for h c1 = shard_for h c" using c1(2) by (auto simp: shard_for_def)
  have "stored h c' = (stored h c)(k \<mapsto> ?e)"
    unfolding c' by (rule ext) (auto simp: V(1) sf1 st1, simp add: stored_def)
  then show "\<exists>e. stored h c' = (stored h c)(k \<mapsto> e) \<and> ce_value e = v \<and> ce_hit_count e = 0 \<and> ce_key e = k \<and>
      ce_expires_at e = snd (resolve_ttl (cfg_default_ttl (c_config c)) (None :: ('k, 'v) cache_entry option) ttl (cache_now c))"
    by (intro exI [of _ ?e]) (simp add: put_entry_of_def)
  show "fill c' i = fill c i + of_bool (i = ?i)"
    unfolding c' V(2) using len c1(2) by (auto simp: fill_def)
  have "f (put_insert ?e ?sh) = f ?sh \<Longrightarrow> sum_list (map f (c_shards c')) = sum_list (map f (c_shards c))"
    for f :: "('k, 'v) shard \<Rightarrow> nat"
    unfolding c' using set_shard_sum [OF i1, of f "put_insert ?e ?sh"] c1(2) by simp
  then show "cs_hits (cache_stats_of c') = cs_hits (cache_stats_of c)" "cs_misses (cache_stats_of c') = cs_misses (cache_stats_of c)"
    "cs_evictions (cache_stats_of c') = cs_evictions (cache_stats_of c)"
    unfolding stats_fields by (simp_all add: put_insert_def)
qed

text \<open>Any put: it succeeds, its key aside nothing appears, and it counts as no read.\<close>

lemma enforce_loop_reads:
  "enforce_loop fuel sh = Some sh' \<Longrightarrow> st_hits (sh_stats sh') = st_hits (sh_stats sh) \<and> st_misses (sh_stats sh') = st_misses (sh_stats sh)"
proof (induction fuel arbitrary: sh)
  case (Suc fuel)
  have "st_hits (sh_stats (snd (remove_entry_locked c r sh))) = st_hits (sh_stats sh) \<and>
      st_misses (sh_stats (snd (remove_entry_locked c r sh))) = st_misses (sh_stats sh)" for c r
    by (simp add: remove_entry_locked_def mem_delete_entry_def Let_def maybe_prune_marks_locked_def)
  with Suc show ?case by (auto split: if_splits option.splits)
qed simp

lemma enforce_reads [simp]:
  "st_hits (sh_stats (enforce_capacity_locked sh)) = st_hits (sh_stats sh)"
  "st_misses (sh_stats (enforce_capacity_locked sh)) = st_misses (sh_stats sh)"
  using enforce_loop_reads [of "Suc (policy_len (sh_policy sh))" sh]
  by (auto simp: enforce_capacity_locked_def simp del: enforce_loop.simps split: option.splits)

lemma plain_put_any:
  fixes c :: "('k, 'v) cache" and v :: 'v and k :: 'k
  assumes pl: "plain h c" and ttl: "validate_explicit_ttl ttl = None"
  defines "c' \<equiv> snd (cache_put h k v ttl c)"
  shows "fst (cache_put h k v ttl c) = Inr ()" and "plain h c'" and "same_frame c c'"
    and "j \<noteq> k \<Longrightarrow> stored h c' j = None \<or> stored h c' j = stored h c j"
    and "cs_hits (cache_stats_of c') = cs_hits (cache_stats_of c)" and "cs_misses (cache_stats_of c') = cs_misses (cache_stats_of c)"
    and "stored h c' k = Some e \<Longrightarrow> \<exists>ex. (\<forall>e. ex = Some e \<longrightarrow> stored h c k = Some e) \<and>
      ce_expires_at e = snd (resolve_ttl (cfg_default_ttl (c_config c)) (ex :: ('k, 'v) cache_entry option) ttl (cache_now c))"
proof -
  let ?i = "shard_for h c k" and ?sh = "c_shards c ! shard_for h c k"
  have inv: "cache_inv h c" using pl by (simp add: plain_def)
  have i: "?i < length (c_shards c)" by (rule shard_for_less [OF inv])
  note si = cache_inv_shard [OF inv i]
  obtain ex sh0 where pe: "put_existing (cache_now c) k ?sh = (ex, sh0)" by fastforce
  let ?e = "put_entry_of CACHE_ONLY (cfg_default_ttl (c_config c)) (cache_now c) k v ttl ex sh0"
  let ?sh1 = "enforce_capacity_locked (put_insert ?e sh0)"
  obtain c1 where c1: "same_frame c c1" "c_shards c1 = c_shards c"
    and put: "cache_put h k v ttl c = (Inr (), set_shard ?i ?sh1 c1)" using plain_put [OF pl ttl pe] by blast
  then have c': "c' = set_shard ?i ?sh1 c1" by (simp add: c'_def)
  have i1: "?i < length (c_shards c1)" using i c1(2) by simp
  note V = set_shard_view [OF i1, where sh = "?sh1"]
  have inv0: "shard_inv sh0" using inv_put_existing [OF si, of "cache_now c" k] pe by simp
  have core: "shard_core (put_insert ?e sh0)" using inv0 by (simp add: shard_inv_def put_insert_core)
  have cap: "sh_capacity ?sh1 = sh_capacity ?sh"
    using enforce_frame(4) [OF core] pe by (auto simp: put_existing_def split: option.splits if_splits)
  show "fst (cache_put h k v ttl c) = Inr ()" using put by simp
  show frame: "same_frame c c'" unfolding c' using same_frame_trans [OF c1(1) V(3)] c1(2) cap by simp
  show "plain h c'" using same_frame_plain [OF frame _ pl] put_inv [OF inv, of k v ttl] by (simp add: c'_def)
  have st1: "stored h c1 = stored h c" and sf1: "shard_for h c1 = shard_for h c"
    using c1(2) by (auto simp: stored_def shard_for_def)
  have keep: "dict_get (sh_backend ?sh1) j = None \<or> dict_get (sh_backend ?sh1) j = dict_get (sh_backend ?sh) j" if "j \<noteq> k" for j
  proof (cases "dict_get (sh_backend ?sh1) j")
    case (Some e)
    then have "j \<in> sh_live ?sh1" by (auto dest: dict_get_in_keys)
    from enforce_frame(2) [OF core this] Some that have "dict_get (sh_backend sh0) j = Some e" by simp
    then show ?thesis using Some pe that by (auto simp: put_existing_def split: option.splits if_splits)
  qed simp
  show "stored h c' j = None \<or> stored h c' j = stored h c j" if "j \<noteq> k"
    unfolding c' V(1) sf1 st1 using keep [OF that] by (auto simp: stored_def)
  show "\<exists>ex. (\<forall>e. ex = Some e \<longrightarrow> stored h c k = Some e) \<and>
      ce_expires_at e = snd (resolve_ttl (cfg_default_ttl (c_config c)) (ex :: ('k, 'v) cache_entry option) ttl (cache_now c))"
    if "stored h c' k = Some e"
  proof -
    have e: "dict_get (sh_backend ?sh1) k = Some e" using that unfolding c' V(1) sf1 by simp
    then have "k \<in> sh_live ?sh1" by (auto dest: dict_get_in_keys)
    from enforce_frame(2) [OF core this] e have "e = ?e" by simp
    moreover have "\<forall>e. ex = Some e \<longrightarrow> stored h c k = Some e"
      using pe by (auto simp: put_existing_def mem_get_entry_def stored_def split: option.splits if_splits)
    ultimately show ?thesis by auto
  qed
  have "st_hits (sh_stats sh0) = st_hits (sh_stats ?sh)" "st_misses (sh_stats sh0) = st_misses (sh_stats ?sh)"
    using pe by (auto simp: put_existing_def remove_stats split: option.splits if_splits)
  then have "st_hits (sh_stats ?sh1) = st_hits (sh_stats ?sh)" "st_misses (sh_stats ?sh1) = st_misses (sh_stats ?sh)"
    by (simp_all, simp_all add: put_insert_def)
  then show "cs_hits (cache_stats_of c') = cs_hits (cache_stats_of c)" "cs_misses (cache_stats_of c') = cs_misses (cache_stats_of c)"
    unfolding stats_fields c' using set_shard_sum [OF i1, of "\<lambda>sh. st_hits (sh_stats sh)" ?sh1]
      set_shard_sum [OF i1, of "\<lambda>sh. st_misses (sh_stats sh)" ?sh1] c1(2) by simp_all
qed

section \<open>Get\<close>

text \<open>A read of a key that is absent, or present without an expiry: one miss or one hit.\<close>

lemma plain_get:
  fixes c :: "('k, 'v) cache" and k :: 'k and d :: "'v option"
  assumes pl: "plain h c" and live: "\<forall>e. stored h c k = Some e \<longrightarrow> ce_expires_at e = None"
  defines "c' \<equiv> snd (cache_get h k d c)"
  shows "fst (cache_get h k d c) = Inr (case stored h c k of None \<Rightarrow> d | Some e \<Rightarrow> Some (ce_value e))"
    and "plain h c'" and "same_frame c c'" and "fill c' i = fill c i"
    and "map_option (\<lambda>e. (ce_value e, ce_expires_at e)) (stored h c' j) = map_option (\<lambda>e. (ce_value e, ce_expires_at e)) (stored h c j)"
    and "cs_hits (cache_stats_of c') = cs_hits (cache_stats_of c) + of_bool (stored h c k \<noteq> None)"
    and "cs_misses (cache_stats_of c') = cs_misses (cache_stats_of c) + of_bool (stored h c k = None)"
    and "cs_evictions (cache_stats_of c') = cs_evictions (cache_stats_of c)"
proof -
  let ?i = "shard_for h c k" and ?sh = "c_shards c ! shard_for h c k"
  have inv: "cache_inv h c" and alive: "c_state c \<notin> {CLOSED, CLOSING}" using pl by (simp_all add: plain_def)
  have i: "?i < length (c_shards c)" by (rule shard_for_less [OF inv])
  note si = cache_inv_shard [OF inv i]
  obtain found sh' where r: "read_value_locked True True (cache_now c) k ?sh = (found, sh')" by fastforce
  have c': "c' = set_shard ?i sh' c"
    using alive r by (simp add: c'_def cache_get_def unless_closed_def require_not_closed_def read_section_def on_shard_def case_prod_beta)
  note V = set_shard_view [OF i, where sh = sh']
  have fresh: "\<not> is_expired (cache_now c) e" if "dict_get (sh_backend ?sh) k = Some e" for e
    using live that by (simp add: stored_def is_expired_def)
  have found: "found = map_option ce_value (stored h c k)"
    using read_value_result [of True True "cache_now c" k ?sh] r fresh
    by (auto simp: stored_def split: option.splits if_splits)
  show "fst (cache_get h k d c) = Inr (case stored h c k of None \<Rightarrow> d | Some e \<Rightarrow> Some (ce_value e))"
    unfolding cache_get_result [OF alive] using fresh by (auto simp: lookup_stored stored_def split: option.splits)
  have sh': "sh_capacity sh' = sh_capacity ?sh"
    "map_option (\<lambda>e. (ce_value e, ce_expires_at e)) (dict_get (sh_backend sh') j) =
       map_option (\<lambda>e. (ce_value e, ce_expires_at e)) (dict_get (sh_backend ?sh) j)" for j
    using r fresh inv_entry_key [OF si] by (auto simp: read_value_locked_def mem_get_entry_def mem_put_entry_def touch_def
        split: option.splits if_splits)
  show frame: "same_frame c c'" unfolding c' using V(3) sh'(1) by simp
  show "plain h c'" using same_frame_plain [OF frame _ pl] get_inv [OF inv, of k d] by (simp add: c'_def)
  show "map_option (\<lambda>e. (ce_value e, ce_expires_at e)) (stored h c' j) = map_option (\<lambda>e. (ce_value e, ce_expires_at e)) (stored h c j)"
    unfolding c' V(1) using sh'(2) [of j] by (auto simp: stored_def)
  note R = read_stats [OF si r]
  have hit: "found = None \<longleftrightarrow> stored h c k = None" using found by simp
  then have "\<not> (found = None \<and> k \<in> sh_live ?sh)" by (simp add: stored_def dict_get_None)
  with R(4) have "mem_size (sh_backend sh') = mem_size (sh_backend ?sh)" by simp
  then show "fill c' i = fill c i" unfolding c' V(2) by (auto simp: fill_def)
  show "cs_hits (cache_stats_of c') = cs_hits (cache_stats_of c) + of_bool (stored h c k \<noteq> None)"
    "cs_misses (cache_stats_of c') = cs_misses (cache_stats_of c) + of_bool (stored h c k = None)"
    "cs_evictions (cache_stats_of c') = cs_evictions (cache_stats_of c)"
    unfolding stats_fields c'
    using set_shard_sum [OF i, of "\<lambda>sh. st_hits (sh_stats sh)" sh'] set_shard_sum [OF i, of "\<lambda>sh. st_misses (sh_stats sh)" sh']
      set_shard_sum [OF i, of "\<lambda>sh. st_evictions (sh_stats sh)" sh'] R(1,2,7) hit by simp_all
qed

section \<open>Hit counts\<close>

lemma plain_restore:
  fixes c :: "('k, 'v) cache" and k :: 'k and n :: int
  assumes pl: "plain h c"
  defines "c' \<equiv> snd (restore_entry_metadata h k n c)"
  shows "fst (restore_entry_metadata h k n c) = Inr ()" and "plain h c'" and "same_frame c c'" and "fill c' i = fill c i"
    and "stored h c' = (stored h c)(k := map_option (\<lambda>e. e\<lparr>ce_hit_count := n\<rparr>) (stored h c k))"
proof -
  let ?i = "shard_for h c k" and ?sh = "c_shards c ! shard_for h c k"
  have inv: "cache_inv h c" and alive: "require_not_closed c = None" using pl by (simp_all add: plain_def require_not_closed_def)
  have i: "?i < length (c_shards c)" by (rule shard_for_less [OF inv])
  let ?sh' = "restore_hit_count_locked k n ?sh"
  have r: "restore_entry_metadata h k n c = (Inr (), set_shard ?i ?sh' c)"
    using alive by (simp add: restore_entry_metadata_def unless_closed_def Let_def)
  then have c': "c' = set_shard ?i ?sh' c" by (simp add: c'_def)
  note V = set_shard_view [OF i, where sh = ?sh']
  show "fst (restore_entry_metadata h k n c) = Inr ()" using r by simp
  show frame: "same_frame c c'" unfolding c' by (rule V(3)) (simp add: restore_hit_count_locked_def split: option.splits)
  show "plain h c'" using same_frame_plain [OF frame _ pl] restore_inv [OF inv, of k n] by (simp add: c'_def)
  have key: "ce_key e = k" "k \<in> sh_live ?sh" if "dict_get (sh_backend ?sh) k = Some e" for e
    using inv_entry_key [OF cache_inv_shard [OF inv i] that] that by (auto dest: dict_get_in_keys)
  show "fill c' i = fill c i"
    unfolding c' V(2) using key
    by (auto simp: fill_def restore_hit_count_locked_def mem_get_entry_def mem_put_entry_def mem_size_def dict_length_set split: option.splits)
  have "dict_get (sh_backend ?sh') j =
      (if j = k then map_option (\<lambda>e. e\<lparr>ce_hit_count := n\<rparr>) (dict_get (sh_backend ?sh) k) else dict_get (sh_backend ?sh) j)" for j
    using key by (auto simp: restore_hit_count_locked_def mem_get_entry_def mem_put_entry_def split: option.splits)
  then show "stored h c' = (stored h c)(k := map_option (\<lambda>e. e\<lparr>ce_hit_count := n\<rparr>) (stored h c k))"
    unfolding c' V(1) [abs_def] by (auto simp: stored_def [abs_def])
qed

section \<open>A fresh cache\<close>

lemma cache_init_plain:
  assumes init: "cache_init config a source clock = Inr c" and valid: "\<And>cfg. config = Some cfg \<Longrightarrow> config_valid cfg"
    and mode: "cfg_write_mode (c_config c) = ''cache-only''"
  shows "plain h c" and "stored h c k = None" and "i < length (c_shards c) \<Longrightarrow> fill c i = 0"
    and "cs_hits (cache_stats_of c) = 0" and "cs_misses (cache_stats_of c) = 0" and "cs_evictions (cache_stats_of c) = 0"
proof -
  have inv: "cache_inv h c" by (rule cache_init_inv [OF init valid])
  obtain cfg where sh: "make_shards cfg 0 (shard_capacities (cfg_capacity cfg) (cfg_shard_count cfg)) = Inr (c_shards c)"
    and st: "c_state c = CREATED" using init by (auto simp: cache_init_def split: sum.splits)
  show "plain h c" using inv st mode by (simp add: plain_def cache_inv_def parse_write_mode_def)
  show "stored h c k = None"
    using make_shards_fresh [OF sh nth_mem [OF shard_for_less [OF inv]]] by (simp add: stored_def)
  show "fill c i = 0" if "i < length (c_shards c)"
    using make_shards_fresh [OF sh nth_mem [OF that]] by (simp add: fill_def mem_size_def)
  have "make_shards cfg i caps = Inr xs \<Longrightarrow> x \<in> set xs \<Longrightarrow> sh_stats x = mutable_stats_init" for i caps xs and x :: "('a, 'b) shard"
    by (induction caps arbitrary: i xs) (auto simp: shard_init_def split: sum.splits)
  from this [OF sh] show "cs_hits (cache_stats_of c) = 0" "cs_misses (cache_stats_of c) = 0" "cs_evictions (cache_stats_of c) = 0"
    unfolding stats_fields by (simp_all add: mutable_stats_init_def)
qed

end
