(* ===== verification/Policy_Reference.thy ===== *)
theory Policy_Reference
  imports Policy
begin

text \<open>
  What the three eviction policies promise, stated over the history of accesses alone: a
  reference that records for each tracked key when it was first inserted, when it was
  last accessed and how often, and searches the record for the victim. FIFO evicts the
  earliest insertion, LRU the earliest last access, LFU the least count and, among
  equal counts, the earliest last access. The policies of the sources refine it.
\<close>

section \<open>The reference\<close>

record use =
  us_first :: nat
  us_last :: nat
  us_count :: nat

record 'k history =
  hi_now :: nat
  hi_uses :: "('k, use) dict"

datatype 'k access = EvGet 'k | EvPut 'k | EvDelete 'k | EvClear

definition history_init :: "'k history" where
  "history_init = \<lparr>hi_now = 0, hi_uses = []\<rparr>"

definition ref_access :: "'k \<Rightarrow> use \<Rightarrow> 'k history \<Rightarrow> 'k history" where
  "ref_access k u H = H\<lparr>hi_now := Suc (hi_now H), hi_uses := dict_set k u (hi_uses H)\<rparr>"

definition ref_again :: "use \<Rightarrow> 'k history \<Rightarrow> use" where
  "ref_again u H = u\<lparr>us_last := hi_now H, us_count := Suc (us_count u)\<rparr>"

fun ref_event :: "'k access \<Rightarrow> 'k history \<Rightarrow> 'k history" where
  "ref_event (EvGet k) H =
     (case dict_get (hi_uses H) k of None \<Rightarrow> H | Some u \<Rightarrow> ref_access k (ref_again u H) H)"
| "ref_event (EvPut k) H =
     ref_access k
       (case dict_get (hi_uses H) k of
          None \<Rightarrow> \<lparr>us_first = hi_now H, us_last = hi_now H, us_count = 1\<rparr>
        | Some u \<Rightarrow> ref_again u H) H"
| "ref_event (EvDelete k) H = H\<lparr>hi_uses := dict_pop k (hi_uses H)\<rparr>"
| "ref_event EvClear H = H\<lparr>hi_uses := []\<rparr>"

definition evict_before :: "string \<Rightarrow> use \<Rightarrow> use \<Rightarrow> bool" where
  "evict_before name u v \<longleftrightarrow>
     (if name = ''fifo'' then us_first u \<le> us_first v
      else if name = ''lru'' then us_last u \<le> us_last v
      else us_count u < us_count v \<or> us_count u = us_count v \<and> us_last u \<le> us_last v)"

definition ref_victim :: "string \<Rightarrow> 'k history \<Rightarrow> 'k option" where
  "ref_victim name H =
     map_option fst (find (\<lambda>p. \<forall>q \<in> set (hi_uses H). evict_before name (snd p) (snd q)) (hi_uses H))"

fun policy_event :: "'k access \<Rightarrow> 'k policy \<Rightarrow> 'k policy" where
  "policy_event (EvGet k) p = policy_on_get k p"
| "policy_event (EvPut k) p = policy_on_put k p"
| "policy_event (EvDelete k) p = policy_on_delete k p"
| "policy_event EvClear p = policy_clear p"

section \<open>Lists ordered by a stamp\<close>

definition ordered :: "(use \<Rightarrow> nat) \<Rightarrow> 'k list \<Rightarrow> ('k, use) dict \<Rightarrow> bool" where
  "ordered s ks d \<longleftrightarrow> distinct ks \<and> set ks = fst ` set d \<and>
     sorted_wrt (\<lambda>a b. s (the (dict_get d a)) < s (the (dict_get d b))) ks"

lemma od_pop_filter: "distinct ks \<Longrightarrow> od_pop k ks = filter (\<lambda>x. x \<noteq> k) ks"
  by (simp add: od_pop_def distinct_remove1_removeAll removeAll_filter_not_eq eq_commute)

lemma ordered_nil [simp]: "ordered s [] []"
  by (simp add: ordered_def)

lemma ordered_pop:
  assumes "ordered s ks d"
  shows "ordered s (od_pop k ks) (dict_pop k d)"
proof -
  have "sorted_wrt (\<lambda>a b. s (the (dict_get d a)) < s (the (dict_get d b))) (filter (\<lambda>x. x \<noteq> k) ks)"
    using assms by (simp add: ordered_def sorted_wrt_filter)
  then have "sorted_wrt (\<lambda>a b. s (the (dict_get (dict_pop k d) a)) < s (the (dict_get (dict_pop k d) b)))
      (filter (\<lambda>x. x \<noteq> k) ks)"
    by (rule sorted_wrt_mono_rel [rotated]) simp
  then show ?thesis using assms by (simp add: ordered_def od_pop_filter) blast
qed

lemma ordered_latest:
  assumes o: "ordered s ks d" and late: "\<And>a v. dict_get d a = Some v \<Longrightarrow> s v < s u"
  shows "ordered s (od_pop k ks @ [k]) (dict_set k u d)"
proof -
  note P = ordered_pop [OF o, of k]
  have "sorted_wrt (\<lambda>a b. s (the (dict_get (dict_pop k d) a)) < s (the (dict_get (dict_pop k d) b))) (od_pop k ks)"
    using P by (simp add: ordered_def)
  then have "sorted_wrt (\<lambda>a b. s (the (dict_get (dict_set k u d) a)) < s (the (dict_get (dict_set k u d) b))) (od_pop k ks)"
    by (rule sorted_wrt_mono_rel [rotated]) (use o in \<open>auto simp: ordered_def\<close>)
  moreover have "s (the (dict_get d a)) < s u" if "a \<in> set ks" for a
    using o late [of a] that by (cases "dict_get d a") (auto simp: ordered_def dict_get_None)
  ultimately show ?thesis using o by (auto simp: ordered_def sorted_wrt_append)
qed

lemma ordered_same:
  assumes o: "ordered s ks d" and k: "dict_get d k = Some v" and s: "s u = s v"
  shows "ordered s ks (dict_set k u d)"
proof -
  have eq: "s (the (dict_get (dict_set k u d) a)) = s (the (dict_get d a))" for a by (simp add: k s)
  have keys: "fst ` set (dict_set k u d) = fst ` set d" unfolding dict_set_keys by (rule insert_absorb [OF dict_get_in_keys [OF k]])
  show ?thesis using o by (simp only: ordered_def eq keys)
qed

lemma find_unique:
  assumes "x \<in> set xs" and "P x" and unique: "\<And>y. y \<in> set xs \<Longrightarrow> P y \<Longrightarrow> y = x"
  shows "find P xs = Some x"
proof (cases "find P xs")
  case None
  then show ?thesis using assms(1,2) by (auto simp: find_None_iff)
next
  case (Some y)
  then have "y \<in> set xs" and "P y" by (auto simp: find_Some_iff)
  with unique Some show ?thesis by blast
qed

text \<open>The first key of an ordered list is the one the reference finds.\<close>

lemma ordered_victim:
  assumes o: "ordered s ks d" and wf: "dict_wf d" and le: "\<And>u v. before u v \<longleftrightarrow> s u \<le> s v"
  shows "od_first ks = map_option fst (find (\<lambda>p. \<forall>q \<in> set d. before (snd p) (snd q)) d)"
proof (cases ks)
  case Nil
  then have "d = []" using o by (simp add: ordered_def)
  then show ?thesis using Nil by simp
next
  case (Cons k ks')
  then have "k \<in> fst ` set d" using o by (auto simp: ordered_def)
  then obtain u where u: "dict_get d k = Some u" by (metis dict_get_None not_None_eq)
  have later: "s u < s v" if "(a, v) \<in> set d" "a \<noteq> k" for a v
  proof -
    have "a \<in> set ks'" and "dict_get d a = Some v" using o that Cons wf by (force simp: ordered_def)+
    then show ?thesis using o Cons u by (auto simp: ordered_def)
  qed
  have "find (\<lambda>p. \<forall>q \<in> set d. before (snd p) (snd q)) d = Some (k, u)"
  proof (rule find_unique)
    show "(k, u) \<in> set d" using u by (rule map_of_SomeD)
    show "\<forall>q \<in> set d. before (snd (k, u)) (snd q)"
      using later wf u by (auto simp: le) (metis eq_imp_le dict_mem_get less_imp_le_nat option.inject)
    fix y
    assume y: "y \<in> set d" "\<forall>q \<in> set d. before (snd y) (snd q)"
    then have "s (snd y) \<le> s u" using map_of_SomeD [OF u] by (auto simp: le)
    then have "fst y = k" using later [of "fst y" "snd y"] y(1) by fastforce
    moreover have "dict_get d (fst y) = Some (snd y)" using y(1) wf by simp
    ultimately show "y = (k, u)" using u by (cases y) simp
  qed
  then show ?thesis using Cons by (simp add: od_first_def)
qed

section \<open>Refinement\<close>

definition history_ok :: "'k history \<Rightarrow> bool" where
  "history_ok H \<longleftrightarrow> dict_wf (hi_uses H) \<and>
     (\<forall>k u. dict_get (hi_uses H) k = Some u \<longrightarrow> us_first u < hi_now H \<and> us_last u < hi_now H)"

fun policy_abs :: "'k policy \<Rightarrow> 'k history \<Rightarrow> bool" where
  "policy_abs (FIFOPolicy ks) H = ordered us_first ks (hi_uses H)"
| "policy_abs (LRUPolicy ks) H = ordered us_last ks (hi_uses H)"
| "policy_abs (LFUPolicy p) H =
     (\<exists>h. lfu_abs p h \<and> ordered us_last (map fst h) (hi_uses H) \<and>
        (\<forall>k. map_of h k = map_option us_count (dict_get (hi_uses H) k)))"

lemma history_ok_step: "history_ok H \<Longrightarrow> history_ok (ref_event e H)"
  by (cases e) (auto simp: history_ok_def ref_access_def ref_again_def less_Suc_eq split: option.splits)

lemma ordered_keys: "ordered s ks d \<Longrightarrow> k \<in> set ks \<longleftrightarrow> dict_get d k \<noteq> None"
  by (simp add: ordered_def dict_get_None)

lemma ref_again_stamps [simp]:
  "us_first (ref_again u H) = us_first u" "us_last (ref_again u H) = hi_now H" "us_count (ref_again u H) = Suc (us_count u)"
  by (simp_all add: ref_again_def)

lemma ref_access_uses [simp]: "hi_uses (ref_access k u H) = dict_set k u (hi_uses H)"
  by (simp add: ref_access_def)

lemma ordered_now:
  assumes "ordered s ks (hi_uses H)" and "history_ok H" and "s = us_first \<or> s = us_last" and "s u = hi_now H"
  shows "ordered s (od_pop k ks @ [k]) (dict_set k u (hi_uses H))"
  by (rule ordered_latest [OF assms(1)]) (use assms(2-4) in \<open>auto simp: history_ok_def\<close>)

lemma fifo_refines:
  assumes o: "ordered us_first ks (hi_uses H)" and ok: "history_ok H"
  shows "policy_abs (policy_event e (FIFOPolicy ks)) (ref_event e H)"
proof (cases e)
  case (EvPut k)
  show ?thesis
  proof (cases "dict_get (hi_uses H) k")
    case None
    then have "k \<notin> set ks" using ordered_keys [OF o] by simp
    then show ?thesis
      using ordered_now [OF o ok, of "\<lparr>us_first = hi_now H, us_last = hi_now H, us_count = 1\<rparr>" k] None EvPut
      by (simp add: fifo_newcomer_last)
  next
    case (Some u)
    then have "k \<in> set ks" using ordered_keys [OF o] by simp
    then show ?thesis using ordered_same [OF o Some] Some EvPut by (simp add: fifo_on_put_def)
  qed
next
  case (EvGet k)
  then show ?thesis using o ordered_same [OF o] by (auto simp: fifo_on_get_def split: option.splits)
qed (use ordered_pop [OF o] in \<open>simp_all add: fifo_on_delete_def fifo_clear_def\<close>)

lemma lru_refines:
  assumes o: "ordered us_last ks (hi_uses H)" and ok: "history_ok H"
  shows "policy_abs (policy_event e (LRUPolicy ks)) (ref_event e H)"
proof (cases e)
  case (EvPut k)
  have "distinct ks" using o by (simp add: ordered_def)
  then show ?thesis using ordered_now [OF o ok] EvPut by (simp add: lru_put_last split: option.splits)
next
  case (EvGet k)
  then show ?thesis using o ordered_now [OF o ok] ordered_keys [OF o, of k]
    by (auto simp: lru_on_get_def od_move_to_end_def od_pop_def split: option.splits)
qed (use ordered_pop [OF o] in \<open>simp_all add: lru_on_delete_def lru_clear_def\<close>)

lemma keys_pop: "dict_wf h \<Longrightarrow> map fst (dict_pop k h) = od_pop k (map fst h)"
  by (simp add: delete_keys od_pop_def distinct_remove1_removeAll)

lemma touch_refines:
  assumes wf: "dict_wf h" and o: "ordered us_last (map fst h) (hi_uses H)" and ok: "history_ok H"
    and counts: "\<forall>k. map_of h k = map_option us_count (dict_get (hi_uses H) k)"
    and u: "us_last u = hi_now H" "us_count u = Suc (dict_get0 h k)"
  shows "ordered us_last (map fst (spec_touch k h)) (dict_set k u (hi_uses H)) \<and>
    (\<forall>j. map_of (spec_touch k h) j = map_option us_count (dict_get (dict_set k u (hi_uses H)) j))"
  using ordered_now [OF o ok, of u k] u counts wf
  by (auto simp: spec_touch_def keys_pop map_of_append map_add_def split: option.splits)

lemma lfu_refines:
  assumes abs: "lfu_abs p h" and o: "ordered us_last (map fst h) (hi_uses H)" and ok: "history_ok H"
    and counts: "\<forall>k. map_of h k = map_option us_count (dict_get (hi_uses H) k)"
  shows "policy_abs (policy_event e (LFUPolicy p)) (ref_event e H)"
proof (cases e)
  case (EvPut k)
  let ?u = "case dict_get (hi_uses H) k of
      None \<Rightarrow> \<lparr>us_first = hi_now H, us_last = hi_now H, us_count = 1\<rparr> | Some u \<Rightarrow> ref_again u H"
  have "us_last ?u = hi_now H" "us_count ?u = Suc (dict_get0 h k)"
    using counts by (simp_all add: dict_get0_def split: option.splits)
  from touch_refines [OF lfu_absD(1) [OF abs] o ok counts this] show ?thesis
    using lfu_on_put_abs [OF abs, of k] EvPut by (auto intro!: exI [of _ "spec_touch k h"])
next
  case (EvGet k)
  show ?thesis
  proof (cases "dict_get (hi_uses H) k")
    case None
    then have "map_of h k = None" using counts by simp
    then have "spec_get k h = h" by (simp add: spec_get_def dict_get_None)
    then show ?thesis using lfu_on_get_abs [OF abs, of k] o counts None EvGet by auto
  next
    case (Some u)
    then have c: "map_of h k = Some (us_count u)" using counts by simp
    then have "spec_get k h = spec_touch k h" using dict_get_in_keys [OF c] by (simp add: spec_get_def)
    moreover have "us_count (ref_again u H) = Suc (dict_get0 h k)" using c by simp
    note touch_refines [OF lfu_absD(1) [OF abs] o ok counts _ this]
    ultimately show ?thesis
      using lfu_on_get_abs [OF abs, of k] Some EvGet by (auto intro!: exI [of _ "spec_touch k h"])
  qed
next
  case (EvDelete k)
  then show ?thesis
    using counts lfu_on_delete_abs [OF abs, of k] ordered_pop [OF o, of k] lfu_absD(1) [OF abs]
    by (auto simp: spec_delete_def keys_pop intro!: exI [of _ "dict_pop k h"])
next
  case EvClear
  then show ?thesis using lfu_clear_abs by (auto intro!: exI [of _ "[]"])
qed

lemma policy_refines:
  assumes "policy_abs p H" and "history_ok H"
  shows "policy_abs (policy_event e p) (ref_event e H)"
  using assms by (cases p) (auto intro: fifo_refines lru_refines lfu_refines simp del: policy_event.simps)

lemma lfu_before_strict:
  "evict_before ''lfu'' v u \<Longrightarrow> us_count u = n \<Longrightarrow> \<not> (n < us_count v \<or> n = us_count v \<and> us_last u < us_last v)"
  unfolding evict_before_def by (simp, arith)

lemma lfu_victim:
  assumes abs: "lfu_abs p h" and o: "ordered us_last (map fst h) d" and wf: "dict_wf d"
    and counts: "\<forall>k. map_of h k = map_option us_count (dict_get d k)"
  shows "lfu_evict_candidate p = map_option fst (find (\<lambda>p. \<forall>q \<in> set d. evict_before ''lfu'' (snd p) (snd q)) d)"
proof (cases h)
  case Nil
  then have "d = []" using o by (simp add: ordered_def)
  then show ?thesis using Nil abs by (simp add: lfu_candidate_abs spec_candidate_def)
next
  case (Cons q h')
  let ?P = "\<lambda>p. \<forall>q \<in> set h. snd p \<le> snd q"
  have "spec_candidate h \<noteq> None" using spec_candidate_least [of h] Cons by auto
  then obtain x where x: "find ?P h = Some x" using Cons by (auto simp: spec_candidate_def split: if_splits)
  then obtain n where n: "n < length h" "h ! n = x" "?P x" "\<And>m. m < n \<Longrightarrow> \<not> ?P (h ! m)"
    by (auto simp: find_Some_iff)
  have "x \<in> set h" using n by auto
  then have "map_of h (fst x) = Some (snd x)" using lfu_absD(1) [OF abs] by simp
  then obtain u where u: "dict_get d (fst x) = Some u" "us_count u = snd x" using counts by auto
  have better: "snd x < us_count v \<or> snd x = us_count v \<and> us_last u < us_last v" if "(a, v) \<in> set d" "a \<noteq> fst x" for a v
  proof -
    have av: "dict_get d a = Some v" using that(1) wf by simp
    then have c: "map_of h a = Some (us_count v)" using counts by simp
    then obtain m where m: "m < length h" "h ! m = (a, us_count v)" by (metis in_set_conv_nth map_of_SomeD)
    have le: "snd x \<le> us_count v" using n(3) m by (metis nth_mem snd_conv)
    show ?thesis
    proof (cases "snd x = us_count v")
      case True
      then have "?P (h ! m)" using n(3) m by simp
      then have "n < m" using n(2,4) m(2) that(2) by (metis fst_conv linorder_neqE_nat)
      then have "us_last (the (dict_get d (map fst h ! n))) < us_last (the (dict_get d (map fst h ! m)))"
        using o m(1) by (simp add: ordered_def sorted_wrt_iff_nth_less)
      then show ?thesis using True u av m n(1,2) by simp
    qed (use le in simp)
  qed
  have "find (\<lambda>p. \<forall>q \<in> set d. evict_before ''lfu'' (snd p) (snd q)) d = Some (fst x, u)"
  proof (rule find_unique)
    show "(fst x, u) \<in> set d" using u(1) by (rule map_of_SomeD)
    have "evict_before ''lfu'' u v" if "(a, v) \<in> set d" for a v
    proof (cases "a = fst x")
      case True
      then have "v = u" using that wf u(1) by (metis dict_mem_get option.inject)
      then show ?thesis by (simp add: evict_before_def)
    next
      case False
      then show ?thesis using better [OF that False] u(2) by (auto simp: evict_before_def)
    qed
    then show "\<forall>q \<in> set d. evict_before ''lfu'' (snd (fst x, u)) (snd q)" by auto
    fix y
    assume y: "y \<in> set d" "\<forall>q \<in> set d. evict_before ''lfu'' (snd y) (snd q)"
    then have "evict_before ''lfu'' (snd y) u" using map_of_SomeD [OF u(1)] by fastforce
    then have "\<not> (snd x < us_count (snd y) \<or> snd x = us_count (snd y) \<and> us_last u < us_last (snd y))"
      using u(2) by (rule lfu_before_strict)
    then have "fst y = fst x" using better [of "fst y" "snd y"] y(1) by (metis prod.collapse)
    moreover have "dict_get d (fst y) = Some (snd y)" using y(1) wf by simp
    ultimately show "y = (fst x, u)" using u by (cases y) simp
  qed
  moreover have "spec_candidate h = Some (fst x)" using x Cons by (simp add: spec_candidate_def)
  ultimately show ?thesis using abs by (simp add: lfu_candidate_abs)
qed

lemma policy_victim:
  assumes "policy_abs p H" and "history_ok H"
  shows "policy_evict_candidate p = ref_victim (policy_name p) H"
proof -
  have wf: "dict_wf (hi_uses H)" using assms(2) by (simp add: history_ok_def)
  show ?thesis
  proof (cases p)
    case (FIFOPolicy ks)
    then show ?thesis
      using assms ordered_victim [OF _ wf, of us_first ks "evict_before ''fifo''"]
      by (simp add: fifo_evict_candidate_def ref_victim_def evict_before_def)
  next
    case (LRUPolicy ks)
    then show ?thesis
      using assms ordered_victim [OF _ wf, of us_last ks "evict_before ''lru''"]
      by (simp add: lru_evict_candidate_def ref_victim_def evict_before_def)
  next
    case (LFUPolicy q)
    then show ?thesis using assms lfu_victim [OF _ _ wf] by (auto simp: ref_victim_def)
  qed
qed

lemma policy_run_refines:
  "policy_abs p H \<Longrightarrow> history_ok H \<Longrightarrow>
     policy_abs (fold policy_event es p) (fold ref_event es H) \<and> history_ok (fold ref_event es H) \<and>
     policy_name (fold policy_event es p) = policy_name p"
proof (induction es arbitrary: p H)
  case (Cons e es)
  have "policy_name (policy_event e p) = policy_name p" by (cases e; cases p) simp_all
  with Cons.IH [OF policy_refines [OF Cons.prems] history_ok_step [OF Cons.prems(2)]] show ?case by simp
qed simp

lemma policy_starts_empty:
  fixes p :: "'k policy"
  assumes "make_policy name = Inr p"
  shows "policy_abs p history_init" and "history_ok (history_init :: 'k history)" and "policy_name p = str_lower name"
  using assms lfu_abs_init
  by (auto simp: make_policy_def history_init_def history_ok_def Let_def intro!: exI [of _ "[]"] split: if_splits)

text \<open>
  C6: Each of the three eviction policies picks exactly the victim its definition asks
  for. After any sequence of gets, puts, deletes and clears, the candidate of the
  constant-time implementation is the one an exhaustive search of the access history
  finds: for FIFO the key inserted first, for LRU the key whose last access is
  earliest, for LFU the key accessed least often, the least recently used among equals.
\<close>

theorem policy_candidate_refines_history:
  fixes p :: "'k policy"
  assumes "make_policy name = Inr p"
  shows "policy_evict_candidate (fold policy_event es p) =
    ref_victim (str_lower name) (fold ref_event es history_init)"
proof -
  note I = policy_starts_empty [OF assms]
  have R: "policy_abs (fold policy_event es p) (fold ref_event es history_init)"
      "history_ok (fold ref_event es history_init)" "policy_name (fold policy_event es p) = policy_name p"
    using policy_run_refines [OF I(1,2), of es] by simp_all
  show ?thesis using policy_victim [OF R(1,2)] R(3) I(3) by simp
qed

theorem policy_candidate_refines_history_witness:
  "policy_evict_candidate (fold policy_event [EvPut 1, EvPut 2, EvGet 1, EvPut (3::nat), EvDelete 3] (LFUPolicy lfu_init)) = Some 2"
proof -
  have p: "make_policy ''LFU'' = Inr (LFUPolicy lfu_init :: nat policy)" by code_simp
  have "ref_victim (str_lower ''LFU'')
      (fold ref_event [EvPut 1, EvPut 2, EvGet 1, EvPut (3::nat), EvDelete 3] history_init) = Some 2"
    by code_simp
  with policy_candidate_refines_history [OF p] show ?thesis by metis
qed

end
