(* ===== verification/Reference_Cache.thy ===== *)
theory Reference_Cache
  imports Cache_Only Policy_Reference
begin

text \<open>
  What a cache-only cache promises, without its data structures: a reference that keeps for each shard the
  stored values with their deadlines and the history of accesses, and evicts what an
  exhaustive search of the history names. The cache of the sources answers every
  sequence of operations exactly as the reference does.
\<close>

section \<open>The reference\<close>

record ('k, 'v) ref_shard =
  rs_room :: nat
  rs_items :: "'k \<Rightarrow> ('v \<times> time option) option"
  rs_history :: "'k history"

record ('k, 'v) ref_cache =
  rc_policy :: string
  rc_default_ttl :: "time option"
  rc_now :: time
  rc_shards :: "('k, 'v) ref_shard list"

definition ref_drop :: "'k \<Rightarrow> ('k, 'v) ref_shard \<Rightarrow> ('k, 'v) ref_shard" where
  "ref_drop k s = s\<lparr>rs_items := (rs_items s)(k := None), rs_history := ref_event (EvDelete k) (rs_history s)\<rparr>"

definition passed :: "time \<Rightarrow> time option \<Rightarrow> bool" where
  "passed now deadline = (case deadline of None \<Rightarrow> False | Some t \<Rightarrow> t \<le> now)"

text \<open>An expired item is removed when its key is looked at.\<close>

definition ref_look :: "time \<Rightarrow> 'k \<Rightarrow> ('k, 'v) ref_shard \<Rightarrow> ('k, 'v) ref_shard" where
  "ref_look now k s =
     (case rs_items s k of Some (v, deadline) \<Rightarrow> if passed now deadline then ref_drop k s else s | None \<Rightarrow> s)"

definition ref_get :: "time \<Rightarrow> 'k \<Rightarrow> ('k, 'v) ref_shard \<Rightarrow> 'v option \<times> ('k, 'v) ref_shard" where
  "ref_get now k s =
     (let s1 = ref_look now k s
      in (map_option fst (rs_items s1 k), s1\<lparr>rs_history := ref_event (EvGet k) (rs_history s1)\<rparr>))"

definition ref_contains :: "time \<Rightarrow> 'k \<Rightarrow> ('k, 'v) ref_shard \<Rightarrow> bool \<times> ('k, 'v) ref_shard" where
  "ref_contains now k s = (let s1 = ref_look now k s in (rs_items s1 k \<noteq> None, s1))"

text \<open>A put without a TTL keeps the deadline of a live item; a new item gets the default, where a default of 0
  means no expiry.\<close>

definition default_lifetime :: "time option \<Rightarrow> time option" where
  "default_lifetime d = (if d = Some 0 then None else d)"

definition ref_deadline :: "time option \<Rightarrow> time \<Rightarrow> ttl_arg \<Rightarrow> ('v \<times> time option) option \<Rightarrow> time option" where
  "ref_deadline default_ttl now ttl item =
     (case ttl of
        TTL_NONE \<Rightarrow> None
      | TTL_SECONDS t \<Rightarrow> Some (now + t)
      | TTL_UNSET \<Rightarrow> (case item of Some (v, deadline) \<Rightarrow> deadline | None \<Rightarrow> map_option (\<lambda>t. now + t) (default_lifetime default_ttl)))"

definition ref_evict :: "string \<Rightarrow> ('k, 'v) ref_shard \<Rightarrow> ('k, 'v) ref_shard" where
  "ref_evict name s =
     (if rs_room s < length (hi_uses (rs_history s))
      then (case ref_victim name (rs_history s) of Some victim \<Rightarrow> ref_drop victim s | None \<Rightarrow> s) else s)"

definition ref_put ::
  "string \<Rightarrow> time option \<Rightarrow> time \<Rightarrow> 'k \<Rightarrow> 'v \<Rightarrow> ttl_arg \<Rightarrow> ('k, 'v) ref_shard \<Rightarrow> ('k, 'v) ref_shard" where
  "ref_put name default_ttl now k v ttl s =
     (let s1 = ref_look now k s
      in ref_evict name (s1\<lparr>rs_items := (rs_items s1)(k \<mapsto> (v, ref_deadline default_ttl now ttl (rs_items s1 k))),
                            rs_history := ref_event (EvPut k) (rs_history s1)\<rparr>))"

definition ref_delete :: "'k \<Rightarrow> ('k, 'v) ref_shard \<Rightarrow> bool \<times> ('k, 'v) ref_shard" where
  "ref_delete k s = (rs_items s k \<noteq> None, ref_drop k s)"

definition ref_clear :: "('k, 'v) ref_shard \<Rightarrow> ('k, 'v) ref_shard" where
  "ref_clear s = s\<lparr>rs_items := (\<lambda>k. None), rs_history := ref_event EvClear (rs_history s)\<rparr>"

text \<open>A sweep drops every item whose deadline has passed and counts them.\<close>

definition ref_due :: "time \<Rightarrow> ('k, 'v) ref_shard \<Rightarrow> 'k \<Rightarrow> bool" where
  "ref_due now s k = (case rs_items s k of Some (v, deadline) \<Rightarrow> passed now deadline | None \<Rightarrow> False)"

definition ref_sweep :: "time \<Rightarrow> ('k, 'v) ref_shard \<Rightarrow> nat \<times> ('k, 'v) ref_shard" where
  "ref_sweep now s =
     (length (filter (\<lambda>p. ref_due now s (fst p)) (hi_uses (rs_history s))),
      s\<lparr>rs_items := (\<lambda>k. if ref_due now s k then None else rs_items s k),
        rs_history := (rs_history s)\<lparr>hi_uses := filter (\<lambda>p. \<not> ref_due now s (fst p)) (hi_uses (rs_history s))\<rparr>\<rparr>)"

definition ref_size :: "('k, 'v) ref_shard \<Rightarrow> nat" where
  "ref_size s = length (hi_uses (rs_history s))"

section \<open>Simulation of a shard\<close>

definition item_of_entry :: "('k, 'v) cache_entry \<Rightarrow> 'v \<times> time option" where
  "item_of_entry e = (ce_value e, ce_expires_at e)"

definition shard_sim :: "string \<Rightarrow> ('k, 'v) shard \<Rightarrow> ('k, 'v) ref_shard \<Rightarrow> bool" where
  "shard_sim nm sh s \<longleftrightarrow> policy_name (sh_policy sh) = nm \<and> rs_room s = sh_capacity sh \<and>
     (\<forall>k. rs_items s k = map_option item_of_entry (dict_get (sh_backend sh) k)) \<and>
     policy_abs (sh_policy sh) (rs_history s) \<and> history_ok (rs_history s)"

lemma policy_event_name [simp]: "policy_name (policy_event e p) = policy_name p"
  by (cases e; cases p) simp_all

lemmas policy_op_names [simp] = policy_event_name [of "EvGet k" for k, simplified policy_event.simps]
  policy_event_name [of "EvPut k" for k, simplified policy_event.simps]
  policy_event_name [of "EvDelete k" for k, simplified policy_event.simps]
  policy_event_name [of EvClear, simplified policy_event.simps]

lemma policy_abs_keys:
  assumes "policy_abs p H"
  shows "fst ` set (hi_uses H) = policy_tracked p"
proof (cases p)
  case (LFUPolicy q)
  with assms obtain l where l: "lfu_abs q l" "ordered us_last (map fst l) (hi_uses H)" by auto
  have "fst ` set (lfu_key_to_freq q) = fst ` set l"
    using lfu_absD(5) [OF l(1)] by (metis dom_map_of_conv_image_fst)
  with l(2) LFUPolicy show ?thesis by (simp add: ordered_def lfu_tracked_def)
qed (use assms in \<open>simp_all add: ordered_def\<close>)

lemma shard_sim_size:
  assumes "shard_sim nm sh s" and "shard_core sh"
  shows "length (hi_uses (rs_history s)) = mem_size (sh_backend sh)"
proof -
  have "fst ` set (hi_uses (rs_history s)) = sh_live sh" "dict_wf (hi_uses (rs_history s))" "dict_wf (sh_backend sh)"
    using assms policy_abs_keys [of "sh_policy sh" "rs_history s"] by (simp_all add: shard_sim_def core_defs mem_inv_def history_ok_def)
  then show ?thesis by (simp add: mem_size_def dict_length_keys)
qed

lemma shard_sim_drop:
  assumes "shard_sim nm sh s"
  shows "shard_sim nm (snd (remove_entry_locked k reason sh)) (ref_drop k s)"
  using assms policy_refines [of "sh_policy sh" "rs_history s" "EvDelete k"] history_ok_step [of "rs_history s" "EvDelete k"]
  by (auto simp: shard_sim_def ref_drop_def)

lemma shard_sim_stats: "shard_sim nm (sh\<lparr>sh_stats := x\<rparr>) s = shard_sim nm sh s"
  by (simp add: shard_sim_def)

lemma shard_sim_flights: "shard_sim nm (sh\<lparr>sh_singleflight := x\<rparr>) s = shard_sim nm sh s"
  by (simp add: shard_sim_def)

lemma shard_sim_item:
  "shard_sim nm sh s \<Longrightarrow> rs_items s k = map_option item_of_entry (dict_get (sh_backend sh) k)"
  by (simp add: shard_sim_def)

lemma unknown_get:
  assumes "shard_sim nm sh s" and "shard_core sh" and "dict_get (sh_backend sh) k = None"
  shows "ref_event (EvGet k) (rs_history s) = rs_history s"
proof -
  have "fst ` set (hi_uses (rs_history s)) = sh_live sh"
    using assms(1,2) policy_abs_keys [of "sh_policy sh" "rs_history s"] by (simp add: shard_sim_def core_defs)
  then have "dict_get (hi_uses (rs_history s)) k = None" using assms(3) by (simp add: dict_get_None)
  then show ?thesis by simp
qed

lemma passed_expired: "passed now (ce_expires_at e) = is_expired now e"
  by (simp add: passed_def is_expired_def)

text \<open>Lazy expiry: the shard after it, and the entry that is left.\<close>

definition lazy_expire :: "time \<Rightarrow> 'k \<Rightarrow> ('k, 'v) shard \<Rightarrow> ('k, 'v) shard" where
  "lazy_expire now k sh = snd (put_existing now k sh)"

lemma sim_look:
  assumes sim: "shard_sim nm sh s"
  shows "shard_sim nm (lazy_expire now k sh) (ref_look now k s)"
    and "fst (put_existing now k sh) = dict_get (sh_backend (lazy_expire now k sh)) k"
proof -
  show "shard_sim nm (lazy_expire now k sh) (ref_look now k s)"
    using sim shard_sim_drop [OF sim] shard_sim_item [OF sim, of k]
    by (auto simp: lazy_expire_def put_existing_def mem_get_entry_def ref_look_def item_of_entry_def passed_expired split: option.splits)
  show "fst (put_existing now k sh) = dict_get (sh_backend (lazy_expire now k sh)) k"
    by (auto simp: lazy_expire_def put_existing_def mem_get_entry_def split: option.splits)
qed

lemma sim_read:
  assumes inv: "shard_inv sh" and sim: "shard_sim nm sh s"
  shows "fst (read_value_locked do_touch counted now k sh) = map_option fst (rs_items (ref_look now k s) k)"
    and "shard_sim nm (snd (read_value_locked True counted now k sh)) (snd (ref_get now k s))"
    and "shard_sim nm (snd (read_value_locked False counted now k sh)) (ref_look now k s)"
proof -
  let ?sh1 = "lazy_expire now k sh" and ?s1 = "ref_look now k s"
  note L = sim_look [OF sim, of now k]
  have inv1: "shard_inv ?sh1" using inv_put_existing [OF inv] by (simp add: lazy_expire_def)
  have item: "rs_items ?s1 k = map_option item_of_entry (fst (put_existing now k sh))" using shard_sim_item [OF L(1), of k] L(2) by simp
  show "fst (read_value_locked do_touch counted now k sh) = map_option fst (rs_items ?s1 k)"
    unfolding item by (auto simp: read_value_locked_def put_existing_def mem_get_entry_def item_of_entry_def Let_def split: option.splits)
  have unchanged: "sh_backend (snd (read_value_locked False counted now k sh)) = sh_backend ?sh1"
    "sh_policy (snd (read_value_locked False counted now k sh)) = sh_policy ?sh1"
    "sh_capacity (snd (read_value_locked False counted now k sh)) = sh_capacity ?sh1"
    by (auto simp: read_value_locked_def lazy_expire_def put_existing_def mem_get_entry_def Let_def split: option.splits)
  then show "shard_sim nm (snd (read_value_locked False counted now k sh)) ?s1" using L(1) by (simp add: shard_sim_def)
  show "shard_sim nm (snd (read_value_locked True counted now k sh)) (snd (ref_get now k s))"
  proof (cases "fst (put_existing now k sh)")
    case None
    then have "snd (read_value_locked True counted now k sh) = snd (read_value_locked False counted now k sh)"
      by (auto simp: read_value_locked_def put_existing_def mem_get_entry_def Let_def split: option.splits if_splits)
    moreover have "ref_event (EvGet k) (rs_history ?s1) = rs_history ?s1"
      using unknown_get [OF L(1)] inv1 L(2) None by (simp add: shard_inv_def)
    ultimately show ?thesis using unchanged L(1) by (simp add: ref_get_def Let_def shard_sim_def)
  next
    case (Some e)
    then have e: "dict_get (sh_backend sh) k = Some e" "\<not> is_expired now e" "?sh1 = sh"
      by (auto simp: put_existing_def mem_get_entry_def lazy_expire_def split: option.splits if_splits)
    have key: "ce_key e = k" by (rule inv_entry_key [OF inv e(1)])
    have "policy_abs (policy_on_get k (sh_policy sh)) (ref_event (EvGet k) (rs_history ?s1))" "history_ok (ref_event (EvGet k) (rs_history ?s1))"
      using L(1) e(3) policy_refines [of "sh_policy sh" "rs_history ?s1" "EvGet k"] history_ok_step [of "rs_history ?s1" "EvGet k"]
      by (simp_all add: shard_sim_def del: ref_event.simps)
    then show ?thesis
      using e key L(1) by (auto simp: read_value_locked_def mem_get_entry_def mem_put_entry_def ref_get_def Let_def shard_sim_def
          item_of_entry_def simp del: ref_event.simps)
  qed
qed

lemma sim_evict:
  assumes core: "shard_core sh" and sim: "shard_sim nm sh s" and size: "mem_size (sh_backend sh) \<le> Suc (sh_capacity sh)"
  shows "shard_sim nm (enforce_capacity_locked sh) (ref_evict nm s)"
proof (cases "mem_size (sh_backend sh) \<le> sh_capacity sh")
  case True
  then show ?thesis
    using sim shard_sim_size [OF sim core] by (simp add: enforce_within_capacity ref_evict_def shard_sim_def)
next
  case False
  with size have full: "mem_size (sh_backend sh) = Suc (sh_capacity sh)" by simp
  have pi: "policy_inv (sh_policy sh)" and tr: "policy_tracked (sh_policy sh) = sh_live sh" using core by (simp_all add: core_defs)
  have "sh_live sh \<noteq> {}" using full by (auto simp: mem_size_def)
  then obtain c where c: "policy_evict_candidate (sh_policy sh) = Some c"
    using pol.candidate_exists [OF pi] tr by (cases "policy_evict_candidate (sh_policy sh)") auto
  then have "ref_victim nm (rs_history s) = Some c"
    using policy_victim [of "sh_policy sh" "rs_history s"] sim by (simp add: shard_sim_def)
  moreover have "rs_room s < length (hi_uses (rs_history s))"
    using shard_sim_size [OF sim core] full sim by (simp add: shard_sim_def)
  ultimately show ?thesis using enforce_once [OF core full c] shard_sim_drop [OF sim] by (simp add: ref_evict_def)
qed

lemma deadline_resolved:
  assumes "validate_explicit_ttl ttl = None" and "\<forall>t. d = Some t \<longrightarrow> 0 \<le> t"
  shows "snd (resolve_ttl d ex ttl now) = ref_deadline d now ttl (map_option item_of_entry ex)"
  using assms by (auto simp: resolve_ttl_def ref_deadline_def default_lifetime_def validate_explicit_ttl_def item_of_entry_def Let_def
      split: ttl_arg.splits option.splits)

lemma sim_put_shard:
  assumes inv: "shard_inv sh" and sim: "shard_sim nm sh s" and ok: "validate_explicit_ttl ttl = None" and d: "\<forall>t. d = Some t \<longrightarrow> 0 \<le> t"
    and pe: "put_existing now k sh = (ex, sh0)"
  shows "shard_sim nm (enforce_capacity_locked (put_insert (put_entry_of mode d now k v ttl ex sh0) sh0))
    (ref_put nm d now k v ttl s)"
proof -
  let ?e = "put_entry_of mode d now k v ttl ex sh0" and ?s1 = "ref_look now k s"
  let ?sh1 = "put_insert ?e sh0"
  let ?s2 = "?s1\<lparr>rs_items := (rs_items ?s1)(k \<mapsto> (v, ref_deadline d now ttl (rs_items ?s1 k))),
                 rs_history := ref_event (EvPut k) (rs_history ?s1)\<rparr>"
  have sh0: "sh0 = lazy_expire now k sh" and ex: "ex = dict_get (sh_backend sh0) k"
    using pe sim_look(2) [OF sim, of now k] by (simp_all add: lazy_expire_def)
  note L = sim_look(1) [OF sim, of now k, folded sh0]
  have inv0: "shard_inv sh0" using inv_put_existing [OF inv, of now k] pe by simp
  have core: "shard_core ?sh1" using inv0 by (simp add: shard_inv_def put_insert_core)
  have item: "rs_items ?s1 k = map_option item_of_entry ex" using shard_sim_item [OF L, of k] ex by simp
  have "policy_abs (policy_on_put k (sh_policy sh0)) (ref_event (EvPut k) (rs_history ?s1))" "history_ok (ref_event (EvPut k) (rs_history ?s1))"
    using L policy_refines [of "sh_policy sh0" "rs_history ?s1" "EvPut k"] history_ok_step [of "rs_history ?s1" "EvPut k"]
    by (simp_all add: shard_sim_def del: ref_event.simps)
  then have sim1: "shard_sim nm ?sh1 ?s2"
    using L ex by (auto simp: shard_sim_def put_insert_def mem_put_entry_def item_of_entry_def put_entry_of_def item
        deadline_resolved [OF ok d] simp del: ref_event.simps)
  have size: "mem_size (sh_backend ?sh1) \<le> Suc (sh_capacity ?sh1)"
    using inv0 by (simp add: shard_inv_def put_insert_def mem_put_entry_def mem_size_def dict_length_set)
  from sim_evict [OF core sim1 size] show ?thesis unfolding ref_put_def Let_def .
qed

lemma sim_delete_entry: "shard_sim nm sh s \<Longrightarrow> shard_sim nm (snd (delete_entry_locked k sh)) (ref_drop k s)"
  using shard_sim_drop [of nm sh s k "''delete''"]
  by (cases "remove_entry_locked k ''delete'' sh") (simp add: delete_entry_locked_def shard_sim_stats)

lemma sim_delete:
  assumes sim: "shard_sim nm sh s" and d: "delete_locked CACHE_ONLY n k src sh = (r, src', sh')"
  shows "r = Inr (fst (ref_delete k s), None)" and "shard_sim nm sh' (snd (ref_delete k s))"
proof -
  show "r = Inr (fst (ref_delete k s), None)"
    using d shard_sim_item [OF sim, of k]
    by (auto simp: delete_locked_def delete_entry_locked_def remove_entry_locked_def mem_delete_entry_def
        ref_delete_def Let_def dict_get_None split: prod.splits)
  have "sh' = (snd (delete_entry_locked k sh))\<lparr>sh_singleflight := sh_singleflight sh'\<rparr>"
    using d by (auto simp: delete_locked_def case_prod_beta)
  then have "shard_sim nm sh' (ref_drop k s) = shard_sim nm (snd (delete_entry_locked k sh)) (ref_drop k s)"
    by (metis shard_sim_flights)
  then show "shard_sim nm sh' (snd (ref_delete k s))" using sim_delete_entry [OF sim] by (simp add: ref_delete_def)
qed

section \<open>Dropping several keys\<close>

lemma drop_keys:
  "fold ref_drop ks s =
     s\<lparr>rs_items := (\<lambda>k. if k \<in> set ks then None else rs_items s k),
       rs_history := (rs_history s)\<lparr>hi_uses := filter (\<lambda>p. fst p \<notin> set ks) (hi_uses (rs_history s))\<rparr>\<rparr>"
proof (induction ks arbitrary: s)
  case (Cons k ks)
  have "filter (\<lambda>p. fst p \<notin> set ks) (dict_pop k d) = filter (\<lambda>p. fst p \<notin> set (k # ks)) d" for d :: "('a, use) dict"
    by (auto simp: AList.delete_eq case_prod_beta intro!: filter_cong)
  then show ?case by (simp only: fold_Cons comp_apply Cons.IH) (simp add: ref_drop_def fun_eq_iff)
qed simp

lemma sim_expire_keys:
  "shard_sim nm sh s \<Longrightarrow> shard_sim nm (snd (expire_keys_locked ks sh n)) (fold ref_drop ks s)"
  by (induction ks arbitrary: sh s n) (auto simp: case_prod_beta shard_sim_drop)

lemma expire_keys_count:
  "distinct ks \<Longrightarrow> set ks \<subseteq> sh_live sh \<Longrightarrow> fst (expire_keys_locked ks sh n) = n + length ks"
proof (induction ks arbitrary: sh n)
  case (Cons k ks)
  then have "fst (remove_entry_locked k ''expire'' sh)" and "set ks \<subseteq> sh_live (snd (remove_entry_locked k ''expire'' sh))" by auto
  with Cons show ?case by (simp add: case_prod_beta del: remove_fields)
qed simp

lemma expired_keys_due:
  assumes inv: "shard_inv sh" and sim: "shard_sim nm sh s"
  shows "set (expired_keys (mem_entries (sh_backend sh)) now) = {k. ref_due now s k}"
    and "distinct (expired_keys (mem_entries (sh_backend sh)) now)"
    and "{k. ref_due now s k} \<subseteq> sh_live sh"
proof -
  have mi: "mem_inv (sh_backend sh)" using inv by (simp add: shard_inv_def core_defs)
  have due: "ref_due now s k \<longleftrightarrow> (\<exists>e. dict_get (sh_backend sh) k = Some e \<and> is_expired now e)" for k
    using shard_sim_item [OF sim, of k] by (auto simp: ref_due_def item_of_entry_def passed_expired split: option.splits)
  show "set (expired_keys (mem_entries (sh_backend sh)) now) = {k. ref_due now s k}"
    using mi inv_entry_key [OF inv] by (force simp: due expired_keys_def mem_entries_def mem_inv_def dict_mem_get [symmetric])
  have "map ce_key (mem_entries (sh_backend sh)) = map fst (sh_backend sh)"
    using mi by (force simp: mem_entries_def mem_inv_def)
  then show "distinct (expired_keys (mem_entries (sh_backend sh)) now)"
    unfolding expired_keys_def using mi by (metis distinct_map_filter mem_inv_def)
  show "{k. ref_due now s k} \<subseteq> sh_live sh" by (auto simp: due dest: dict_get_in_keys)
qed

lemma sim_sweep:
  assumes inv: "shard_inv sh" and sim: "shard_sim nm sh s"
  shows "fst (expire_shard_locked now sh) = fst (ref_sweep now s)"
    and "shard_sim nm (snd (expire_shard_locked now sh)) (snd (ref_sweep now s))"
proof -
  let ?ks = "expired_keys (mem_entries (sh_backend sh)) now" and ?H = "rs_history s"
  note D = expired_keys_due [OF inv sim, of now]
  show "shard_sim nm (snd (expire_shard_locked now sh)) (snd (ref_sweep now s))"
    unfolding expire_shard_locked_def using sim_expire_keys [OF sim, of ?ks 0] by (simp add: drop_keys D(1) ref_sweep_def)
  have "fst ` set (hi_uses ?H) = sh_live sh" "dict_wf (hi_uses ?H)"
    using sim inv policy_abs_keys [of "sh_policy sh" ?H] by (simp_all add: shard_sim_def shard_inv_def core_defs history_ok_def)
  then have "set (map fst (filter (\<lambda>p. ref_due now s (fst p)) (hi_uses ?H))) = {k. ref_due now s k}"
    and "distinct (map fst (filter (\<lambda>p. ref_due now s (fst p)) (hi_uses ?H)))"
    using D(3) by (force simp: distinct_map_filter)+
  then have "length (map fst (filter (\<lambda>p. ref_due now s (fst p)) (hi_uses ?H))) = length ?ks"
    using D(1,2) distinct_card by metis
  then show "fst (expire_shard_locked now sh) = fst (ref_sweep now s)"
    unfolding expire_shard_locked_def using expire_keys_count [OF D(2), of sh 0] D by (simp add: ref_sweep_def)
qed

lemma sim_clear:
  assumes inv: "shard_inv sh" and sim: "shard_sim nm sh s" and c: "clear_locked CACHE_ONLY n js src sh = (r, src', sh')"
  shows "r = Inr js" and "src' = src" and "shard_sim nm sh' (ref_clear s)"
proof -
  let ?ks = "mem_keys (sh_backend sh)"
  have keys: "\<exists>sh1. clear_keys_locked CACHE_ONLY n ks js src sh0 = (Inr js, src, sh1) \<and> shard_sim nm sh1 (fold ref_drop ks s0)"
    if "shard_sim nm sh0 s0" for ks sh0 s0
    using that by (induction ks arbitrary: sh0 s0) (auto simp: sim_delete_entry)
  from keys [OF sim, of ?ks] obtain sh1 where k1: "clear_keys_locked CACHE_ONLY n ?ks js src sh = (Inr js, src, sh1)"
    and sim1: "shard_sim nm sh1 (fold ref_drop ?ks s)" by blast
  show "r = Inr js" and "src' = src" using c k1 by (auto simp: clear_locked_def)
  have sh': "sh' = sh1\<lparr>sh_policy := policy_clear (sh_policy sh1), sh_singleflight := []\<rparr>" using c k1 by (simp add: clear_locked_def)
  have empty: "sh_backend sh1 = []" using clear_keys_inv(2) [OF inv k1] by (simp add: mem_keys_def)
  show "shard_sim nm sh' (ref_clear s)"
    using sim1 policy_refines [of "sh_policy sh1" "rs_history (fold ref_drop ?ks s)" EvClear]
      history_ok_step [of "rs_history (fold ref_drop ?ks s)" EvClear]
    by (simp add: sh' shard_sim_def empty ref_clear_def drop_keys)
qed

section \<open>A client of the cache\<close>

datatype ('k, 'v) client_op =
  OpGet 'k "'v option" | OpContains 'k | OpPut 'k 'v ttl_arg | OpDelete 'k | OpClear | OpSize | OpExpireAll | OpWait time

datatype 'v answer = Value "'v option" | Flag bool | Count nat | Completed | Failed cache_error

definition answer_of :: "('a \<Rightarrow> 'v answer) \<Rightarrow> (cache_error + 'a) \<times> 's \<Rightarrow> 'v answer \<times> 's" where
  "answer_of f = map_prod (case_sum Failed f) id"

text \<open>Each operation on the model of the cache, and on the reference.\<close>

fun perform :: "('k \<Rightarrow> nat) \<Rightarrow> ('k, 'v) client_op \<Rightarrow> ('k, 'v) cache \<Rightarrow> 'v answer \<times> ('k, 'v) cache" where
  "perform h (OpGet k d) c = answer_of Value (cache_get h k d c)"
| "perform h (OpContains k) c = answer_of Flag (cache_contains h k c)"
| "perform h (OpPut k v ttl) c = answer_of (\<lambda>u. Completed) (cache_put h k v ttl c)"
| "perform h (OpDelete k) c = answer_of Flag (cache_delete h k c)"
| "perform h OpClear c = answer_of (\<lambda>u. Completed) (cache_clear c)"
| "perform h OpSize c = answer_of Count (cache_size c)"
| "perform h OpExpireAll c = answer_of Count (cache_expire_all c)"
| "perform h (OpWait t) c =
     answer_of (\<lambda>u. Completed) (map_prod id (\<lambda>clock. c\<lparr>c_clock := clock\<rparr>) (clock_advance t (c_clock c)))"

definition ref_at ::
  "('k \<Rightarrow> nat) \<Rightarrow> 'k \<Rightarrow> (('k, 'v) ref_shard \<Rightarrow> 'v answer \<times> ('k, 'v) ref_shard) \<Rightarrow> ('k, 'v) ref_cache \<Rightarrow>
     'v answer \<times> ('k, 'v) ref_cache" where
  "ref_at h k f r =
     (let i = h k mod length (rc_shards r)
      in case f (rc_shards r ! i) of (a, s) \<Rightarrow> (a, r\<lparr>rc_shards := (rc_shards r)[i := s]\<rparr>))"

fun ref_step :: "('k \<Rightarrow> nat) \<Rightarrow> ('k, 'v) client_op \<Rightarrow> ('k, 'v) ref_cache \<Rightarrow> 'v answer \<times> ('k, 'v) ref_cache" where
  "ref_step h (OpGet k d) r =
     ref_at h k (map_prod (\<lambda>found. Value (case found of Some v \<Rightarrow> Some v | None \<Rightarrow> d)) id \<circ> ref_get (rc_now r) k) r"
| "ref_step h (OpContains k) r = ref_at h k (map_prod Flag id \<circ> ref_contains (rc_now r) k) r"
| "ref_step h (OpPut k v ttl) r =
     (if (case ttl of TTL_SECONDS t \<Rightarrow> t \<le> 0 | _ \<Rightarrow> False) then (Failed ValidationError, r)
      else ref_at h k (\<lambda>s. (Completed, ref_put (rc_policy r) (rc_default_ttl r) (rc_now r) k v ttl s)) r)"
| "ref_step h (OpDelete k) r = ref_at h k (map_prod Flag id \<circ> ref_delete k) r"
| "ref_step h OpClear r = (Completed, r\<lparr>rc_shards := map ref_clear (rc_shards r)\<rparr>)"
| "ref_step h OpSize r = (Count (sum_list (map ref_size (rc_shards r))), r)"
| "ref_step h OpExpireAll r =
     (Count (sum_list (map (fst \<circ> ref_sweep (rc_now r)) (rc_shards r))),
      r\<lparr>rc_shards := map (snd \<circ> ref_sweep (rc_now r)) (rc_shards r)\<rparr>)"
| "ref_step h (OpWait t) r = (if t < 0 then (Failed ValueError, r) else (Completed, r\<lparr>rc_now := rc_now r + t\<rparr>))"

definition ref_init :: "cache_config \<Rightarrow> time \<Rightarrow> ('k, 'v) ref_cache" where
  "ref_init cfg now =
     \<lparr>rc_policy = str_lower (cfg_policy cfg), rc_default_ttl = cfg_default_ttl cfg, rc_now = now,
      rc_shards = map (\<lambda>room. \<lparr>rs_room = nat room, rs_items = (\<lambda>k. None), rs_history = history_init\<rparr>)
        (shard_capacities (cfg_capacity cfg) (cfg_shard_count cfg))\<rparr>"

fun trace :: "('o \<Rightarrow> 's \<Rightarrow> 'a \<times> 's) \<Rightarrow> 'o list \<Rightarrow> 's \<Rightarrow> 'a list" where
  "trace step [] s = []"
| "trace step (x # xs) s = (case step x s of (a, s1) \<Rightarrow> a # trace step xs s1)"

text \<open>Two systems that answer alike in related states, and stay related, answer every sequence alike.\<close>

locale simulation =
  fixes step :: "'o \<Rightarrow> 's \<Rightarrow> 'a \<times> 's"
    and reference :: "'o \<Rightarrow> 'r \<Rightarrow> 'a \<times> 'r"
    and sim :: "'s \<Rightarrow> 'r \<Rightarrow> bool"
  assumes answers: "sim s r \<Longrightarrow> fst (step x s) = fst (reference x r)"
    and kept: "sim s r \<Longrightarrow> sim (snd (step x s)) (snd (reference x r))"
begin

lemma same_trace: "sim s r \<Longrightarrow> trace step xs s = trace reference xs r"
proof (induction xs arbitrary: s r)
  case (Cons x xs)
  then show ?case using answers [of s r x] kept [of s r x] by (simp add: case_prod_beta)
qed simp

end

section \<open>Simulation of the cache\<close>

definition cache_sim :: "('k \<Rightarrow> nat) \<Rightarrow> ('k, 'v) cache \<Rightarrow> ('k, 'v) ref_cache \<Rightarrow> bool" where
  "cache_sim h c r \<longleftrightarrow> plain h c \<and> list_all2 (shard_sim (rc_policy r)) (c_shards c) (rc_shards r) \<and>
     rc_default_ttl r = cfg_default_ttl (c_config c) \<and> rc_now r = cache_now c"

lemma cache_sim_shard:
  assumes "cache_sim h c r"
  shows "h k mod length (rc_shards r) = shard_for h c k" and "shard_for h c k < length (c_shards c)"
    and "shard_inv (c_shards c ! shard_for h c k)"
    and "shard_sim (rc_policy r) (c_shards c ! shard_for h c k) (rc_shards r ! shard_for h c k)"
proof -
  have inv: "cache_inv h c" and all: "list_all2 (shard_sim (rc_policy r)) (c_shards c) (rc_shards r)"
    using assms by (simp_all add: cache_sim_def plain_def)
  show less: "shard_for h c k < length (c_shards c)" by (rule shard_for_less [OF inv])
  show "h k mod length (rc_shards r) = shard_for h c k" using list_all2_lengthD [OF all] by (simp add: shard_for_def)
  show "shard_inv (c_shards c ! shard_for h c k)" by (rule cache_inv_shard [OF inv less])
  show "shard_sim (rc_policy r) (c_shards c ! shard_for h c k) (rc_shards r ! shard_for h c k)"
    by (rule list_all2_nthD [OF all less])
qed

text \<open>A section on one shard that the reference follows.\<close>

lemma cache_sim_update:
  assumes sim: "cache_sim h c r" and inv: "cache_inv h c'" and frame: "same_frame c c'"
    and shards: "c_shards c' = (c_shards c)[shard_for h c k := sh']"
    and step: "shard_sim (rc_policy r) sh' (snd (f (rc_shards r ! shard_for h c k)))"
  shows "fst (ref_at h k f r) = fst (f (rc_shards r ! shard_for h c k))" and "cache_sim h c' (snd (ref_at h k f r))"
proof -
  note S = cache_sim_shard(1,2) [OF sim, of k]
  let ?s' = "snd (f (rc_shards r ! shard_for h c k))"
  have at: "ref_at h k f r = (fst (f (rc_shards r ! shard_for h c k)), r\<lparr>rc_shards := (rc_shards r)[shard_for h c k := ?s']\<rparr>)"
    by (simp add: ref_at_def S(1) Let_def case_prod_beta)
  then show "fst (ref_at h k f r) = fst (f (rc_shards r ! shard_for h c k))" by simp
  have "list_all2 (shard_sim (rc_policy r)) (c_shards c') ((rc_shards r)[shard_for h c k := ?s'])"
    unfolding shards using sim step by (intro list_all2_update_cong) (simp_all add: cache_sim_def)
  then show "cache_sim h c' (snd (ref_at h k f r))"
    using sim same_frame_plain [OF frame inv] same_frame_now [OF frame] frame
    by (simp add: at cache_sim_def same_frame_def)
qed

lemma sim_open: "cache_sim h c r \<Longrightarrow> unless_closed c body = body"
  using plain_open [of h c body] by (simp add: cache_sim_def)

lemma cache_sim_inv: "cache_sim h c r \<Longrightarrow> cache_inv h c"
  by (simp add: cache_sim_def plain_def)

text \<open>Both kinds of read.\<close>

lemma sim_read_section:
  assumes sim: "cache_sim h c r" and rd: "read_section h do_touch k c = (found, c')"
    and inv: "cache_inv h c'"
    and f: "\<And>s. f s = (g (map_option fst (rs_items (ref_look (rc_now r) k s) k)),
      if do_touch then snd (ref_get (rc_now r) k s) else ref_look (rc_now r) k s)"
  shows "fst (ref_at h k f r) = g found" and "cache_sim h c' (snd (ref_at h k f r))"
proof -
  let ?i = "shard_for h c k" and ?sh = "c_shards c ! shard_for h c k" and ?s = "rc_shards r ! shard_for h c k"
  note S = cache_sim_shard [OF sim, of k]
  have now: "rc_now r = cache_now c" using sim by (simp add: cache_sim_def)
  obtain sh' where r: "read_value_locked do_touch True (cache_now c) k ?sh = (found, sh')" and c': "c' = set_shard ?i sh' c"
    using rd by (auto simp: read_section_def on_shard_def split: prod.splits)
  have found: "map_option fst (rs_items (ref_look (rc_now r) k ?s) k) = found"
    using sim_read(1) [OF S(3,4), of do_touch True "cache_now c" k] r now by simp
  have step: "shard_sim (rc_policy r) sh' (if do_touch then snd (ref_get (rc_now r) k ?s) else ref_look (rc_now r) k ?s)"
    using sim_read(2,3) [OF S(3,4), of True "cache_now c" k] r now by (cases do_touch) simp_all
  then have cap: "sh_capacity sh' = sh_capacity ?sh"
    using r by (auto simp: read_value_locked_def Let_def split: option.splits if_splits)
  have frame: "same_frame c c'" unfolding c' by (rule set_shard_view(3) [OF S(2) cap])
  have shards: "c_shards c' = (c_shards c)[?i := sh']" by (simp add: c')
  note U = cache_sim_update [where f = f, OF sim inv frame shards]
  show "fst (ref_at h k f r) = g found" using U(1) step found by (simp add: f)
  show "cache_sim h c' (snd (ref_at h k f r))" using U(2) step by (simp add: f)
qed

lemma sim_get_op:
  assumes sim: "cache_sim h c r"
  shows "fst (perform h (OpGet k d) c) = fst (ref_step h (OpGet k d) r)"
    and "cache_sim h (snd (perform h (OpGet k d) c)) (snd (ref_step h (OpGet k d) r))"
proof -
  obtain found c' where rd: "read_section h True k c = (found, c')" by fastforce
  have get: "cache_get h k d c = (Inr (case found of Some v \<Rightarrow> Some v | None \<Rightarrow> d), c')"
    by (simp add: cache_get_def sim_open [OF sim] rd)
  have inv: "cache_inv h c'" using get_inv [OF cache_sim_inv [OF sim], of k d] get by simp
  note R = sim_read_section [OF sim rd inv, where g = "\<lambda>found. Value (case found of Some v \<Rightarrow> Some v | None \<Rightarrow> d)"
      and f = "map_prod (\<lambda>found. Value (case found of Some v \<Rightarrow> Some v | None \<Rightarrow> d)) id \<circ> ref_get (rc_now r) k"]
  show "fst (perform h (OpGet k d) c) = fst (ref_step h (OpGet k d) r)"
    using R(1) by (simp add: get answer_of_def ref_get_def Let_def)
  show "cache_sim h (snd (perform h (OpGet k d) c)) (snd (ref_step h (OpGet k d) r))"
    using R(2) by (simp add: get answer_of_def ref_get_def Let_def)
qed

lemma sim_contains:
  assumes sim: "cache_sim h c r"
  shows "fst (perform h (OpContains k) c) = fst (ref_step h (OpContains k) r)"
    and "cache_sim h (snd (perform h (OpContains k) c)) (snd (ref_step h (OpContains k) r))"
proof -
  obtain found c' where rd: "read_section h False k c = (found, c')" by fastforce
  have get: "cache_contains h k c = (Inr (found \<noteq> None), c')"
    by (simp add: cache_contains_def sim_open [OF sim] rd)
  have inv: "cache_inv h c'" using contains_inv [OF cache_sim_inv [OF sim], of k] get by simp
  note R = sim_read_section [OF sim rd inv, where g = "\<lambda>found. Flag (found \<noteq> None)"
      and f = "map_prod Flag id \<circ> ref_contains (rc_now r) k"]
  show "fst (perform h (OpContains k) c) = fst (ref_step h (OpContains k) r)"
    using R(1) by (simp add: get answer_of_def ref_contains_def Let_def)
  show "cache_sim h (snd (perform h (OpContains k) c)) (snd (ref_step h (OpContains k) r))"
    using R(2) by (simp add: get answer_of_def ref_contains_def Let_def)
qed

lemma sim_put_op:
  assumes sim: "cache_sim h c r"
  shows "fst (perform h (OpPut k v ttl) c) = fst (ref_step h (OpPut k v ttl) r)"
    and "cache_sim h (snd (perform h (OpPut k v ttl) c)) (snd (ref_step h (OpPut k v ttl) r))"
proof -
  let ?i = "shard_for h c k" and ?sh = "c_shards c ! shard_for h c k" and ?s = "rc_shards r ! shard_for h c k"
  let ?d = "cfg_default_ttl (c_config c)" and ?now = "cache_now c"
  note S = cache_sim_shard [OF sim, of k]
  have pl: "plain h c" and same: "rc_default_ttl r = ?d" "rc_now r = ?now" using sim by (simp_all add: cache_sim_def)
  note inv = cache_sim_inv [OF sim]
  have bad: "(case ttl of TTL_SECONDS t \<Rightarrow> t \<le> 0 | _ \<Rightarrow> False) \<longleftrightarrow> validate_explicit_ttl ttl \<noteq> None"
    by (simp add: validate_explicit_ttl_def split: ttl_arg.splits)
  have "fst (perform h (OpPut k v ttl) c) = fst (ref_step h (OpPut k v ttl) r) \<and>
      cache_sim h (snd (perform h (OpPut k v ttl) c)) (snd (ref_step h (OpPut k v ttl) r))"
  proof (cases "validate_explicit_ttl ttl")
    case None
    obtain ex sh0 where pe: "put_existing ?now k ?sh = (ex, sh0)" by fastforce
    let ?sh' = "enforce_capacity_locked (put_insert (put_entry_of CACHE_ONLY ?d ?now k v ttl ex sh0) sh0)"
    obtain c1 where c1: "same_frame c c1" "c_shards c1 = c_shards c" and put: "cache_put h k v ttl c = (Inr (), set_shard ?i ?sh' c1)"
      using plain_put [OF pl None pe] by blast
    have pos: "\<forall>t. ?d = Some t \<longrightarrow> 0 \<le> t" using inv by (simp add: cache_inv_def config_valid_def)
    have step: "shard_sim (rc_policy r) ?sh' (ref_put (rc_policy r) ?d ?now k v ttl ?s)"
      by (rule sim_put_shard [OF S(3,4) None pos pe])
    have frame: "same_frame c (set_shard ?i ?sh' c1)" using plain_put_any(3) [OF pl None, of k v] put by simp
    have inv': "cache_inv h (set_shard ?i ?sh' c1)" using put_inv [OF inv, of k v ttl] put by simp
    have shards: "c_shards (set_shard ?i ?sh' c1) = (c_shards c)[?i := ?sh']" by (simp add: c1(2))
    note U = cache_sim_update [where f = "\<lambda>s. (Completed, ref_put (rc_policy r) ?d ?now k v ttl s)", OF sim inv' frame shards]
    show ?thesis using U step bad None by (simp add: put answer_of_def same)
  next
    case (Some e)
    let ?c1 = "maybe_warn_cache_not_started c"
    have e: "e = ValidationError" using Some by (simp add: validate_explicit_ttl_def split: ttl_arg.splits if_splits)
    have put: "cache_put h k v ttl c = (Inl e, ?c1)" by (simp add: cache_put_def sim_open [OF sim] Some)
    have frame: "same_frame c ?c1" "c_shards ?c1 = c_shards c" by (simp_all add: maybe_warn_cache_not_started_def same_frame_def)
    have "cache_inv h ?c1" using put_inv [OF inv, of k v ttl] put by simp
    from same_frame_plain [OF frame(1) this pl] have "cache_sim h ?c1 r"
      using sim frame same_frame_now [OF frame(1)] by (simp add: cache_sim_def same_frame_def)
    then show ?thesis using bad Some by (simp add: put answer_of_def e)
  qed
  then show "fst (perform h (OpPut k v ttl) c) = fst (ref_step h (OpPut k v ttl) r)"
    and "cache_sim h (snd (perform h (OpPut k v ttl) c)) (snd (ref_step h (OpPut k v ttl) r))" by blast+
qed

lemma sim_delete_op:
  assumes sim: "cache_sim h c r"
  shows "fst (perform h (OpDelete k) c) = fst (ref_step h (OpDelete k) r)"
    and "cache_sim h (snd (perform h (OpDelete k) c)) (snd (ref_step h (OpDelete k) r))"
proof -
  let ?i = "shard_for h c k" and ?sh = "c_shards c ! shard_for h c k" and ?s = "rc_shards r ! shard_for h c k"
  note S = cache_sim_shard [OF sim, of k] and inv = cache_sim_inv [OF sim]
  have mode: "c_write_mode c = CACHE_ONLY" using sim by (simp add: cache_sim_def plain_def)
  obtain res src' sh' where d: "delete_locked CACHE_ONLY (cfg_write_back_retry_count (c_config c)) k (c_source c) ?sh = (res, src', sh')"
    by (metis prod_cases3)
  note D = sim_delete [OF S(4) d]
  let ?c' = "(set_shard ?i sh' c)\<lparr>c_source := src'\<rparr>"
  have del: "cache_delete h k c = (Inr (fst (ref_delete k ?s)), ?c')"
    using d D(1) by (simp add: cache_delete_def sim_open [OF sim] delete_section_def on_shard_source_def mode)
  have inv': "cache_inv h ?c'" using delete_inv [OF inv, of k] del by simp
  have cap: "sh_capacity sh' = sh_capacity ?sh" using D(2) S(4) by (simp add: shard_sim_def ref_delete_def ref_drop_def)
  have frame: "same_frame c ?c'" using set_shard_view(3) [OF S(2) cap] by (simp add: same_frame_def)
  have shards: "c_shards ?c' = (c_shards c)[?i := sh']" by simp
  note U = cache_sim_update [where f = "map_prod Flag id \<circ> ref_delete k", OF sim inv' frame shards]
  show "fst (perform h (OpDelete k) c) = fst (ref_step h (OpDelete k) r)"
    and "cache_sim h (snd (perform h (OpDelete k) c)) (snd (ref_step h (OpDelete k) r))"
    using U D(2) by (simp_all add: del answer_of_def)
qed

text \<open>Operations that visit every shard: after the first \<open>m\<close> of them.\<close>

definition visited :: "('s \<Rightarrow> 's) \<Rightarrow> nat \<Rightarrow> 's list \<Rightarrow> 's list" where
  "visited g m ss = map g (take m ss) @ drop m ss"

lemma visited_next:
  assumes "m < length ss"
  shows "visited g m ss ! m = ss ! m" and "(visited g m ss)[m := g (ss ! m)] = visited g (Suc m) ss"
  using assms by (simp_all add: visited_def nth_append list_update_append Cons_nth_drop_Suc [symmetric] take_Suc_conv_app_nth)

lemma visited_ends [simp]: "visited g 0 ss = ss" "visited g (length ss) ss = map g ss" "length (visited g m ss) = length ss"
  by (simp_all add: visited_def)

lemma visit_step:
  assumes pl: "plain h c" and all: "list_all2 (shard_sim nm) (c_shards c) (visited g m ss)" and m: "m < length ss"
    and inv: "cache_inv h c'" and c': "c' = set_shard m sh' c"
    and sim': "shard_sim nm sh' (g (ss ! m))"
    and room: "rs_room (g (ss ! m)) = rs_room (ss ! m)"
  shows "plain h c'" and "same_frame c c'" and "list_all2 (shard_sim nm) (c_shards c') (visited g (Suc m) ss)"
proof -
  have len: "m < length (c_shards c)" using list_all2_lengthD [OF all] m by simp
  have sim: "shard_sim nm (c_shards c ! m) (ss ! m)" using list_all2_nthD [OF all len] visited_next(1) [OF m, of g] by simp
  have "sh_capacity sh' = sh_capacity (c_shards c ! m)" using sim sim' room by (simp add: shard_sim_def)
  from set_shard_view(3) [OF len this] show frame: "same_frame c c'" by (simp add: c')
  show "plain h c'" by (rule same_frame_plain [OF frame inv pl])
  show "list_all2 (shard_sim nm) (c_shards c') (visited g (Suc m) ss)"
    using list_all2_update_cong [OF all sim', of m] by (simp add: c' visited_next(2) [OF m])
qed

lemma sim_clear_shards:
  assumes "plain h c" and "list_all2 (shard_sim nm) (c_shards c) (visited ref_clear m ss)" and "m \<le> length ss"
  shows "\<exists>c'. clear_shards [m..<length ss] js c = (Inr js, c') \<and> plain h c' \<and> same_frame c c' \<and>
    list_all2 (shard_sim nm) (c_shards c') (map ref_clear ss)"
  using assms(3,1,2)
proof (induction m arbitrary: c rule: inc_induct)
  case base
  then show ?case by auto
next
  case (step m)
  let ?n = "cfg_write_back_retry_count (c_config c)"
  have mode: "c_write_mode c = CACHE_ONLY" and inv: "cache_inv h c" using step.prems(1) by (simp_all add: plain_def)
  have len: "m < length (c_shards c)" using list_all2_lengthD [OF step.prems(2)] step.hyps by simp
  obtain r' src' sh' where cl: "clear_locked CACHE_ONLY ?n js (c_source c) (c_shards c ! m) = (r', src', sh')" by (metis prod_cases3)
  have sim: "shard_inv (c_shards c ! m)" "shard_sim nm (c_shards c ! m) (ss ! m)"
    using cache_inv_shard [OF inv len] list_all2_nthD [OF step.prems(2) len] visited_next(1) [OF step.hyps(2)] by simp_all
  note C = sim_clear [OF sim cl]
  let ?c1 = "set_shard m sh' c"
  have sec: "clear_section m js c = (Inr js, ?c1)"
    using cl C(1,2) by (simp add: clear_section_def on_shard_source_def mode)
  have inv1: "cache_inv h ?c1" using clear_section_inv [OF inv len, of js] sec by simp
  have room: "rs_room (ref_clear (ss ! m)) = rs_room (ss ! m)" by (simp add: ref_clear_def)
  note V = visit_step [OF step.prems step.hyps(2) inv1 refl C(3) room]
  from step.IH [OF V(1,3)] obtain c' where "clear_shards [Suc m..<length ss] js ?c1 = (Inr js, c')" "plain h c'"
    "same_frame ?c1 c'" "list_all2 (shard_sim nm) (c_shards c') (map ref_clear ss)" by blast
  then show ?case
    using sec same_frame_trans [OF V(2)] step.hyps(2) by (auto simp: upt_conv_Cons)
qed

lemma sim_expire_shards:
  assumes "plain h c" and "list_all2 (shard_sim nm) (c_shards c) (visited (snd \<circ> ref_sweep (cache_now c)) m ss)" and "m \<le> length ss"
  shows "\<exists>c'. expire_shards [m..<length ss] acc c = (acc + sum_list (map (fst \<circ> ref_sweep (cache_now c)) (drop m ss)), c') \<and>
    plain h c' \<and> same_frame c c' \<and> list_all2 (shard_sim nm) (c_shards c') (map (snd \<circ> ref_sweep (cache_now c)) ss)"
  using assms(3,1,2)
proof (induction m arbitrary: c acc rule: inc_induct)
  case base
  then show ?case by auto
next
  case (step m)
  let ?g = "snd \<circ> ref_sweep (cache_now c)"
  have inv: "cache_inv h c" using step.prems(1) by (simp add: plain_def)
  have len: "m < length (c_shards c)" using list_all2_lengthD [OF step.prems(2)] step.hyps by simp
  have sim: "shard_inv (c_shards c ! m)" "shard_sim nm (c_shards c ! m) (ss ! m)"
    using cache_inv_shard [OF inv len] list_all2_nthD [OF step.prems(2) len] visited_next(1) [OF step.hyps(2)] by simp_all
  note E = sim_sweep [OF sim, of "cache_now c"]
  let ?c1 = "set_shard m (snd (expire_shard_locked (cache_now c) (c_shards c ! m))) c"
  have sec: "expire_shard m c = (fst (ref_sweep (cache_now c) (ss ! m)), ?c1)"
    using E(1) by (simp add: expire_shard_def on_shard_def case_prod_beta)
  have inv1: "cache_inv h ?c1" using expire_shard_inv [OF inv len] sec by simp
  have E2: "shard_sim nm (snd (expire_shard_locked (cache_now c) (c_shards c ! m))) (?g (ss ! m))" using E(2) by simp
  have room: "rs_room (?g (ss ! m)) = rs_room (ss ! m)" by (simp add: ref_sweep_def)
  note V = visit_step [OF step.prems step.hyps(2) inv1 refl E2 room]
  have now: "cache_now ?c1 = cache_now c" by (rule same_frame_now [OF V(2)])
  note IH = step.IH [OF V(1), unfolded now, OF V(3), of "acc + fst (ref_sweep (cache_now c) (ss ! m))"]
  show ?case
    using IH sec same_frame_trans [OF V(2)] step.hyps(2)
    by (auto simp: upt_conv_Cons Cons_nth_drop_Suc [symmetric] add.assoc)
qed

lemma cache_sim_shards:
  assumes "cache_sim h c r" and "plain h c'" and "same_frame c c'" and "list_all2 (shard_sim (rc_policy r)) (c_shards c') ss"
  shows "cache_sim h c' (r\<lparr>rc_shards := ss\<rparr>)"
  using assms same_frame_now [OF assms(3)] by (simp add: cache_sim_def same_frame_def)

lemma cache_sim_all: "cache_sim h c r \<Longrightarrow> list_all2 (shard_sim (rc_policy r)) (c_shards c) (visited g 0 (rc_shards r))"
  by (simp add: cache_sim_def)

lemma cache_sim_length: "cache_sim h c r \<Longrightarrow> length (c_shards c) = length (rc_shards r)"
  by (auto simp: cache_sim_def dest: list_all2_lengthD)

lemma sim_clear_op:
  assumes sim: "cache_sim h c r"
  shows "fst (perform h OpClear c) = fst (ref_step h OpClear r)"
    and "cache_sim h (snd (perform h OpClear c)) (snd (ref_step h OpClear r))"
proof -
  have pl: "plain h c" using sim by (simp add: cache_sim_def)
  obtain c' where c': "clear_shards [0..<length (rc_shards r)] [] c = (Inr [], c')" "plain h c'" "same_frame c c'"
    "list_all2 (shard_sim (rc_policy r)) (c_shards c') (map ref_clear (rc_shards r))"
    using sim_clear_shards [OF pl cache_sim_all [OF sim] le0] by blast
  then have "cache_clear c = (Inr (), c')" by (simp add: cache_clear_def sim_open [OF sim] cache_sim_length [OF sim])
  then show "fst (perform h OpClear c) = fst (ref_step h OpClear r)"
    and "cache_sim h (snd (perform h OpClear c)) (snd (ref_step h OpClear r))"
    using cache_sim_shards [OF sim c'(2-4)] by (simp_all add: answer_of_def)
qed

lemma sim_expire_op:
  assumes sim: "cache_sim h c r"
  shows "fst (perform h OpExpireAll c) = fst (ref_step h OpExpireAll r)"
    and "cache_sim h (snd (perform h OpExpireAll c)) (snd (ref_step h OpExpireAll r))"
proof -
  have pl: "plain h c" and now: "cache_now c = rc_now r" using sim by (simp_all add: cache_sim_def)
  let ?n = "sum_list (map (fst \<circ> ref_sweep (rc_now r)) (rc_shards r))"
  obtain c' where c': "expire_shards [0..<length (rc_shards r)] 0 c = (?n, c')" "plain h c'" "same_frame c c'"
    "list_all2 (shard_sim (rc_policy r)) (c_shards c') (map (snd \<circ> ref_sweep (rc_now r)) (rc_shards r))"
    using sim_expire_shards [OF pl cache_sim_all [OF sim] le0, of 0] by (auto simp: now)
  then have "cache_expire_all c = (Inr ?n, c')" by (simp add: cache_expire_all_def sim_open [OF sim] cache_sim_length [OF sim])
  then show "fst (perform h OpExpireAll c) = fst (ref_step h OpExpireAll r)"
    and "cache_sim h (snd (perform h OpExpireAll c)) (snd (ref_step h OpExpireAll r))"
    using cache_sim_shards [OF sim c'(2-4)] by (simp_all add: answer_of_def)
qed

lemma sim_size_op:
  assumes sim: "cache_sim h c r"
  shows "perform h OpSize c = (Count (sum_list (map ref_size (rc_shards r))), c)"
proof -
  have "map (\<lambda>sh. mem_size (sh_backend sh)) (c_shards c) = map ref_size (rc_shards r)"
  proof (rule nth_equalityI)
    fix i
    assume "i < length (map (\<lambda>sh. mem_size (sh_backend sh)) (c_shards c))"
    then have i: "i < length (c_shards c)" by simp
    have "shard_sim (rc_policy r) (c_shards c ! i) (rc_shards r ! i)"
      using sim list_all2_nthD [OF _ i] by (auto simp: cache_sim_def)
    moreover have "shard_core (c_shards c ! i)" using cache_inv_shard [OF cache_sim_inv [OF sim] i] by (simp add: shard_inv_def)
    ultimately show "map (\<lambda>sh. mem_size (sh_backend sh)) (c_shards c) ! i = map ref_size (rc_shards r) ! i"
      using i cache_sim_length [OF sim] by (simp add: ref_size_def shard_sim_size)
  qed (simp add: cache_sim_length [OF sim])
  then show ?thesis by (simp add: cache_size_def sim_open [OF sim] answer_of_def total_size_def)
qed

lemma sim_wait_op:
  assumes sim: "cache_sim h c r"
  shows "fst (perform h (OpWait t) c) = fst (ref_step h (OpWait t) r)"
    and "cache_sim h (snd (perform h (OpWait t) c)) (snd (ref_step h (OpWait t) r))"
  using sim
  by (simp_all add: answer_of_def clock_advance_def cache_sim_def plain_def cache_inv_def cache_now_def clock_now_def)

interpretation refc: simulation "perform h" "ref_step h" "cache_sim h" for h
proof unfold_locales
  fix s r x
  assume sim: "cache_sim h s r"
  note S = sim_get_op [OF sim] sim_contains [OF sim] sim_put_op [OF sim] sim_delete_op [OF sim] sim_clear_op [OF sim]
    sim_expire_op [OF sim] sim_wait_op [OF sim]
  show "fst (perform h x s) = fst (ref_step h x r)"
    using S sim_size_op [OF sim] by (cases x) (auto simp del: perform.simps ref_step.simps simp: ref_step.simps(6))
  show "cache_sim h (snd (perform h x s)) (snd (ref_step h x r))"
    using S sim_size_op [OF sim] sim by (cases x) (auto simp del: perform.simps ref_step.simps simp: ref_step.simps(6))
qed

lemma cache_sim_init:
  assumes init: "cache_init config a source clock = Inr (c :: ('k, 'v) cache)" and valid: "\<And>cfg. config = Some cfg \<Longrightarrow> config_valid cfg"
    and mode: "cfg_write_mode (c_config c) = ''cache-only''"
  shows "cache_sim h c (ref_init (c_config c) (clock_now clock))"
proof -
  let ?cfg = "c_config c"
  let ?caps = "shard_capacities (cfg_capacity ?cfg) (cfg_shard_count ?cfg)"
  have pl: "plain h c" by (rule cache_init_plain(1) [OF init valid mode])
  have shards: "make_shards ?cfg 0 ?caps = Inr (c_shards c)" and clock: "c_clock c = clock"
    using init by (auto simp: cache_init_def split: sum.splits)
  have v: "config_valid ?cfg" using pl by (simp add: plain_def cache_inv_def)
  then obtain p :: "'k policy" where p: "make_policy (cfg_policy ?cfg) = Inr p"
    using make_policy_total [of "cfg_policy ?cfg"] by (auto simp: config_valid_def)
  have "make_shards ?cfg 0 ?caps = Inr (map (\<lambda>j. shard_init j (nat (?caps ! j)) p :: ('k, 'v) shard) [0..<length ?caps])"
    using make_shards_ok [OF _ p, of 0 ?caps] v by (simp add: config_valid_def)
  with shards have "c_shards c = map (\<lambda>j. shard_init j (nat (?caps ! j)) p) [0..<length ?caps]" by simp
  moreover have "shard_sim (str_lower (cfg_policy ?cfg)) (shard_init i n p :: ('k, 'v) shard)
      \<lparr>rs_room = n, rs_items = (\<lambda>k. None), rs_history = history_init\<rparr>" for i n
    using policy_starts_empty [OF p] by (simp add: shard_sim_def shard_init_def)
  ultimately have "list_all2 (shard_sim (str_lower (cfg_policy ?cfg))) (c_shards c) (rc_shards (ref_init ?cfg (clock_now clock)))"
    by (simp add: list_all2_conv_all_nth ref_init_def)
  with pl clock show ?thesis by (simp add: cache_sim_def ref_init_def cache_now_def)
qed



end
