(* ===== verification/Single_Flight.thy ===== *)
theory Single_Flight
  imports Samples
begin

text \<open>
  \<open>Cache.get_or_compute\<close> and \<open>concurrency/singleflight.py\<close>: concurrent misses of a key
  share one flight. The call is split where it takes and releases the shard lock and
  where it waits, and the callers are interleaved with each other and with every other
  operation of the cache as a step relation.
\<close>

section \<open>The sections of get_or_compute\<close>

definition flight_init :: "'v flight" where
  "flight_init = \<lparr>fl_event = False, fl_result = None, fl_exception = None\<rparr>"

text \<open>The first section: a hit, the flight to wait for, or a new flight to lead.\<close>

datatype 'v entered = Found 'v | Wait nat | Lead nat

definition goc_enter ::
  "('k \<Rightarrow> nat) \<Rightarrow> 'k \<Rightarrow> ttl_arg \<Rightarrow> ('k, 'v) cache \<Rightarrow> ('v entered, ('k, 'v) cache) outcome" where
  "goc_enter h k ttl c = unless_closed c
     (case validate_explicit_ttl ttl of
        Some e \<Rightarrow> (Inl e, c)
      | None \<Rightarrow>
          (case read_section h True k c of
             (Some v, c1) \<Rightarrow> (Inr (Found v), c1)
           | (None, c1) \<Rightarrow>
               (let i = shard_for h c1 k; sh = c_shards c1 ! i in
                case dict_get (sh_singleflight sh) k of
                  Some f \<Rightarrow> (Inr (Wait f), c1)
                | None \<Rightarrow>
                    (let f = length (c_flights c1) in
                     (Inr (Lead f),
                      (set_shard i (sh\<lparr>sh_singleflight := dict_set k f (sh_singleflight sh)\<rparr>) c1)
                        \<lparr>c_flights := c_flights c1 @ [flight_init]\<rparr>)))))"

definition resolve_flight ::
  "('k \<Rightarrow> nat) \<Rightarrow> 'k \<Rightarrow> nat \<Rightarrow> ('v flight \<Rightarrow> 'v flight) \<Rightarrow> ('k, 'v) cache \<Rightarrow> ('k, 'v) cache" where
  "resolve_flight h k f upd c =
     (let i = shard_for h c k; sh = c_shards c ! i in
      (set_shard i (sh\<lparr>sh_singleflight := dict_pop k (sh_singleflight sh)\<rparr>) c)
        \<lparr>c_flights := (c_flights c)[f := upd (c_flights c ! f)]\<rparr>)"

definition fail_flight_locked ::
  "('k \<Rightarrow> nat) \<Rightarrow> 'k \<Rightarrow> nat \<Rightarrow> cache_error \<Rightarrow> ('k, 'v) cache \<Rightarrow> ('k, 'v) cache" where
  "fail_flight_locked h k f e c =
     resolve_flight h k f (\<lambda>fl. fl\<lparr>fl_exception := Some e, fl_event := True\<rparr>) c"

definition publish_flight ::
  "('k \<Rightarrow> nat) \<Rightarrow> 'k \<Rightarrow> nat \<Rightarrow> 'v \<Rightarrow> ('k, 'v) cache \<Rightarrow> ('k, 'v) cache" where
  "publish_flight h k f v c =
     resolve_flight h k f (\<lambda>fl. fl\<lparr>fl_result := Some v, fl_event := True\<rparr>) c"

text \<open>After \<open>flight.event.wait()\<close>; \<open>None\<close> while the event is not set.\<close>

definition flight_outcome :: "'v flight \<Rightarrow> (cache_error + 'v option) option" where
  "flight_outcome fl =
     (if \<not> fl_event fl then None
      else Some (case fl_exception fl of Some e \<Rightarrow> Inl e | None \<Rightarrow> Inr (fl_result fl)))"

text \<open>The whole call by one thread; \<open>None\<close> when it would wait for another one.\<close>

definition goc_store ::
  "('k \<Rightarrow> nat) \<Rightarrow> 'k \<Rightarrow> nat \<Rightarrow> 'v \<Rightarrow> ttl_arg \<Rightarrow> ('k, 'v) cache \<Rightarrow> ('v option, ('k, 'v) cache) outcome" where
  "goc_store h k f v ttl c =
     (case cache_put h k v ttl c of
        (Inl e, c1) \<Rightarrow>
          if e = QueueBackpressureError then (Inr (Some v), publish_flight h k f v c1)
          else (Inl e, fail_flight_locked h k f e c1)
      | (Inr u, c1) \<Rightarrow> (Inr (Some v), publish_flight h k f v c1))"

definition get_or_compute ::
  "('k \<Rightarrow> nat) \<Rightarrow> 'k \<Rightarrow> 'v loader \<Rightarrow> ttl_arg \<Rightarrow> ('k, 'v) cache \<Rightarrow> ('v option, ('k, 'v) cache) outcome option" where
  "get_or_compute h k loader ttl c =
     (case goc_enter h k ttl c of
        (Inl e, c1) \<Rightarrow> Some (Inl e, c1)
      | (Inr (Found v), c1) \<Rightarrow> Some (Inr (Some v), c1)
      | (Inr (Wait f), c1) \<Rightarrow> map_option (\<lambda>r. (r, c1)) (flight_outcome (c_flights c1 ! f))
      | (Inr (Lead f), c1) \<Rightarrow>
          Some (case loader of
                  Inl e \<Rightarrow> (Inl e, fail_flight_locked h k f e c1)
                | Inr v \<Rightarrow> goc_store h k f v ttl c1))"

section \<open>Interleaved callers\<close>

text \<open>
  Where a caller is: about to run its loader, about to put the loaded value, about to
  publish, about to fail the flight, waiting, or returned. A returned caller remembers
  the flight it took part in.
\<close>

datatype ('k, 'v) caller =
    Leading 'k ttl_arg nat
  | Storing 'k ttl_arg nat 'v
  | Publishing 'k nat 'v
  | Failing 'k nat cache_error
  | Waiting 'k nat
  | Done "nat option" "cache_error + 'v option"

record ('k, 'v) sf_system =
  sf_cache :: "('k, 'v) cache"
  sf_callers :: "('k, 'v) caller list"

fun leads :: "('k, 'v) caller \<Rightarrow> (nat \<times> 'k) option" where
  "leads (Leading k ttl f) = Some (f, k)"
| "leads (Storing k ttl f v) = Some (f, k)"
| "leads (Publishing k f v) = Some (f, k)"
| "leads (Failing k f e) = Some (f, k)"
| "leads _ = None"

inductive sf_step ::
  "('k \<Rightarrow> nat) \<Rightarrow> (('k, 'v) action \<Rightarrow> bool) \<Rightarrow> ('k, 'v) sf_system \<Rightarrow> ('k, 'v) sf_system \<Rightarrow> bool" for h ok where
  refused: "goc_enter h k ttl (sf_cache s) = (Inl e, c) \<Longrightarrow>
    sf_step h ok s (s\<lparr>sf_cache := c, sf_callers := sf_callers s @ [Done None (Inl e)]\<rparr>)"
| hit: "goc_enter h k ttl (sf_cache s) = (Inr (Found v), c) \<Longrightarrow>
    sf_step h ok s (s\<lparr>sf_cache := c, sf_callers := sf_callers s @ [Done None (Inr (Some v))]\<rparr>)"
| wait: "goc_enter h k ttl (sf_cache s) = (Inr (Wait f), c) \<Longrightarrow>
    sf_step h ok s (s\<lparr>sf_cache := c, sf_callers := sf_callers s @ [Waiting k f]\<rparr>)"
| lead: "goc_enter h k ttl (sf_cache s) = (Inr (Lead f), c) \<Longrightarrow>
    sf_step h ok s (s\<lparr>sf_cache := c, sf_callers := sf_callers s @ [Leading k ttl f]\<rparr>)"
| loaded: "p < length (sf_callers s) \<Longrightarrow> sf_callers s ! p = Leading k ttl f \<Longrightarrow>
    sf_step h ok s (s\<lparr>sf_callers := (sf_callers s)[p := Storing k ttl f v]\<rparr>)"
| load_failed: "p < length (sf_callers s) \<Longrightarrow> sf_callers s ! p = Leading k ttl f \<Longrightarrow>
    sf_step h ok s (s\<lparr>sf_callers := (sf_callers s)[p := Failing k f e]\<rparr>)"
| stored: "p < length (sf_callers s) \<Longrightarrow> sf_callers s ! p = Storing k ttl f v \<Longrightarrow>
    cache_put h k v ttl (sf_cache s) = (r, c) \<Longrightarrow> took_effect r \<Longrightarrow>
    sf_step h ok s (s\<lparr>sf_cache := c, sf_callers := (sf_callers s)[p := Publishing k f v]\<rparr>)"
| store_failed: "p < length (sf_callers s) \<Longrightarrow> sf_callers s ! p = Storing k ttl f v \<Longrightarrow>
    cache_put h k v ttl (sf_cache s) = (Inl e, c) \<Longrightarrow> \<not> took_effect (Inl e :: cache_error + unit) \<Longrightarrow>
    sf_step h ok s (s\<lparr>sf_cache := c, sf_callers := (sf_callers s)[p := Failing k f e]\<rparr>)"
| publish: "p < length (sf_callers s) \<Longrightarrow> sf_callers s ! p = Publishing k f v \<Longrightarrow>
    sf_step h ok s (s\<lparr>sf_cache := publish_flight h k f v (sf_cache s),
      sf_callers := (sf_callers s)[p := Done (Some f) (Inr (Some v))]\<rparr>)"
| failed: "p < length (sf_callers s) \<Longrightarrow> sf_callers s ! p = Failing k f e \<Longrightarrow>
    sf_step h ok s (s\<lparr>sf_cache := fail_flight_locked h k f e (sf_cache s),
      sf_callers := (sf_callers s)[p := Done (Some f) (Inl e)]\<rparr>)"
| wake: "p < length (sf_callers s) \<Longrightarrow> sf_callers s ! p = Waiting k f \<Longrightarrow>
    flight_outcome (c_flights (sf_cache s) ! f) = Some r \<Longrightarrow>
    sf_step h ok s (s\<lparr>sf_callers := (sf_callers s)[p := Done (Some f) r]\<rparr>)"
| other: "ok a \<Longrightarrow> sf_step h ok s (s\<lparr>sf_cache := run_action h a (sf_cache s)\<rparr>)"

definition sf_init :: "('k, 'v) sf_system \<Rightarrow> bool" where
  "sf_init s \<longleftrightarrow> sf_callers s = [] \<and> (\<exists>cfg source clock. config_post_init cfg = Inr cfg \<and>
     cache_init (Some cfg) init_args_unset source clock = Inr (sf_cache s))"

section \<open>What the other operations do to the registry\<close>

definition registry :: "('k \<Rightarrow> nat) \<Rightarrow> ('k, 'v) cache \<Rightarrow> 'k \<Rightarrow> nat option" where
  "registry h c k = dict_get (sh_singleflight (c_shards c ! shard_for h c k)) k"

text \<open>No operation adds a flight or completes one; only \<open>delete\<close> and \<open>clear\<close> drop one.\<close>

fun keeps_flights :: "('k, 'v) action \<Rightarrow> bool" where
  "keeps_flights (Delete k) = False"
| "keeps_flights Clear = False"
| "keeps_flights a = True"

text \<open>\<open>sf_less c c'\<close>: flights as before, the registries lost at most some keys; \<open>sf_kept\<close>: none.\<close>

definition sf_less :: "('k, 'v) cache \<Rightarrow> ('k, 'v) cache \<Rightarrow> bool" where
  "sf_less c c' \<longleftrightarrow> c_flights c' = c_flights c \<and> length (c_shards c') = length (c_shards c) \<and>
     (\<forall>i. dict_get (sh_singleflight (c_shards c' ! i)) \<subseteq>\<^sub>m dict_get (sh_singleflight (c_shards c ! i)))"

definition sf_kept :: "('k, 'v) cache \<Rightarrow> ('k, 'v) cache \<Rightarrow> bool" where
  "sf_kept c c' \<longleftrightarrow> c_flights c' = c_flights c \<and> length (c_shards c') = length (c_shards c) \<and>
     (\<forall>i. sh_singleflight (c_shards c' ! i) = sh_singleflight (c_shards c ! i))"

lemma sf_kept_less: "sf_kept c c' \<Longrightarrow> sf_less c c'"
  by (simp add: sf_kept_def sf_less_def)

lemma sf_kept_trans: "sf_kept c c' \<Longrightarrow> sf_kept c' c'' \<Longrightarrow> sf_kept c c''"
  by (simp add: sf_kept_def)

lemma sf_less_trans: "sf_less c c' \<Longrightarrow> sf_less c' c'' \<Longrightarrow> sf_less c c''"
  unfolding sf_less_def by (metis map_le_trans)

lemma sf_kept_irrelevant [simp]:
  "sf_kept c c" "sf_kept c (c'\<lparr>c_source := s\<rparr>) = sf_kept c c'" "sf_kept c (c'\<lparr>c_clock := cl\<rparr>) = sf_kept c c'"
  "sf_kept c (c'\<lparr>c_queue := q\<rparr>) = sf_kept c c'" "sf_kept c (c'\<lparr>c_warned := w\<rparr>) = sf_kept c c'"
  "sf_kept c (c'\<lparr>c_last_snapshot := l\<rparr>) = sf_kept c c'" "sf_kept c (inc_runtime x c') = sf_kept c c'"
  "sf_kept c (task_done c') = sf_kept c c'" "sf_kept c (maybe_warn_cache_not_started c') = sf_kept c c'"
  "sf_kept c (snd (enqueue_job job b c')) = sf_kept c c'" "sf_kept c (tick_once c') = sf_kept c c'"
  by (simp_all add: sf_kept_def task_done_def maybe_warn_cache_not_started_def enqueue_job_eq tick_once_def)

lemma sf_kept_set_shard [simp]:
  "sh_singleflight sh = sh_singleflight (c_shards c ! i) \<Longrightarrow> sf_kept c (set_shard i sh c)"
  by (cases "i < length (c_shards c)") (auto simp: sf_kept_def nth_list_update list_update_beyond)

lemma sf_kept_set_shard': "sf_kept c c' \<Longrightarrow> sh_singleflight sh = sh_singleflight (c_shards c' ! i) \<Longrightarrow> sf_kept c (set_shard i sh c')"
  by (erule sf_kept_trans) simp

lemma singleflight_enforce [simp]: "sh_singleflight (enforce_capacity_locked sh) = sh_singleflight sh"
  using enforce_loop_frame(6) [of "Suc (policy_len (sh_policy sh))" sh]
  unfolding enforce_capacity_locked_def by (cases "enforce_loop (Suc (policy_len (sh_policy sh))) sh") auto

lemma singleflight_expire [simp]: "sh_singleflight (snd (expire_keys_locked ks sh n)) = sh_singleflight sh"
  by (induction ks arbitrary: sh n) (simp_all add: case_prod_beta)

lemma singleflight_dump [simp]: "sh_singleflight (snd (dump_entries_locked now es snaps sh)) = sh_singleflight sh"
  by (induction now es snaps sh rule: dump_entries_locked.induct) simp_all

lemma singleflight_sections [simp]:
  "sh_singleflight (snd (read_value_locked t s now k sh)) = sh_singleflight sh"
  "sh_singleflight (snd (inspect_locked now k sh)) = sh_singleflight sh"
  "sh_singleflight (mark_clean_locked k ver sh) = sh_singleflight sh"
  "sh_singleflight (restore_hit_count_locked k n sh) = sh_singleflight sh"
  "sh_singleflight (register_pending_locked k sh) = sh_singleflight sh"
  "sh_singleflight (clear_pending_flushes_locked k sh) = sh_singleflight sh"
  "sh_singleflight (snd (put_existing now k sh)) = sh_singleflight sh"
  "sh_singleflight (snd (put_store m d now k v ttl ex sh)) = sh_singleflight sh"
  "sh_singleflight (snd (expire_shard_locked now sh)) = sh_singleflight sh"
  "sh_singleflight (snd (delete_entry_locked k sh)) = sh_singleflight sh"
  "sh_singleflight (snd (tombstone_locked n k sh)) = sh_singleflight sh"
  by (auto simp: read_value_locked_def inspect_locked_def mark_clean_locked_def restore_hit_count_locked_def
      register_pending_locked_def clear_pending_flushes_locked_def put_existing_def put_store_eq expire_shard_locked_def
      delete_entry_locked_def tombstone_eq case_prod_beta Let_def split: option.splits)

lemma singleflight_put [simp]: "sh_singleflight (snd (snd (put_locked m d n now k v ttl s sh))) = sh_singleflight sh"
  by (auto simp: put_locked_def case_prod_beta split: sum.splits)

lemma singleflight_clear_keys: "sh_singleflight (snd (snd (clear_keys_locked m n ks js s sh))) = sh_singleflight sh"
  by (induction ks arbitrary: js s sh) (auto simp: case_prod_beta Let_def split: sum.splits)

lemma sf_kept_on_shard [simp]:
  "(\<And>sh. sh_singleflight (snd (f sh)) = sh_singleflight sh) \<Longrightarrow> sf_kept c (snd (on_shard i f c))"
  by (simp add: on_shard_def case_prod_beta)

lemma sf_kept_put_section [simp]: "sf_kept c (snd (put_section h k v ttl c))"
  by (simp add: put_section_def on_shard_source_def case_prod_beta)

lemma sf_kept_resolve [simp]: "sf_kept c (resolve_pending i k c)"
  by (simp add: resolve_pending_def)

lemma sf_kept_release [simp]: "sf_kept c (release_jobs js c)"
  by (induction js arbitrary: c) (auto intro: sf_kept_trans [OF sf_kept_resolve])

lemma sf_kept_enqueue_flush [simp]: "sf_kept c (snd (enqueue_flush_jobs js c))"
proof (induction js arbitrary: c)
  case (Cons j js)
  let ?c1 = "snd (enqueue_job (FlushWriteBack j) True c)"
  have "sf_kept c ?c1" by simp
  from sf_kept_trans [OF this Cons.IH] sf_kept_trans [OF this sf_kept_release] show ?case
    by (auto simp: case_prod_beta simp del: release_jobs.simps split: sum.splits)
qed simp

lemma sf_kept_put [simp]: "sf_kept c (snd (cache_put h k v ttl c))"
proof -
  let ?c1 = "maybe_warn_cache_not_started c"
  have "sf_kept c (snd (put_section h k v ttl ?c1))" by (rule sf_kept_trans [of _ ?c1]) simp_all
  from this sf_kept_trans [OF this sf_kept_enqueue_flush] show ?thesis
    by (auto simp: cache_put_def unless_closed_def Let_def case_prod_beta simp del: enqueue_flush_jobs.simps
        split: option.splits sum.splits)
qed

lemma sf_less_delete: "sf_less c (snd (cache_delete h k c))"
proof -
  have "sf_less c (snd (delete_section h k c))"
    by (cases "shard_for h c k < length (c_shards c)")
       (auto simp: sf_less_def delete_section_def on_shard_source_def delete_locked_def case_prod_beta Let_def nth_list_update
         list_update_beyond map_le_def split: sum.splits if_splits)
  from this sf_less_trans [OF this sf_kept_less [OF sf_kept_enqueue_flush]] show ?thesis
    by (auto simp: cache_delete_def unless_closed_def case_prod_beta sf_kept_less simp del: enqueue_flush_jobs.simps
        split: option.splits sum.splits)
qed

lemma sf_less_clear: "sf_less c (snd (cache_clear c))"
proof -
  have one: "sf_less c (snd (clear_section i js c))" for i js and c :: "('a, 'b) cache"
    by (cases "i < length (c_shards c)")
       (auto simp: sf_less_def clear_section_def on_shard_source_def clear_locked_def case_prod_beta nth_list_update
         singleflight_clear_keys list_update_beyond map_le_def split: sum.splits if_splits)
  have all: "sf_less c (snd (clear_shards is js c))" for "is" js and c :: "('a, 'b) cache"
  proof (induction "is" arbitrary: js c)
    case (Cons i "is")
    show ?case using one [of c i js] sf_less_trans [OF one [of c i js] Cons.IH]
      by (auto simp: case_prod_beta split: sum.splits)
  qed (simp add: sf_kept_less)
  from all [of c] sf_less_trans [OF all [of c] sf_kept_less [OF sf_kept_enqueue_flush]] show ?thesis
    by (auto simp: cache_clear_def unless_closed_def case_prod_beta sf_kept_less simp del: enqueue_flush_jobs.simps
        split: option.splits sum.splits)
qed

lemma sf_kept_flush [simp]: "sf_kept c (snd (flush_write_back_job j c))"
proof -
  have give_up: "sf_kept c c' \<Longrightarrow> sf_kept c (flush_give_up j c')" for c'
    unfolding flush_give_up_def by (rule sf_kept_trans [OF _ sf_kept_resolve]) simp
  have failed: "sf_kept c c' \<Longrightarrow> sf_kept c (snd (flush_failed j c'))" for c'
    using give_up by (auto simp: flush_failed_def Let_def case_prod_beta simp del: sf_kept_enqueue_flush split: sum.splits)
  have check: "flush_check j c = (b, c1) \<Longrightarrow> sf_kept c c1" for b c1
    by (auto simp: flush_check_def Let_def intro: sf_kept_trans [OF _ sf_kept_resolve] split: if_splits)
  have applied: "flush_apply j c1 = (r, c2) \<Longrightarrow> sf_kept c c1 \<Longrightarrow> sf_kept c c2" for c1 r c2
    by (auto simp: flush_apply_def split: prod.splits)
  have finish: "sf_kept c c' \<Longrightarrow> sf_kept c (flush_finish j c')" for c'
    by (auto simp: flush_finish_def Let_def intro: sf_kept_set_shard')
  obtain b c1 r c2 where cs: "flush_check j c = (b, c1)" "flush_apply j c1 = (r, c2)" by fastforce
  from check [OF cs(1)] have "sf_kept c c1" "sf_kept c c2" using applied [OF cs(2)] by simp_all
  then show ?thesis using cs finish failed by (cases b; cases r) (simp_all add: flush_write_back_job_def)
qed

lemma sf_kept_handle [simp]: "sf_kept c (snd (handle_job h job c))"
  by (auto simp: handle_job_def expire_shard_def case_prod_beta split: job.splits sum.splits)

lemma sf_kept_worker_turn [simp]: "sf_kept c (snd (worker_turn h c))"
proof (cases "jq_get (c_queue c)")
  case (Some p)
  obtain job q where p: "p = (job, q)" by fastforce
  have "sf_kept c (snd (handle_job h job (c\<lparr>c_queue := q\<rparr>)))"
    by (rule sf_kept_trans [of _ "c\<lparr>c_queue := q\<rparr>"]) simp_all
  then show ?thesis using Some p
    by (auto simp: worker_turn_def Let_def case_prod_beta record_worker_failure_def split: job.splits sum.splits)
qed (simp add: worker_turn_def)

lemma sf_kept_shards [simp]:
  "sf_kept c (snd (dump_shards is snaps c))" "sf_kept c (snd (expire_shards is n c))"
proof -
  show "sf_kept c (snd (dump_shards is snaps c))" for "is" snaps
  proof (induction "is" arbitrary: snaps c)
    case (Cons i "is")
    have "sf_kept c (snd (on_shard i (\<lambda>sh. dump_entries_locked (cache_now c) (mem_entries (sh_backend sh)) snaps sh) c))"
      by simp
    from sf_kept_trans [OF this Cons.IH] show ?case by (simp add: case_prod_beta)
  qed simp
  show "sf_kept c (snd (expire_shards is n c))" for "is" n
  proof (induction "is" arbitrary: n c)
    case (Cons i "is")
    have "sf_kept c (snd (expire_shard i c))" by (simp add: expire_shard_def)
    from sf_kept_trans [OF this Cons.IH] show ?case by (simp add: case_prod_beta)
  qed simp
qed

lemma sf_kept_unless_closed: "sf_kept c (snd body) \<Longrightarrow> sf_kept c (snd (unless_closed c body))"
  by (simp add: unless_closed_def split: option.splits)

lemma run_action_kept:
  assumes "keeps_flights a"
  shows "sf_kept c (run_action h a c)"
proof (cases a)
  case (Preload k l ttl)
  then show ?thesis
    by (simp add: cache_preload_def, intro sf_kept_unless_closed) (simp add: Let_def split: option.splits)
next
  case (RequestSnapshot r)
  then show ?thesis
    by (simp add: request_snapshot_def, intro sf_kept_unless_closed) (simp split: option.splits)
next
  case Start
  then show ?thesis by (simp add: sf_kept_def) (simp add: cache_start_def Let_def)
qed (use assms in \<open>simp_all add: cache_get_def cache_contains_def cache_size_def cache_inspect_def
      cache_dump_def cache_expire_all_def restore_entry_metadata_def scheduler_tick_def read_section_def
      Let_def case_prod_beta sf_kept_unless_closed\<close>)

lemma run_action_less: "sf_less c (run_action h a c)"
  using run_action_kept [of a c h] sf_less_delete sf_less_clear by (cases a) (auto simp: sf_kept_less)

lemma registry_less: "sf_less c c' \<Longrightarrow> registry h c' k = Some f \<Longrightarrow> registry h c k = Some f"
  by (auto simp: sf_less_def registry_def shard_for_def map_le_def dom_def)

lemma registry_kept: "sf_kept c c' \<Longrightarrow> registry h c' k = registry h c k"
  by (simp add: sf_kept_def registry_def shard_for_def)

section \<open>Invariant of the callers\<close>

fun caller_ok :: "'v flight list \<Rightarrow> ('k, 'v) caller \<Rightarrow> bool" where
  "caller_ok fls (Done (Some f) r) \<longleftrightarrow> f < length fls \<and> flight_outcome (fls ! f) = Some r"
| "caller_ok fls (Done None r) \<longleftrightarrow> True"
| "caller_ok fls (Waiting k f) \<longleftrightarrow> f < length fls"
| "caller_ok fls w \<longleftrightarrow> (\<exists>f k. leads w = Some (f, k) \<and> f < length fls)"

lemma caller_cases:
  obtains (Done_flight) f r where "w = Done (Some f) r" | (Done_alone) r where "w = Done None r"
  | (Waiting) k f where "w = Waiting k f" | (Leader) f k where "leads w = Some (f, k)" "\<forall>fls. caller_ok fls w \<longleftrightarrow> f < length fls"
proof (cases w)
  case (Done x r)
  with that(1,2) show thesis by (cases x) auto
qed (use that(3,4) in auto)

definition leader_of :: "('k, 'v) caller list \<Rightarrow> nat \<Rightarrow> nat \<Rightarrow> 'k \<Rightarrow> bool" where
  "leader_of ws p f k \<longleftrightarrow> p < length ws \<and> leads (ws ! p) = Some (f, k)"

text \<open>
  Every flight that is not complete has exactly one leader, a complete one has none; a
  returned caller has the outcome of its flight; a registered flight is led for its key.
\<close>

definition sf_ok :: "('k \<Rightarrow> nat) \<Rightarrow> ('k, 'v) cache \<Rightarrow> ('k, 'v) caller list \<Rightarrow> bool" where
  "sf_ok h c ws \<longleftrightarrow> cache_inv h c \<and> (\<forall>w \<in> set ws. caller_ok (c_flights c) w) \<and>
     (\<forall>p q f k k'. leader_of ws p f k \<and> leader_of ws q f k' \<longrightarrow> p = q) \<and>
     (\<forall>f < length (c_flights c). fl_event (c_flights c ! f) \<longleftrightarrow> \<not> (\<exists>p k. leader_of ws p f k)) \<and>
     (\<forall>f < length (c_flights c). \<not> fl_event (c_flights c ! f) \<longrightarrow> fl_exception (c_flights c ! f) = None) \<and>
     (\<forall>k f. registry h c k = Some f \<longrightarrow> (\<exists>p. leader_of ws p f k))"

definition sf_inv :: "('k \<Rightarrow> nat) \<Rightarrow> ('k, 'v) sf_system \<Rightarrow> bool" where
  "sf_inv h s \<longleftrightarrow> sf_ok h (sf_cache s) (sf_callers s)"

lemma leader_flight: "caller_ok fls w \<Longrightarrow> leads w = Some (f, k) \<Longrightarrow> f < length fls"
  by (cases w) auto

lemma leader_of_append:
  "leader_of (ws @ [w]) p f k \<longleftrightarrow> leader_of ws p f k \<or> p = length ws \<and> leads w = Some (f, k)"
  by (auto simp: leader_of_def nth_append less_Suc_eq)

lemma leader_of_update:
  "p < length ws \<Longrightarrow> leader_of (ws[p := w]) q f k \<longleftrightarrow> (if q = p then leads w = Some (f, k) else leader_of ws q f k)"
  by (auto simp: leader_of_def nth_list_update)

text \<open>A caller that leads nothing joins; a step of the cache that keeps flights; a caller moves on.\<close>

lemma sf_ok_append:
  "sf_ok h c ws \<Longrightarrow> leads w = None \<Longrightarrow> caller_ok (c_flights c) w \<Longrightarrow> sf_ok h c (ws @ [w])"
  by (simp add: sf_ok_def leader_of_append)

lemma sf_ok_cache:
  "sf_ok h c ws \<Longrightarrow> cache_inv h c' \<Longrightarrow> sf_less c c' \<Longrightarrow> sf_ok h c' ws"
  using registry_less [of c c' h] by (auto simp: sf_ok_def sf_less_def)

lemma sf_ok_move:
  assumes "sf_ok h c ws" and "p < length ws" and "leads w = leads (ws ! p)" and "caller_ok (c_flights c) w"
  shows "sf_ok h c (ws[p := w])"
proof -
  have "leader_of (ws[p := w]) q f k = leader_of ws q f k" for q f k
    using assms(2,3) by (auto simp: leader_of_update) (auto simp: leader_of_def)
  moreover have "set (ws[p := w]) \<subseteq> insert w (set ws)" by (rule set_update_subset_insert)
  ultimately show ?thesis using assms(1,4) by (auto simp: sf_ok_def)
qed

text \<open>The first section of a call, case by case.\<close>

lemma goc_enter_cases:
  assumes inv: "cache_inv h c" and g: "goc_enter h k ttl c = (r, c')"
  obtains "cache_inv h c'" "sf_kept c c'" "\<forall>f. r \<noteq> Inr (Lead f)" "\<forall>f. r = Inr (Wait f) \<longrightarrow> registry h c k = Some f"
  | "cache_inv h c'" "r = Inr (Lead (length (c_flights c)))" "registry h c k = None"
    "c_flights c' = c_flights c @ [flight_init]"
    "\<forall>k'. registry h c' k' = (if k' = k then Some (length (c_flights c)) else registry h c k')"
proof -
  obtain v c1 where rd: "read_section h True k c = (v, c1)" by fastforce
  have inv1: "cache_inv h c1" using read_section_inv [OF inv, of True k] rd by simp
  have "sf_kept c (snd (read_section h True k c))" by (simp add: read_section_def)
  then have kept: "sf_kept c c1" using rd by simp
  let ?i = "shard_for h c1 k" and ?sh = "c_shards c1 ! shard_for h c1 k"
  have reg: "dict_get (sh_singleflight ?sh) k = registry h c k"
    using registry_kept [OF kept, of h k] by (simp add: registry_def)
  show thesis
  proof (cases "require_not_closed c = None \<and> validate_explicit_ttl ttl = None \<and> v = None \<and> registry h c k = None")
    case False
    then have "sf_kept c c' \<and> cache_inv h c' \<and> (\<forall>f. r \<noteq> Inr (Lead f)) \<and> (\<forall>f. r = Inr (Wait f) \<longrightarrow> registry h c k = Some f)"
      using g rd inv inv1 kept reg by (auto simp: goc_enter_def unless_closed_def Let_def split: option.splits)
    then show thesis by (elim conjE) (rule that(1))
  next
    case True
    let ?f = "length (c_flights c1)"
    let ?sh' = "?sh\<lparr>sh_singleflight := dict_set k ?f (sh_singleflight ?sh)\<rparr>"
    have r: "r = Inr (Lead ?f)" and c': "c' = (set_shard ?i ?sh' c1)\<lparr>c_flights := c_flights c1 @ [flight_init]\<rparr>"
      using g rd True reg by (auto simp: goc_enter_def unless_closed_def Let_def)
    have i: "?i < length (c_shards c1)" by (rule shard_for_less [OF inv1])
    have f: "?f = length (c_flights c)" using kept by (simp add: sf_kept_def)
    have ev: "shard_evolves {j. shard_for h c1 j = ?i} ?sh ?sh'"
      by (simp add: evolves_refl cache_inv_shard [OF inv1 i])
    show thesis
    proof (rule that(2))
      show "cache_inv h c'" unfolding c' using cache_inv_set_shard [OF inv1 i ev] by simp
      show "c_flights c' = c_flights c @ [flight_init]" using c' kept by (simp add: sf_kept_def)
      show "r = Inr (Lead (length (c_flights c)))" "registry h c k = None" using r f True by simp_all
      show "\<forall>k'. registry h c' k' = (if k' = k then Some (length (c_flights c)) else registry h c k')"
        using i registry_kept [OF kept, of h] unfolding c' f [symmetric]
        by (auto simp: registry_def shard_for_def nth_list_update)
    qed
  qed
qed

lemma sf_ok_leader:
  assumes "sf_ok h c ws" and "leader_of ws p f k"
  shows "f < length (c_flights c)" and "\<not> fl_event (c_flights c ! f)" and "fl_exception (c_flights c ! f) = None"
proof -
  have "caller_ok (c_flights c) (ws ! p)" and "leads (ws ! p) = Some (f, k)"
    using assms by (simp_all add: sf_ok_def leader_of_def)
  then show f: "f < length (c_flights c)" by (rule leader_flight)
  show ev: "\<not> fl_event (c_flights c ! f)" using assms f unfolding sf_ok_def by blast
  then show "fl_exception (c_flights c ! f) = None" using assms(1) f by (simp add: sf_ok_def)
qed

lemma sf_ok_unique: "sf_ok h c ws \<Longrightarrow> leader_of ws p f k \<Longrightarrow> leader_of ws q f k' \<Longrightarrow> p = q"
  unfolding sf_ok_def by blast

lemma sf_ok_lead:
  assumes ok: "sf_ok h c ws" and inv: "cache_inv h c'" and fls: "c_flights c' = c_flights c @ [flight_init]"
    and reg: "\<forall>k'. registry h c' k' = (if k' = k then Some (length (c_flights c)) else registry h c k')"
    and w: "leads w = Some (length (c_flights c), k)"
  shows "sf_ok h c' (ws @ [w])"
proof -
  let ?n = "length (c_flights c)"
  note small = sf_ok_leader(1) [OF ok]
  have "caller_ok (c_flights c') x" if "x \<in> set ws" for x
    using ok that unfolding sf_ok_def fls by (cases x rule: caller_cases) (auto simp: nth_append)
  moreover have "caller_ok (c_flights c') w" using w fls by (cases w) auto
  moreover have "fl_event (c_flights c' ! f) \<longleftrightarrow> \<not> (\<exists>p j. leader_of (ws @ [w]) p f j)" if "f < length (c_flights c')" for f
  proof (cases "f = ?n")
    case True
    then show ?thesis using fls w by (auto simp: leader_of_append flight_init_def)
  next
    case False
    then have "f < ?n" using that fls by simp
    then show ?thesis using ok fls w False by (auto simp: sf_ok_def leader_of_append nth_append)
  qed
  moreover have "p = q" if "leader_of (ws @ [w]) p f j" "leader_of (ws @ [w]) q f j'" for p q f j j'
    using that sf_ok_unique [OF ok] w small [of p f j] small [of q f j'] by (auto simp: leader_of_append)
  moreover have "\<exists>p. leader_of (ws @ [w]) p f j" if "registry h c' j = Some f" for j f
    using that reg w ok by (auto simp: sf_ok_def leader_of_append split: if_splits)
  moreover have "fl_exception (c_flights c' ! f) = None" if "f < length (c_flights c')" "\<not> fl_event (c_flights c' ! f)" for f
    using that ok fls by (cases "f = ?n") (auto simp: sf_ok_def flight_init_def nth_append)
  ultimately show ?thesis using inv unfolding sf_ok_def by (auto simp: fls)
qed

lemma resolve_flight_fields:
  assumes inv: "cache_inv h c"
  shows "c_flights (resolve_flight h k f upd c) = (c_flights c)[f := upd (c_flights c ! f)]"
    and "cache_inv h (resolve_flight h k f upd c)"
    and "registry h (resolve_flight h k f upd c) k' = (if k' = k then None else registry h c k')"
proof -
  let ?i = "shard_for h c k" and ?sh = "c_shards c ! shard_for h c k"
  let ?sh' = "?sh\<lparr>sh_singleflight := dict_pop k (sh_singleflight ?sh)\<rparr>"
  have i: "?i < length (c_shards c)" by (rule shard_for_less [OF inv])
  have ev: "shard_evolves {j. shard_for h c j = ?i} ?sh ?sh'" by (simp add: evolves_refl cache_inv_shard [OF inv i])
  show "c_flights (resolve_flight h k f upd c) = (c_flights c)[f := upd (c_flights c ! f)]"
    by (simp add: resolve_flight_def Let_def)
  show "cache_inv h (resolve_flight h k f upd c)"
    using cache_inv_set_shard [OF inv i ev] by (simp add: resolve_flight_def Let_def)
  show "registry h (resolve_flight h k f upd c) k' = (if k' = k then None else registry h c k')"
    using i by (auto simp: resolve_flight_def Let_def registry_def shard_for_def nth_list_update)
qed

lemma sf_ok_resolve:
  assumes ok: "sf_ok h c ws" and p: "p < length ws" "leads (ws ! p) = Some (f, k)"
    and upd: "flight_outcome (upd (c_flights c ! f)) = Some r"
  shows "sf_ok h (resolve_flight h k f upd c) (ws[p := Done (Some f) r])"
proof -
  let ?c' = "resolve_flight h k f upd c" and ?ws' = "ws[p := Done (Some f) r]"
  have inv: "cache_inv h c" using ok by (simp add: sf_ok_def)
  note R = resolve_flight_fields [OF inv, of k f upd]
  have lp: "leader_of ws p f k" using p by (simp add: leader_of_def)
  note L = sf_ok_leader [OF ok lp]
  have lead: "leader_of ?ws' q g j \<longleftrightarrow> leader_of ws q g j \<and> q \<noteq> p" for q g j
    using p(1) by (auto simp: leader_of_update)
  have only: "q = p" if "leader_of ws q f j" for q j by (rule sf_ok_unique [OF ok that lp])
  have ev: "fl_event (upd (c_flights c ! f))" using upd by (simp add: flight_outcome_def split: if_splits)
  have "caller_ok (c_flights ?c') x" if "x \<in> set ws" for x
  proof -
    have "caller_ok (c_flights c) x" using ok that by (simp add: sf_ok_def)
    moreover have "flight_outcome (c_flights c ! f) = None" using L(2) by (simp add: flight_outcome_def)
    ultimately show ?thesis using L(1) unfolding R(1) by (cases x rule: caller_cases) (auto simp: nth_list_update)
  qed
  moreover have "caller_ok (c_flights ?c') (Done (Some f) r)" using L(1) upd R(1) by simp
  ultimately have "\<forall>x \<in> set ?ws'. caller_ok (c_flights ?c') x"
    using set_update_subset_insert [of ws p "Done (Some f) r"] by blast
  moreover have "fl_event (c_flights ?c' ! g) \<longleftrightarrow> \<not> (\<exists>q j. leader_of ?ws' q g j)" if "g < length (c_flights ?c')" for g
  proof (cases "g = f")
    case True
    then show ?thesis using L(1) R(1) ev lead only by auto
  next
    case False
    have "g < length (c_flights c)" using that R(1) by simp
    then have "fl_event (c_flights c ! g) \<longleftrightarrow> \<not> (\<exists>q j. leader_of ws q g j)" using ok by (simp add: sf_ok_def)
    moreover have "q \<noteq> p" if "leader_of ws q g j" for q j using that False p by (auto simp: leader_of_def)
    then have "leader_of ?ws' q g j \<longleftrightarrow> leader_of ws q g j" for q j using lead by blast
    ultimately show ?thesis using False R(1) by simp
  qed
  moreover have "\<exists>q. leader_of ?ws' q g j" if "registry h ?c' j = Some g" for j g
  proof -
    have jk: "j \<noteq> k" and "registry h c j = Some g" using that R(3) by (auto split: if_splits)
    then obtain q where q: "leader_of ws q g j" using ok unfolding sf_ok_def by blast
    then have "q \<noteq> p" using jk p by (auto simp: leader_of_def)
    with q show ?thesis using lead by blast
  qed
  moreover have "q = q'" if "leader_of ?ws' q g j" "leader_of ?ws' q' g j'" for q q' g j j'
    using that sf_ok_unique [OF ok, of q g j q' j'] by (simp add: lead)
  moreover have "fl_exception (c_flights ?c' ! g) = None" if "g < length (c_flights ?c')" "\<not> fl_event (c_flights ?c' ! g)" for g
    using that ok ev R(1) by (cases "g = f") (auto simp: sf_ok_def)
  ultimately show ?thesis using R(2) unfolding sf_ok_def by blast
qed

lemma sf_step_inv:
  assumes inv: "sf_inv h s" and step: "sf_step h ok s s'"
  shows "sf_inv h s'"
proof -
  have ok: "sf_ok h (sf_cache s) (sf_callers s)" using inv by (simp add: sf_inv_def)
  then have ci: "cache_inv h (sf_cache s)" by (simp add: sf_ok_def)
  have callers: "caller_ok (c_flights (sf_cache s)) (sf_callers s ! p)" if "p < length (sf_callers s)" for p
    using ok that by (simp add: sf_ok_def)
  from step show ?thesis
  proof cases
    case (refused k ttl e c)
    from ci refused(2) show ?thesis
      by (cases rule: goc_enter_cases)
         (use ok refused in \<open>auto simp: sf_inv_def intro!: sf_ok_append sf_ok_cache [OF ok] sf_kept_less\<close>)
  next
    case (hit k ttl v c)
    from ci hit(2) show ?thesis
      by (cases rule: goc_enter_cases)
         (use ok hit in \<open>auto simp: sf_inv_def intro!: sf_ok_append sf_ok_cache [OF ok] sf_kept_less\<close>)
  next
    case (wait k ttl f c)
    from ci wait(2) show ?thesis
    proof (cases rule: goc_enter_cases)
      case 1
      then obtain p where "leader_of (sf_callers s) p f k" using ok unfolding sf_ok_def by blast
      then have "f < length (c_flights (sf_cache s))" using sf_ok_leader [OF ok] by blast
      then show ?thesis using 1 wait(1) by (auto simp: sf_inv_def sf_kept_def intro!: sf_ok_append sf_ok_cache [OF ok] sf_kept_less)
    qed simp
  next
    case (lead k ttl f c)
    from ci lead(2) show ?thesis
      by (cases rule: goc_enter_cases) (use ok lead in \<open>auto simp: sf_inv_def intro!: sf_ok_lead [OF ok]\<close>)
  next
    case (loaded p k ttl f v)
    then show ?thesis using callers [of p] by (auto simp: sf_inv_def intro!: sf_ok_move [OF ok])
  next
    case (load_failed p k ttl f e)
    then show ?thesis using callers [of p] by (auto simp: sf_inv_def intro!: sf_ok_move [OF ok])
  next
    case (stored p k ttl f v r c)
    have "sf_less (sf_cache s) c" using sf_kept_less [OF sf_kept_put, of "sf_cache s" h k v ttl] stored(4) by simp
    moreover have "cache_inv h c" using put_inv [OF ci, of k v ttl] stored(4) by simp
    ultimately have "sf_ok h c (sf_callers s)" and "c_flights c = c_flights (sf_cache s)"
      using sf_ok_cache [OF ok] by (auto simp: sf_less_def)
    then show ?thesis using stored(1-3) callers [of p] by (auto simp: sf_inv_def intro!: sf_ok_move)
  next
    case (store_failed p k ttl f v e c)
    have "sf_less (sf_cache s) c" using sf_kept_less [OF sf_kept_put, of "sf_cache s" h k v ttl] store_failed(4) by simp
    moreover have "cache_inv h c" using put_inv [OF ci, of k v ttl] store_failed(4) by simp
    ultimately have "sf_ok h c (sf_callers s)" and "c_flights c = c_flights (sf_cache s)"
      using sf_ok_cache [OF ok] by (auto simp: sf_less_def)
    then show ?thesis using store_failed(1-3) callers [of p] by (auto simp: sf_inv_def intro!: sf_ok_move)
  next
    case (publish p k f v)
    then have "leader_of (sf_callers s) p f k" by (simp add: leader_of_def)
    from sf_ok_leader(3) [OF ok this] publish show ?thesis
      using sf_ok_resolve [OF ok publish(2), of f k "\<lambda>fl. fl\<lparr>fl_result := Some v, fl_event := True\<rparr>" "Inr (Some v)"]
      by (simp add: sf_inv_def publish_flight_def flight_outcome_def)
  next
    case (failed p k f e)
    then show ?thesis
      using sf_ok_resolve [OF ok failed(2), of f k "\<lambda>fl. fl\<lparr>fl_exception := Some e, fl_event := True\<rparr>" "Inl e"]
      by (simp add: sf_inv_def fail_flight_locked_def flight_outcome_def)
  next
    case (wake p k f r)
    then show ?thesis using callers [of p] by (auto simp: sf_inv_def intro!: sf_ok_move [OF ok])
  next
    case (other a)
    then show ?thesis
      using sf_ok_cache [OF ok run_action_inv [OF ci] run_action_less] by (simp add: sf_inv_def)
  qed
qed

lemma sf_init_inv:
  assumes "sf_init s"
  shows "sf_inv h s"
proof -
  obtain c where c: "sf_cache s = c" by blast
  from assms obtain cfg source clock where ws: "sf_callers s = []" and cfg: "config_post_init cfg = Inr cfg"
    and init: "cache_init (Some cfg) init_args_unset source clock = Inr c"
    unfolding sf_init_def c by blast
  have inv: "cache_inv h c" using init_run_inv [OF cfg init, of h "[]"] by (simp add: run_def)
  have fl: "c_flights c = []" and sh: "make_shards cfg 0 (shard_capacities (cfg_capacity cfg) (cfg_shard_count cfg)) = Inr (c_shards c)"
    using init by (auto simp: cache_init_def init_config_def split: sum.splits if_splits)
  have "registry h c k = None" for k
    using make_shards_fresh [OF sh nth_mem [OF shard_for_less [OF inv, of k]]] by (simp add: registry_def)
  with fl inv ws show ?thesis by (simp add: sf_inv_def sf_ok_def c leader_of_def)
qed

interpretation sf: step_invariant sf_init "sf_step h ok" "sf_inv h" for h ok
  by unfold_locales (auto intro: sf_init_inv sf_step_inv)

section \<open>Executable schedules\<close>

text \<open>
  A schedule names, step by step, which caller moves: a new call, a loader's outcome, the
  next section of a caller, or another operation. \<open>None\<close> when the move is not enabled.
\<close>

datatype ('k, 'v) sf_choice = Call 'k ttl_arg | Loader nat "'v loader" | Continue nat | Other "('k, 'v) action"

definition entered_caller :: "'k \<Rightarrow> ttl_arg \<Rightarrow> cache_error + 'v entered \<Rightarrow> ('k, 'v) caller" where
  "entered_caller k ttl r =
     (case r of Inl e \<Rightarrow> Done None (Inl e) | Inr (Found v) \<Rightarrow> Done None (Inr (Some v))
      | Inr (Wait f) \<Rightarrow> Waiting k f | Inr (Lead f) \<Rightarrow> Leading k ttl f)"

definition continue_caller ::
  "('k \<Rightarrow> nat) \<Rightarrow> ('k, 'v) caller \<Rightarrow> ('k, 'v) cache \<Rightarrow> (('k, 'v) caller \<times> ('k, 'v) cache) option" where
  "continue_caller h w c =
     (case w of
        Storing k ttl f v \<Rightarrow>
          (case cache_put h k v ttl c of (r, c1) \<Rightarrow>
             Some (if took_effect r then Publishing k f v else Failing k f (projl r), c1))
      | Publishing k f v \<Rightarrow> Some (Done (Some f) (Inr (Some v)), publish_flight h k f v c)
      | Failing k f e \<Rightarrow> Some (Done (Some f) (Inl e), fail_flight_locked h k f e c)
      | Waiting k f \<Rightarrow> map_option (\<lambda>r. (Done (Some f) r, c)) (flight_outcome (c_flights c ! f))
      | _ \<Rightarrow> None)"

fun sf_move :: "('k \<Rightarrow> nat) \<Rightarrow> ('k, 'v) sf_choice \<Rightarrow> ('k, 'v) sf_system \<Rightarrow> ('k, 'v) sf_system option" where
  "sf_move h (Call k ttl) s =
     (case goc_enter h k ttl (sf_cache s) of (r, c) \<Rightarrow>
        Some (s\<lparr>sf_cache := c, sf_callers := sf_callers s @ [entered_caller k ttl r]\<rparr>))"
| "sf_move h (Loader p loader) s =
     (if p < length (sf_callers s)
      then (case sf_callers s ! p of
              Leading k ttl f \<Rightarrow> Some (s\<lparr>sf_callers := (sf_callers s)[p :=
                (case loader of Inr v \<Rightarrow> Storing k ttl f v | Inl e \<Rightarrow> Failing k f e)]\<rparr>)
            | _ \<Rightarrow> None)
      else None)"
| "sf_move h (Continue p) s =
     (if p < length (sf_callers s)
      then map_option (\<lambda>(w, c). s\<lparr>sf_cache := c, sf_callers := (sf_callers s)[p := w]\<rparr>)
             (continue_caller h (sf_callers s ! p) (sf_cache s))
      else None)"
| "sf_move h (Other a) s = Some (s\<lparr>sf_cache := run_action h a (sf_cache s)\<rparr>)"

fun sf_run :: "('k \<Rightarrow> nat) \<Rightarrow> ('k, 'v) sf_choice list \<Rightarrow> ('k, 'v) sf_system \<Rightarrow> ('k, 'v) sf_system option" where
  "sf_run h [] s = Some s"
| "sf_run h (m # ms) s = (case sf_move h m s of None \<Rightarrow> None | Some s' \<Rightarrow> sf_run h ms s')"

lemma sf_move_call: "sf_move h (Call k ttl) s = Some s' \<Longrightarrow> sf_step h ok s s'"
  using sf_step.intros(1-4) [of h k ttl s]
  by (auto simp: entered_caller_def split: prod.splits sum.splits entered.splits)

lemma sf_move_loader: "sf_move h (Loader p l) s = Some s' \<Longrightarrow> sf_step h ok s s'"
  using sf_step.loaded [of p s] sf_step.load_failed [of p s] by (auto split: if_splits caller.splits sum.splits)

lemma sf_move_continue:
  assumes "sf_move h (Continue p) s = Some s'"
  shows "sf_step h ok s s'"
proof -
  from assms obtain w c where p: "p < length (sf_callers s)"
    and w: "continue_caller h (sf_callers s ! p) (sf_cache s) = Some (w, c)"
    and s': "s' = s\<lparr>sf_cache := c, sf_callers := (sf_callers s)[p := w]\<rparr>" by (auto split: if_splits)
  show ?thesis
  proof (cases "sf_callers s ! p")
    case (Storing k ttl f v)
    obtain r c1 where put: "cache_put h k v ttl (sf_cache s) = (r, c1)" by fastforce
    show ?thesis
    proof (cases r)
      case (Inl e)
      then show ?thesis
        using Storing put w s' sf_step.stored [OF p Storing put] sf_step.store_failed [OF p Storing, of h e]
        by (auto simp: continue_caller_def took_effect_def split: if_splits)
    next
      case (Inr u)
      then show ?thesis using Storing put w s' sf_step.stored [OF p Storing put]
        by (auto simp: continue_caller_def took_effect_def)
    qed
  next
    case (Waiting k f)
    then show ?thesis using p w s' sf_step.wake [OF p Waiting] by (auto simp: continue_caller_def)
  qed (use p w s' sf_step.publish [OF p] sf_step.failed [OF p] in \<open>auto simp: continue_caller_def\<close>)
qed

lemma sf_run_steps:
  "sf_run h ms s = Some s' \<Longrightarrow> (\<And>a. Other a \<in> set ms \<Longrightarrow> ok a) \<Longrightarrow> (sf_step h ok)\<^sup>*\<^sup>* s s'"
proof (induction ms arbitrary: s)
  case (Cons m ms)
  then obtain s1 where m: "sf_move h m s = Some s1" and ms: "sf_run h ms s1 = Some s'" by (auto split: option.splits)
  have "sf_step h ok s s1"
    using m Cons.prems(2) sf_move_call sf_move_loader sf_move_continue sf_step.other [of ok] by (cases m) auto
  moreover have "(sf_step h ok)\<^sup>*\<^sup>* s1 s'" using Cons.IH [OF ms] Cons.prems(2) by simp
  ultimately show ?case by (rule converse_rtranclp_into_rtranclp)
qed simp

definition sf_sample :: "(nat, nat) sf_system" where
  "sf_sample = \<lparr>sf_cache = cache_only_sample, sf_callers = []\<rparr>"

lemma sf_sample_init: "sf_init sf_sample"
  using sample_config_valid(1) sample_cache_init(1) by (auto simp: sf_init_def sf_sample_def)

end
