(* ===== verification/Coalescing.thy ===== *)
theory Coalescing
  imports Single_Flight
begin

text \<open>
  What \<open>get_or_compute\<close> promises: the callers of a flight agree, no caller waits for
  ever, one loader runs per key as long as nothing invalidates the key, and the call by
  one thread returns the cached or the loaded value.
\<close>

section \<open>Agreement and progress\<close>

text \<open>
  C8: Every caller of a flight returns the same thing. In every interleaving of
  \<open>get_or_compute\<close> calls with each other and with any other operation, two callers that
  returned from the same flight, as its leader or as waiters, returned the same value or
  raised the same exception, which is what the flight records.
\<close>

theorem flight_callers_agree:
  assumes "sf_init s0" and "(sf_step h ok)\<^sup>*\<^sup>* s0 s"
    and "Done (Some f) r \<in> set (sf_callers s)" and "Done (Some f) r' \<in> set (sf_callers s)"
  shows "r = r' \<and> flight_outcome (c_flights (sf_cache s) ! f) = Some r"
proof -
  have all: "\<forall>w \<in> set (sf_callers s). caller_ok (c_flights (sf_cache s)) w"
    using sf.reachable_inv [OF assms(1,2)] by (simp add: sf_inv_def sf_ok_def)
  from bspec [OF all assms(3)] bspec [OF all assms(4)] show ?thesis by simp
qed

theorem flight_callers_agree_witness:
  "\<exists>s :: (nat, nat) sf_system. sf_callers s = [Done (Some 0) (Inr (Some 7)), Done (Some 0) (Inr (Some 7))] \<and>
     flight_outcome (c_flights (sf_cache s) ! 0) = Some (Inr (Some 7))"
proof -
  let ?ms = "[Call 1 TTL_UNSET, Call 1 TTL_UNSET, Loader 0 (Inr 7), Continue 0, Continue 0, Continue 1]"
  have "map_option sf_callers (sf_run id ?ms sf_sample) =
      Some [Done (Some 0) (Inr (Some 7)), Done (Some 0) (Inr (Some 7))]" by code_simp
  then obtain s where run: "sf_run id ?ms sf_sample = Some s"
    and ws: "sf_callers s = [Done (Some 0) (Inr (Some 7)), Done (Some 0) (Inr (Some 7))]" by auto
  have "(sf_step id (\<lambda>a. True))\<^sup>*\<^sup>* sf_sample s" by (rule sf_run_steps [OF run]) simp
  from flight_callers_agree [OF sf_sample_init this, of 0 "Inr (Some 7)" "Inr (Some 7)"] ws show ?thesis by auto
qed

text \<open>What the leader of a flight will return, from its loader's outcome and from that of its put.\<close>

definition store_result :: "'v \<Rightarrow> cache_error + unit \<Rightarrow> cache_error + 'v option" where
  "store_result v r = (if took_effect r then Inr (Some v) else Inl (projl r))"

definition load_result :: "('k \<Rightarrow> nat) \<Rightarrow> 'k \<Rightarrow> 'v loader \<Rightarrow> ttl_arg \<Rightarrow> ('k, 'v) cache \<Rightarrow> cache_error + 'v option" where
  "load_result h k loader ttl c =
     (case loader of Inl e \<Rightarrow> Inl e | Inr v \<Rightarrow> store_result v (fst (cache_put h k v ttl c)))"

text \<open>A leader reaches the end of its call by steps of its own.\<close>

definition finishes ::
  "('k \<Rightarrow> nat) \<Rightarrow> (('k, 'v) action \<Rightarrow> bool) \<Rightarrow> nat \<Rightarrow> nat \<Rightarrow> cache_error + 'v option \<Rightarrow> ('k, 'v) sf_system \<Rightarrow> bool" where
  "finishes h ok p f r s \<longleftrightarrow> (\<exists>s'. (sf_step h ok)\<^sup>*\<^sup>* s s' \<and> length (sf_callers s') = length (sf_callers s) \<and>
     sf_callers s' ! p = Done (Some f) r \<and> (\<forall>q. q \<noteq> p \<longrightarrow> sf_callers s' ! q = sf_callers s ! q))"

lemma finishes_step:
  assumes "sf_step h ok s s1" "finishes h ok p f r s1" and "sf_callers s1 = (sf_callers s)[p := w]"
  shows "finishes h ok p f r s"
  using assms unfolding finishes_def by (auto intro: converse_rtranclp_into_rtranclp)

lemma finishes_one:
  assumes "p < length (sf_callers s)" "sf_step h ok s s'" "sf_callers s' = (sf_callers s)[p := Done (Some f) r]"
  shows "finishes h ok p f r s"
  using assms by (auto simp: finishes_def)

lemma failing_finishes:
  assumes "p < length (sf_callers s)" "sf_callers s ! p = Failing k f e"
  shows "finishes h ok p f (Inl e) s"
  by (rule finishes_one [OF assms(1) sf_step.failed [OF assms]]) simp

lemma publishing_finishes:
  assumes "p < length (sf_callers s)" "sf_callers s ! p = Publishing k f v"
  shows "finishes h ok p f (Inr (Some v)) s"
  by (rule finishes_one [OF assms(1) sf_step.publish [OF assms]]) simp

lemma storing_finishes:
  assumes p: "p < length (sf_callers s)" "sf_callers s ! p = Storing k ttl f v"
  shows "finishes h ok p f (store_result v (fst (cache_put h k v ttl (sf_cache s)))) s"
proof -
  obtain r c where put: "cache_put h k v ttl (sf_cache s) = (r, c)" by fastforce
  show ?thesis
  proof (cases "took_effect r")
    case True
    let ?s = "s\<lparr>sf_cache := c, sf_callers := (sf_callers s)[p := Publishing k f v]\<rparr>"
    have "finishes h ok p f (Inr (Some v)) ?s" by (rule publishing_finishes) (use p in auto)
    from finishes_step [OF sf_step.stored [OF p put True] this] show ?thesis
      using put True by (simp add: store_result_def)
  next
    case False
    then obtain e where r: "r = Inl e" by (cases r) (auto simp: took_effect_def)
    let ?s = "s\<lparr>sf_cache := c, sf_callers := (sf_callers s)[p := Failing k f e]\<rparr>"
    have "finishes h ok p f (Inl e) ?s" by (rule failing_finishes) (use p in auto)
    from finishes_step [OF sf_step.store_failed [OF p put [unfolded r] False [unfolded r]] this] show ?thesis
      using put False r by (simp add: store_result_def)
  qed
qed

lemma leading_finishes:
  assumes p: "p < length (sf_callers s)" "sf_callers s ! p = Leading k ttl f"
  shows "finishes h ok p f (load_result h k loader ttl (sf_cache s)) s"
proof (cases loader)
  case (Inl e)
  have "finishes h ok p f (Inl e) (s\<lparr>sf_callers := (sf_callers s)[p := Failing k f e]\<rparr>)"
    by (rule failing_finishes) (use p in auto)
  from finishes_step [OF sf_step.load_failed [OF p] this] Inl show ?thesis by (simp add: load_result_def)
next
  case (Inr v)
  have "finishes h ok p f (load_result h k loader ttl (sf_cache s)) (s\<lparr>sf_callers := (sf_callers s)[p := Storing k ttl f v]\<rparr>)"
    using storing_finishes [of p "s\<lparr>sf_callers := (sf_callers s)[p := Storing k ttl f v]\<rparr>" k ttl f v h ok] p Inr
    by (simp add: load_result_def)
  from finishes_step [OF sf_step.loaded [OF p] this] show ?thesis by simp
qed

lemma leader_finishes:
  fixes loader :: "'v loader"
  assumes "leader_of (sf_callers s) q f j"
  shows "\<exists>r. finishes h ok q f r s \<and>
    (\<forall>j ttl. sf_callers s ! q = Leading j ttl f \<longrightarrow> r = load_result h j loader ttl (sf_cache s))"
  using assms failing_finishes [of q s] publishing_finishes [of q s] storing_finishes [of q s] leading_finishes [of q s]
  unfolding leader_of_def by (cases "sf_callers s ! q") fastforce+

text \<open>
  C9: No caller is left waiting. In every reachable state, the flight a caller waits for is
  complete or has exactly one leader, and there is a run of leader and waiter steps after
  which the waiter has returned from that flight. Whatever a leader's loader does is
  possible in that run: its exception, or its value unless the put fails, is what the
  waiter gets.
\<close>

theorem waiters_are_released:
  fixes loader :: "'v loader"
  assumes init: "sf_init s0" and steps: "(sf_step h ok)\<^sup>*\<^sup>* s0 s"
    and p: "p < length (sf_callers s)" "sf_callers s ! p = Waiting k f"
  shows "(fl_event (c_flights (sf_cache s) ! f) \<or> (\<exists>!q. \<exists>j. leader_of (sf_callers s) q f j)) \<and>
    (\<exists>s' r. (sf_step h ok)\<^sup>*\<^sup>* s s' \<and> sf_callers s' ! p = Done (Some f) r \<and>
      (\<forall>q j ttl. q < length (sf_callers s) \<and> sf_callers s ! q = Leading j ttl f \<longrightarrow>
         r = load_result h j loader ttl (sf_cache s)))"
proof -
  have ok: "sf_ok h (sf_cache s) (sf_callers s)" using sf.reachable_inv [OF init steps] by (simp add: sf_inv_def)
  have "caller_ok (c_flights (sf_cache s)) (sf_callers s ! p)" using ok p(1) by (simp add: sf_ok_def)
  then have f: "f < length (c_flights (sf_cache s))" using p(2) by simp
  show ?thesis
  proof (cases "fl_event (c_flights (sf_cache s) ! f)")
    case True
    then obtain r where "flight_outcome (c_flights (sf_cache s) ! f) = Some r" by (simp add: flight_outcome_def)
    note woken = sf_step.wake [OF p this]
    have none: "\<not> leader_of (sf_callers s) q f j" for q j using sf_ok_leader(2) [OF ok] True by blast
    have "sf_callers s ! q \<noteq> Leading j ttl f" if "q < length (sf_callers s)" for q j ttl
      using that none [of q j] by (auto simp: leader_of_def)
    with True woken p(1) show ?thesis by (intro conjI exI [where x = r] exI) (auto intro!: r_into_rtranclp)
  next
    case False
    then obtain q j where q: "leader_of (sf_callers s) q f j" using ok f unfolding sf_ok_def by blast
    note only = sf_ok_unique [OF ok _ q]
    obtain r where r: "finishes h ok q f r s"
      and res: "\<forall>j ttl. sf_callers s ! q = Leading j ttl f \<longrightarrow> r = load_result h j loader ttl (sf_cache s)"
      using leader_finishes [OF q, of h ok loader] by (elim exE conjE)
    then obtain s1 where s1: "(sf_step h ok)\<^sup>*\<^sup>* s s1" "length (sf_callers s1) = length (sf_callers s)"
      "sf_callers s1 ! q = Done (Some f) r" "\<forall>q'. q' \<noteq> q \<longrightarrow> sf_callers s1 ! q' = sf_callers s ! q'"
      by (auto simp: finishes_def)
    have qp: "q \<noteq> p" "q < length (sf_callers s)" using q p by (auto simp: leader_of_def)
    have "caller_ok (c_flights (sf_cache s1)) (sf_callers s1 ! q)"
      using sf.reachable_inv [OF init rtranclp_trans [OF steps s1(1)]] s1(2) qp(2) by (simp add: sf_inv_def sf_ok_def)
    then have out: "flight_outcome (c_flights (sf_cache s1) ! f) = Some r" using s1(3) by simp
    have "sf_callers s1 ! p = Waiting k f" using s1(4) p(2) qp(1) by simp
    from rtranclp.rtrancl_into_rtrancl [OF s1(1) sf_step.wake [OF _ this out]] p(1) s1(2)
    obtain s' where run: "(sf_step h ok)\<^sup>*\<^sup>* s s'" "sf_callers s' ! p = Done (Some f) r" by fastforce
    have same: "q' = q" if "q' < length (sf_callers s)" "sf_callers s ! q' = Leading j' ttl f" for q' j' ttl
      using only [of q' j'] that by (simp add: leader_of_def)
    have "\<forall>q' j ttl. q' < length (sf_callers s) \<and> sf_callers s ! q' = Leading j ttl f \<longrightarrow>
        r = load_result h j loader ttl (sf_cache s)"
    proof (intro allI impI, elim conjE)
      fix q' j' ttl assume a: "q' < length (sf_callers s)" "sf_callers s ! q' = Leading j' ttl f"
      with same [OF a] res show "r = load_result h j' loader ttl (sf_cache s)" by simp
    qed
    with run have goal: "\<exists>s' r. (sf_step h ok)\<^sup>*\<^sup>* s s' \<and> sf_callers s' ! p = Done (Some f) r \<and>
      (\<forall>q j ttl. q < length (sf_callers s) \<and> sf_callers s ! q = Leading j ttl f \<longrightarrow>
         r = load_result h j loader ttl (sf_cache s))"
      by - (rule exI [of _ s'], rule exI [of _ r], intro conjI)
    have "\<exists>!q. \<exists>j. leader_of (sf_callers s) q f j"
    proof (rule ex1I [of _ q])
      show "\<exists>j. leader_of (sf_callers s) q f j" using q by (rule exI)
      show "q' = q" if "\<exists>j. leader_of (sf_callers s) q' f j" for q' using that only by (elim exE)
    qed
    with goal show ?thesis by (intro conjI disjI2)
  qed
qed

theorem waiters_are_released_witness:
  "\<exists>(s :: (nat, nat) sf_system) s'. sf_callers s = [Leading 1 TTL_UNSET 0, Waiting 1 0] \<and>
     (sf_step id (\<lambda>a. True))\<^sup>*\<^sup>* s s' \<and> sf_callers s' ! 1 = Done (Some 0) (Inl ValueError)"
proof -
  let ?ms = "[Call 1 TTL_UNSET, Call 1 TTL_UNSET] :: (nat, nat) sf_choice list"
  have "map_option sf_callers (sf_run id ?ms sf_sample) = Some [Leading 1 TTL_UNSET 0, Waiting 1 0]" by code_simp
  then obtain s where run: "sf_run id ?ms sf_sample = Some s"
    and ws: "sf_callers s = [Leading 1 TTL_UNSET 0, Waiting 1 0]" by auto
  have "(sf_step id (\<lambda>a. True))\<^sup>*\<^sup>* sf_sample s" by (rule sf_run_steps [OF run]) simp
  from waiters_are_released [OF sf_sample_init this, of 1 1 0 "Inl ValueError"] ws
  obtain s' r where "(sf_step id (\<lambda>a. True))\<^sup>*\<^sup>* s s'" "sf_callers s' ! 1 = Done (Some 0) r"
    "r = load_result id 1 (Inl ValueError) TTL_UNSET (sf_cache s)" by fastforce
  with ws show ?thesis by (auto simp: load_result_def)
qed

section \<open>One loader per key\<close>

text \<open>As long as nothing drops a flight, every leader's flight is the registered one.\<close>

definition led_registered :: "('k \<Rightarrow> nat) \<Rightarrow> ('k, 'v) sf_system \<Rightarrow> bool" where
  "led_registered h s \<longleftrightarrow> sf_inv h s \<and>
     (\<forall>p f k. leader_of (sf_callers s) p f k \<longrightarrow> registry h (sf_cache s) k = Some f)"

lemma led_registered_step:
  assumes led: "led_registered h s" and step: "sf_step h keeps_flights s s'"
  shows "led_registered h s'"
proof -
  have ok: "sf_ok h (sf_cache s) (sf_callers s)" using led by (simp add: led_registered_def sf_inv_def)
  then have ci: "cache_inv h (sf_cache s)" by (simp add: sf_ok_def)
  have reg: "registry h (sf_cache s) k = Some f" if "leader_of (sf_callers s) p f k" for p f k
    using led that unfolding led_registered_def by blast
  have move: "registry h c k = Some f"
    if "sf_kept (sf_cache s) c" "p < length (sf_callers s)" "leads w = leads (sf_callers s ! p) \<or> leads w = None"
      "leader_of ((sf_callers s)[p := w]) q f k" for c p w q f k
  proof -
    have "leader_of (sf_callers s) q f k" using that(2-4) by (cases "q = p") (auto simp: leader_of_def)
    then show ?thesis using reg registry_kept [OF that(1)] by simp
  qed
  have resolve: "registry h (resolve_flight h k f upd (sf_cache s)) j = Some g"
    if "p < length (sf_callers s)" "leads (sf_callers s ! p) = Some (f, k)"
      "leader_of ((sf_callers s)[p := Done (Some f) r]) q g j" for p k f upd r q g j
  proof -
    have q: "leader_of (sf_callers s) q g j" "q \<noteq> p" using that by (auto simp: leader_of_update split: if_splits)
    have p: "leader_of (sf_callers s) p f k" using that by (simp add: leader_of_def)
    have "j \<noteq> k" using reg [OF q(1)] reg [OF p] q(2) sf_ok_unique [OF ok q(1)] p by auto
    then show ?thesis using reg [OF q(1)] resolve_flight_fields(3) [OF ci] by simp
  qed
  have "\<forall>p f k. leader_of (sf_callers s') p f k \<longrightarrow> registry h (sf_cache s') k = Some f"
    using step
  proof cases
    case (refused k ttl e c)
    from ci refused(2) show ?thesis
      by (cases rule: goc_enter_cases) (use refused(1) reg in \<open>auto simp: leader_of_append registry_kept\<close>)
  next
    case (hit k ttl v c)
    from ci hit(2) show ?thesis
      by (cases rule: goc_enter_cases) (use hit(1) reg in \<open>auto simp: leader_of_append registry_kept\<close>)
  next
    case (wait k ttl f c)
    from ci wait(2) show ?thesis
      by (cases rule: goc_enter_cases) (use wait(1) reg in \<open>auto simp: leader_of_append registry_kept\<close>)
  next
    case (lead k ttl f c)
    from ci lead(2) show ?thesis
      by (cases rule: goc_enter_cases) (use lead(1) reg in \<open>fastforce simp: leader_of_append\<close>)+
  next
    case (stored p k ttl f v r c)
    have "sf_kept (sf_cache s) c" using sf_kept_put [of "sf_cache s" h k v ttl] stored(4) by simp
    from move [OF this stored(2), of "Publishing k f v"] stored(1,3) show ?thesis by simp
  next
    case (store_failed p k ttl f v e c)
    have "sf_kept (sf_cache s) c" using sf_kept_put [of "sf_cache s" h k v ttl] store_failed(4) by simp
    from move [OF this store_failed(2), of "Failing k f e"] store_failed(1,3) show ?thesis by simp
  next
    case (other a)
    then show ?thesis using reg registry_kept [OF run_action_kept, of a] by simp
  next
    case (loaded p k ttl f v)
    with move [OF sf_kept_irrelevant(1) loaded(2), of "Storing k ttl f v"] show ?thesis by simp
  next
    case (load_failed p k ttl f e)
    with move [OF sf_kept_irrelevant(1) load_failed(2), of "Failing k f e"] show ?thesis by simp
  next
    case (wake p k f r)
    with move [OF sf_kept_irrelevant(1) wake(2), of "Done (Some f) r"] show ?thesis by simp
  qed (use resolve in \<open>simp_all add: publish_flight_def fail_flight_locked_def\<close>)
  then show ?thesis using led sf_step_inv [OF _ step] by (simp add: led_registered_def)
qed

lemma led_registered_init: "sf_init s \<Longrightarrow> led_registered h s"
  using sf_init_inv [of s h] by (auto simp: led_registered_def sf_init_def leader_of_def)

interpretation led: step_invariant sf_init "sf_step h keeps_flights" "led_registered h" for h
  by unfold_locales (auto intro: led_registered_init led_registered_step)

text \<open>
  C10: Concurrent misses of a key share one load. In every interleaving without
  \<open>delete\<close> and \<open>clear\<close> (with any other operation, expiry and eviction of the key
  included), no two callers are computing the same key at the same time.
\<close>

theorem one_loader_per_key:
  assumes "sf_init s0" and "(sf_step h keeps_flights)\<^sup>*\<^sup>* s0 s"
    and "leader_of (sf_callers s) p f k" and "leader_of (sf_callers s) q g k"
  shows "p = q"
proof -
  have led: "led_registered h s" by (rule led.reachable_inv [OF assms(1,2)])
  then have "registry h (sf_cache s) k = Some f" "registry h (sf_cache s) k = Some g"
    using assms(3,4) unfolding led_registered_def by blast+
  then have "f = g" by simp
  moreover have "sf_ok h (sf_cache s) (sf_callers s)" using led by (simp add: led_registered_def sf_inv_def)
  ultimately show ?thesis using sf_ok_unique [OF _ assms(3)] assms(4) by simp
qed

theorem one_loader_per_key_witness:
  "\<exists>s :: (nat, nat) sf_system. sf_callers s = [Leading 1 TTL_UNSET 0, Waiting 1 0, Leading 2 TTL_UNSET 1] \<and>
     (\<forall>q < 3. leads (sf_callers s ! q) = Some (0, 1) \<longrightarrow> q = 0)"
proof -
  let ?ms = "[Call 1 TTL_UNSET, Call 1 TTL_UNSET, Call 2 TTL_UNSET] :: (nat, nat) sf_choice list"
  have "map_option sf_callers (sf_run id ?ms sf_sample) = Some [Leading 1 TTL_UNSET 0, Waiting 1 0, Leading 2 TTL_UNSET 1]"
    by code_simp
  then obtain s where run: "sf_run id ?ms sf_sample = Some s"
    and ws: "sf_callers s = [Leading 1 TTL_UNSET 0, Waiting 1 0, Leading 2 TTL_UNSET 1]" by auto
  have "(sf_step id keeps_flights)\<^sup>*\<^sup>* sf_sample s" by (rule sf_run_steps [OF run]) simp
  from one_loader_per_key [OF sf_sample_init this, of _ 0 1 0 0] ws show ?thesis
    by (intro exI [of _ s]) (auto simp: leader_of_def)
qed

text \<open>
  C25: A leader that fails drops the flight registered for its key even when that is not its
  own. After a \<open>delete\<close> a second caller leads a new flight for the key; when the first
  loader then raises, the second flight is unregistered while its loader runs, and a third
  caller starts a further load: two loaders run for the key although nothing invalidated
  it since the second one started.
\<close>

theorem failed_leader_unregisters_other_flight:
  "\<exists>s1 s2 :: (nat, nat) sf_system. (sf_step id (\<lambda>a. True))\<^sup>*\<^sup>* sf_sample s1 \<and> (sf_step id keeps_flights)\<^sup>*\<^sup>* s1 s2 \<and>
     sf_callers s1 = [Failing 1 0 ValueError, Leading 1 TTL_UNSET 1] \<and> registry id (sf_cache s1) 1 = Some 1 \<and>
     sf_callers s2 = [Done (Some 0) (Inl ValueError), Leading 1 TTL_UNSET 1, Leading 1 TTL_UNSET 2]"
proof -
  let ?m1 = "[Call 1 TTL_UNSET, Other (Delete 1), Call 1 TTL_UNSET, Loader 0 (Inl ValueError)] :: (nat, nat) sf_choice list"
  let ?m2 = "[Continue 0, Call 1 TTL_UNSET] :: (nat, nat) sf_choice list"
  have "map_option (\<lambda>s. (sf_callers s, registry id (sf_cache s) 1, map_option sf_callers (sf_run id ?m2 s))) (sf_run id ?m1 sf_sample) =
      Some ([Failing 1 0 ValueError, Leading 1 TTL_UNSET 1], Some 1,
        Some [Done (Some 0) (Inl ValueError), Leading 1 TTL_UNSET 1, Leading 1 TTL_UNSET 2])" by code_simp
  then obtain s1 s2 where run: "sf_run id ?m1 sf_sample = Some s1" "sf_run id ?m2 s1 = Some s2"
    and ws: "sf_callers s1 = [Failing 1 0 ValueError, Leading 1 TTL_UNSET 1]" "registry id (sf_cache s1) 1 = Some 1"
      "sf_callers s2 = [Done (Some 0) (Inl ValueError), Leading 1 TTL_UNSET 1, Leading 1 TTL_UNSET 2]" by auto
  have "(sf_step id (\<lambda>a. True))\<^sup>*\<^sup>* sf_sample s1" by (rule sf_run_steps [OF run(1)]) simp
  moreover have "(sf_step id keeps_flights)\<^sup>*\<^sup>* s1 s2" by (rule sf_run_steps [OF run(2)]) simp
  ultimately show ?thesis using ws by blast
qed

section \<open>The call by one thread\<close>

lemma run_sf_less: "sf_less c (run h acts c)"
proof (induction acts arbitrary: c)
  case (Cons a acts)
  from sf_less_trans [OF run_action_less [of c h a] Cons.IH] show ?case by (simp add: run_def)
qed (simp add: run_def sf_kept_less)

lemma read_section_value: "fst (read_section h t k c) = map_option ce_value (lookup h c k)"
  by (simp add: read_section_def on_shard_def case_prod_beta read_value_result lookup_def split: option.splits)

lemma goc_enter_open:
  assumes "c_state c \<notin> {CLOSED, CLOSING}" and "validate_explicit_ttl ttl = None"
  shows "case lookup h c k of
      Some e \<Rightarrow> \<exists>c1. goc_enter h k ttl c = (Inr (Found (ce_value e)), c1)
    | None \<Rightarrow> \<exists>x c1. goc_enter h k ttl c = (Inr x, c1) \<and> (\<forall>v. x \<noteq> Found v)"
proof -
  obtain v c1 where rd: "read_section h True k c = (v, c1)" by fastforce
  then have "v = map_option ce_value (lookup h c k)" using read_section_value [of h True k c] by simp
  with assms rd show ?thesis
    by (auto simp: goc_enter_def unless_closed_def require_not_closed_def Let_def split: option.splits)
qed

lemma goc_enter_miss:
  assumes "cache_inv h c" and "c_state c \<notin> {CLOSED, CLOSING}" and "validate_explicit_ttl ttl = None"
    and "lookup h c k = None" and "registry h c k = None"
  shows "\<exists>f c1. goc_enter h k ttl c = (Inr (Lead f), c1)"
proof -
  obtain x c1 where g: "goc_enter h k ttl c = (Inr x, c1)" and nf: "\<forall>v. x \<noteq> Found v"
    using goc_enter_open [OF assms(2,3), of h k] assms(4) by auto
  from assms(1) g have "\<forall>f. x \<noteq> Wait f" by (cases rule: goc_enter_cases) (use assms(5) in auto)
  with nf g show ?thesis by (cases x) auto
qed

lemma goc_store_result:
  assumes "cache_put h k v ttl c = (r, c')"
  shows "\<exists>upd. goc_store h k f v ttl c = (store_result v r, resolve_flight h k f upd c')"
proof (cases "took_effect r")
  case True
  then show ?thesis using assms
    by (cases r) (auto simp: goc_store_def store_result_def took_effect_def publish_flight_def)
next
  case False
  then show ?thesis using assms
    by (cases r) (auto simp: goc_store_def store_result_def took_effect_def fail_flight_locked_def)
qed



end
