(* ===== verification/Python_Text.thy ===== *)
theory Python_Text
  imports Prelude
begin

text \<open>
  The parts of Python's \<open>str\<close> the sources use: decimal numerals, \<open>join\<close>, \<open>ljust\<close>,
  \<open>startswith\<close>, \<open>split\<close> at the first separator, fixed-point formatting of floats and
  \<open>round\<close>. A \<^typ>\<open>string\<close> is a list of characters; floats are reals.
\<close>

section \<open>Numerals\<close>

definition digit :: "nat \<Rightarrow> char" where
  "digit d = char_of (48 + d)"

fun str_nat :: "nat \<Rightarrow> string" where
  "str_nat n = (if n < 10 then [digit n] else str_nat (n div 10) @ [digit (n mod 10)])"

declare str_nat.simps [simp del]

definition str_int :: "int \<Rightarrow> string" where
  "str_int z = (if z < 0 then ''-'' @ str_nat (nat (- z)) else str_nat (nat z))"

lemma digit_code: "d < 10 \<Longrightarrow> (of_char (digit d) :: nat) = 48 + d"
  by (simp add: digit_def)

text \<open>Reading a numeral back gives the number, so numerals of different numbers differ.\<close>

definition num_of :: "string \<Rightarrow> nat" where
  "num_of s = foldl (\<lambda>n c. 10 * n + (of_char c - 48)) 0 s"

lemma num_of_snoc: "num_of (s @ [c]) = 10 * num_of s + (of_char c - 48)"
  by (simp add: num_of_def)

lemma num_of_str_nat [simp]: "num_of (str_nat n) = n"
proof (induction n rule: str_nat.induct)
  case (1 n)
  show ?case
  proof (cases "n < 10")
    case True
    then show ?thesis by (simp add: str_nat.simps [of n] num_of_def digit_code)
  next
    case False
    then show ?thesis using 1 by (simp add: str_nat.simps [of n] num_of_snoc digit_code)
  qed
qed

lemma str_nat_inject [simp]: "str_nat m = str_nat n \<longleftrightarrow> m = n"
  by (metis num_of_str_nat)

lemma str_nat_digits: "c \<in> set (str_nat n) \<Longrightarrow> 48 \<le> (of_char c :: nat) \<and> (of_char c :: nat) \<le> 57"
proof (induction n rule: str_nat.induct)
  case (1 n)
  show ?case
    using 1 digit_code [of "n mod 10"] digit_code [of n] unfolding str_nat.simps [of n] by (auto split: if_splits)
qed

lemma str_nat_not_empty [simp]: "str_nat n \<noteq> []"
  by (simp add: str_nat.simps [of n])

lemma str_nat_no_minus: "str_nat m \<noteq> CHR ''-'' # s"
  using str_nat_digits [of "CHR ''-''" m] by (cases "str_nat m") auto

lemma str_int_inject [simp]: "str_int a = str_int b \<longleftrightarrow> a = b"
  using str_nat_no_minus [of "nat a" "str_nat (nat (- b))"] str_nat_no_minus [of "nat b" "str_nat (nat (- a))"]
  by (auto simp: str_int_def)

section \<open>Strings\<close>

fun str_join :: "string \<Rightarrow> string list \<Rightarrow> string" where
  "str_join sep [] = ''''"
| "str_join sep [s] = s"
| "str_join sep (s # t # ss) = s @ sep @ str_join sep (t # ss)"

definition ljust :: "nat \<Rightarrow> string \<Rightarrow> string" where
  "ljust width s = s @ replicate (width - length s) CHR '' ''"

fun starts_with :: "string \<Rightarrow> string \<Rightarrow> bool" where
  "starts_with [] s = True"
| "starts_with (c # cs) [] = False"
| "starts_with (c # cs) (d # ds) = (c = d \<and> starts_with cs ds)"

text \<open>\<open>s.split(sep, 1)[1]\<close> for a one-character separator that occurs in \<open>s\<close>.\<close>

fun split_rest :: "char \<Rightarrow> string \<Rightarrow> string" where
  "split_rest sep [] = []"
| "split_rest sep (c # cs) = (if c = sep then cs else split_rest sep cs)"

lemma starts_with_append [simp]: "starts_with s (s @ t)"
  by (induction s) auto

lemma split_rest_append: "sep \<notin> set s \<Longrightarrow> split_rest sep (s @ sep # t) = t"
  by (induction s) auto

lemma length_ljust [simp]: "length (ljust width s) = max width (length s)"
  by (simp add: ljust_def)

text \<open>Columns of a joined row of cells with the given widths.\<close>

lemma str_join_length:
  "map length cells = ws \<Longrightarrow> ws \<noteq> [] \<Longrightarrow> length (str_join sep cells) = sum_list ws + length sep * (length ws - 1)"
proof (induction sep cells arbitrary: ws rule: str_join.induct)
  case (3 sep s t ss)
  obtain ws' where ws: "ws = length s # ws'" "map length (t # ss) = ws'" using 3(2) by auto
  then have "length (str_join sep (t # ss)) = sum_list ws' + length sep * (length ws' - 1)" using 3(1) by auto
  moreover have "length ws' = Suc (length ss)" using ws(2) by auto
  ultimately show ?case using ws by simp
qed auto

lemma str_join_column:
  assumes "j < length cells"
  shows "take (length (cells ! j)) (drop (sum_list (map (\<lambda>c. length c + length sep) (take j cells))) (str_join sep cells)) = cells ! j"
  using assms
proof (induction sep cells arbitrary: j rule: str_join.induct)
  case (3 sep s t ss)
  then show ?case by (cases j) (simp_all add: add.commute)
qed auto

section \<open>Numbers as text\<close>

text \<open>\<open>round\<close> and the float formats round to nearest, ties to even.\<close>

definition round_half_even :: "time \<Rightarrow> int" where
  "round_half_even x =
     (let f = \<lfloor>x\<rfloor>; r = x - of_int f in
      if r < 1 / 2 then f else if 1 / 2 < r then f + 1 else if even f then f else f + 1)"

lemma round_half_even_near: "\<bar>of_int (round_half_even x) - x\<bar> \<le> 1 / 2"
proof -
  have "of_int \<lfloor>x\<rfloor> \<le> x" "x < of_int \<lfloor>x\<rfloor> + 1" by (simp_all add: floor_less_iff)
  then show ?thesis unfolding round_half_even_def Let_def by (auto simp: abs_le_iff)
qed

definition zero_pad :: "nat \<Rightarrow> string \<Rightarrow> string" where
  "zero_pad width s = replicate (width - length s) CHR ''0'' @ s"

text \<open>\<open>f"{x:.3f}"\<close>.\<close>

definition fixed3 :: "time \<Rightarrow> string" where
  "fixed3 x =
     (let m = nat (round_half_even (1000 * \<bar>x\<bar>)) in
      (if x < 0 then ''-'' else '''') @ str_nat (m div 1000) @ ''.'' @ zero_pad 3 (str_nat (m mod 1000)))"

text \<open>\<open>str(round(x, 4))\<close> of a non-negative ratio: trailing zeros are dropped, one digit is kept.\<close>

definition str_ratio4 :: "time \<Rightarrow> string" where
  "str_ratio4 x =
     (let m = nat (round_half_even (10000 * x));
          frac = zero_pad 4 (str_nat (m mod 10000));
          kept = rev (dropWhile (\<lambda>c. c = CHR ''0'') (rev frac))
      in str_nat (m div 10000) @ ''.'' @ (if kept = [] then ''0'' else kept))"

end
