(* ===== verification/Hashing.thy ===== *)
theory Hashing
  imports Python_Text Samples
begin

text \<open>
  \<open>concurrency/hashing.py\<close>: the canonical form of a key and the stable hash that routes it
  to a shard. A Python key is \<open>None\<close>, a bool, an int, a float, a str or a tuple of keys.
  Code points above 255, infinities and NaN are not modelled. The digest
  (\<open>hashlib.blake2b\<close> with an 8-byte result) and the text \<open>repr\<close> gives for a float are
  arguments.
\<close>

datatype pykey = KNone | KBool bool | KInt int | KFloat time | KStr string | KTuple "pykey list"

section \<open>Python's repr\<close>

definition hex_digit :: "nat \<Rightarrow> char" where
  "hex_digit n = char_of (if n < 10 then 48 + n else 87 + n)"

definition printable :: "char \<Rightarrow> bool" where
  "printable c \<longleftrightarrow> (let n = (of_char c :: nat) in 32 \<le> n \<and> n \<le> 126 \<or> 161 \<le> n \<and> n \<noteq> 173)"

definition repr_char :: "char \<Rightarrow> char \<Rightarrow> string" where
  "repr_char quote c =
     (if c = quote \<or> c = CHR 0x5C then [CHR 0x5C, c]
      else if c = CHR 0x09 then [CHR 0x5C, CHR ''t'']
      else if c = CHR 0x0A then [CHR 0x5C, CHR ''n'']
      else if c = CHR 0x0D then [CHR 0x5C, CHR ''r'']
      else if printable c then [c]
      else [CHR 0x5C, CHR ''x'', hex_digit (of_char c div 16), hex_digit (of_char c mod 16)])"

definition repr_quote :: "string \<Rightarrow> char" where
  "repr_quote s = (if CHR 0x27 \<in> set s \<and> CHR 0x22 \<notin> set s then CHR 0x22 else CHR 0x27)"

definition repr_str :: "string \<Rightarrow> string" where
  "repr_str s = repr_quote s # concat (map (repr_char (repr_quote s)) s) @ [repr_quote s]"

fun repr_key :: "(time \<Rightarrow> string) \<Rightarrow> pykey \<Rightarrow> string" where
  "repr_key rf KNone = ''None''"
| "repr_key rf (KBool b) = (if b then ''True'' else ''False'')"
| "repr_key rf (KInt n) = str_int n"
| "repr_key rf (KFloat x) = rf x"
| "repr_key rf (KStr s) = repr_str s"
| "repr_key rf (KTuple ks) =
     (case ks of
        [k] \<Rightarrow> ''('' @ repr_key rf k @ '',)''
      | _ \<Rightarrow> ''('' @ str_join '', '' (map (repr_key rf) ks) @ '')'')"

section \<open>The stable hash\<close>

datatype canonical = CInt int | CRepr string

definition canonical_key :: "(time \<Rightarrow> string) \<Rightarrow> pykey \<Rightarrow> canonical" where
  "canonical_key rf k =
     (case k of
        KBool b \<Rightarrow> CInt (of_bool b)
      | KInt n \<Rightarrow> CInt n
      | KFloat x \<Rightarrow> if x = of_int \<lfloor>x\<rfloor> then CInt \<lfloor>x\<rfloor> else CRepr (repr_key rf k)
      | _ \<Rightarrow> CRepr (repr_key rf k))"

text \<open>\<open>repr\<close> of the pair \<open>("int", n)\<close> or \<open>("repr", text)\<close>.\<close>

definition repr_canonical :: "canonical \<Rightarrow> string" where
  "repr_canonical c =
     (case c of
        CInt n \<Rightarrow> ''('' @ repr_str ''int'' @ '', '' @ str_int n @ '')''
      | CRepr s \<Rightarrow> ''('' @ repr_str ''repr'' @ '', '' @ repr_str s @ '')'')"

definition utf8 :: "char \<Rightarrow> nat list" where
  "utf8 c = (let n = of_char c in if n < 128 then [n] else [192 + n div 64, 128 + n mod 64])"

definition encode_key :: "(time \<Rightarrow> string) \<Rightarrow> pykey \<Rightarrow> nat list" where
  "encode_key rf k = concat (map utf8 (repr_canonical (canonical_key rf k)))"

definition from_bytes :: "nat list \<Rightarrow> nat" where
  "from_bytes bs = foldl (\<lambda>n b. 256 * n + b) 0 bs"

definition stable_hash :: "(time \<Rightarrow> string) \<Rightarrow> (nat list \<Rightarrow> nat list) \<Rightarrow> pykey \<Rightarrow> nat" where
  "stable_hash rf digest k = from_bytes (digest (encode_key rf k))"

section \<open>Python's equality of keys\<close>

fun key_number :: "pykey \<Rightarrow> time option" where
  "key_number (KBool b) = Some (of_bool b)"
| "key_number (KInt n) = Some (of_int n)"
| "key_number (KFloat x) = Some x"
| "key_number _ = None"

fun py_eq :: "pykey \<Rightarrow> pykey \<Rightarrow> bool" where
  "py_eq KNone b = (b = KNone)"
| "py_eq (KStr s) b = (b = KStr s)"
| "py_eq (KTuple xs) b = (case b of KTuple ys \<Rightarrow> list_all2 py_eq xs ys | _ \<Rightarrow> False)"
| "py_eq a b = (key_number a = key_number b)"

definition is_tuple :: "pykey \<Rightarrow> bool" where
  "is_tuple k \<longleftrightarrow> (\<exists>ks. k = KTuple ks)"

lemma canonical_number:
  "key_number a = Some x \<Longrightarrow> canonical_key rf a = (if x = of_int \<lfloor>x\<rfloor> then CInt \<lfloor>x\<rfloor> else CRepr (rf x))"
  by (cases a) (auto simp: canonical_key_def)

lemma py_eq_canonical:
  assumes "py_eq a b" and "\<not> is_tuple a"
  shows "canonical_key rf a = canonical_key rf b"
proof (cases "key_number a")
  case None
  then show ?thesis using assms by (cases a) (auto simp: is_tuple_def)
next
  case (Some x)
  then have "key_number b = Some x" using assms by (cases a) auto
  with Some show ?thesis by (simp add: canonical_number)
qed

lemma from_bytes_bound:
  assumes "\<forall>b \<in> set bs. b < 256"
  shows "from_bytes bs < 256 ^ length bs"
  using assms
proof (induction bs rule: rev_induct)
  case (snoc b bs)
  then have "from_bytes bs + 1 \<le> 256 ^ length bs" by simp
  then have "256 * (from_bytes bs + 1) \<le> 256 * 256 ^ length bs" by (rule mult_le_mono2)
  then show ?case using snoc.prems by (simp add: from_bytes_def)
qed (simp add: from_bytes_def)


definition sample_digest :: "nat list \<Rightarrow> nat list" where
  "sample_digest s = [0, 0, 0, 0, 0, 0, 0, foldl (\<lambda>n b. (31 * n + b) mod 256) 7 s]"


section \<open>Different keys\<close>

text \<open>The text that is digested determines the key up to Python equality.\<close>

lemma hex_digit_inject: "m < 16 \<Longrightarrow> n < 16 \<Longrightarrow> hex_digit m = hex_digit n \<Longrightarrow> m = n"
proof -
  assume "m < 16" "n < 16" "hex_digit m = hex_digit n"
  then have "(of_char (hex_digit m) :: nat) = of_char (hex_digit n)" by simp
  with \<open>m < 16\<close> \<open>n < 16\<close> show "m = n" by (auto simp: hex_digit_def split: if_splits)
qed

lemma repr_char_prefix:
  assumes "quote \<in> {CHR 0x27, CHR 0x22}" and "repr_char quote c @ x = repr_char quote d @ y"
  shows "c = d \<and> x = y"
proof -
  have hex: "c = d" if "hex_digit (of_char c div 16) = hex_digit (of_char d div 16)"
      "hex_digit (of_char c mod 16) = hex_digit (of_char d mod 16)"
  proof -
    have "(of_char a :: nat) div 16 < 16" for a using nat_of_char_less_256 [of a] by (simp add: less_mult_imp_div_less)
    then have "(of_char c :: nat) div 16 = of_char d div 16" "(of_char c :: nat) mod 16 = of_char d mod 16"
      using hex_digit_inject that by simp_all
    then have "(of_char c :: nat) = of_char d" by (metis div_mult_mod_eq)
    then show ?thesis by simp
  qed
  show ?thesis using assms hex unfolding repr_char_def by (auto split: if_splits)
qed

lemma repr_body_inject:
  assumes "quote \<in> {CHR 0x27, CHR 0x22}"
  shows "concat (map (repr_char quote) s) = concat (map (repr_char quote) t) \<Longrightarrow> s = t"
proof (induction s arbitrary: t)
  case Nil
  then show ?case by (cases t) (auto simp: repr_char_def split: if_splits)
next
  case (Cons c s)
  then obtain d t' where "t = d # t'" by (cases t) (auto simp: repr_char_def split: if_splits)
  with Cons repr_char_prefix [OF assms, of c "concat (map (repr_char quote) s)" d "concat (map (repr_char quote) t')"]
  show ?case by auto
qed

lemma repr_str_inject:
  assumes "repr_str s = repr_str t"
  shows "s = t"
proof (rule repr_body_inject)
  have q: "repr_quote s = repr_quote t" using assms by (simp add: repr_str_def)
  show "concat (map (repr_char (repr_quote s)) s) = concat (map (repr_char (repr_quote s)) t)"
    using assms unfolding repr_str_def q by simp
  show "repr_quote s \<in> {CHR 0x27, CHR 0x22}" by (simp add: repr_quote_def)
qed

lemma utf8_prefix:
  assumes "utf8 c @ x = utf8 d @ y"
  shows "c = d \<and> x = y"
proof -
  have "(of_char c :: nat) = of_char d" if "(of_char c :: nat) div 64 = of_char d div 64" "(of_char c :: nat) mod 64 = of_char d mod 64"
    using that by (metis div_mult_mod_eq)
  then show ?thesis using assms by (auto simp: utf8_def Let_def split: if_splits)
qed

lemma utf8_inject: "concat (map utf8 s) = concat (map utf8 t) \<Longrightarrow> s = t"
proof (induction s arbitrary: t)
  case Nil
  then show ?case by (cases t) (auto simp: utf8_def Let_def split: if_splits)
next
  case (Cons c s)
  then obtain d t' where "t = d # t'" by (cases t) (auto simp: utf8_def Let_def split: if_splits)
  with Cons utf8_prefix [of c "concat (map utf8 s)" d "concat (map utf8 t')"] show ?case by auto
qed

text \<open>Keys whose text is modelled completely: neither a tuple nor a float with a fraction.\<close>

fun plain_key :: "pykey \<Rightarrow> bool" where
  "plain_key (KFloat x) \<longleftrightarrow> x = of_int \<lfloor>x\<rfloor>"
| "plain_key (KTuple ks) \<longleftrightarrow> False"
| "plain_key k \<longleftrightarrow> True"

lemma repr_str_starts: "repr_str s = q # r \<Longrightarrow> q = CHR 0x27 \<or> q = CHR 0x22"
  by (auto simp: repr_str_def repr_quote_def split: if_splits)

lemma repr_canonical_inject:
  assumes "repr_canonical a = repr_canonical b"
  shows "a = b"
proof -
  have tags: "repr_str ''int'' = [CHR 0x27] @ ''int'' @ [CHR 0x27]" "repr_str ''repr'' = [CHR 0x27] @ ''repr'' @ [CHR 0x27]"
    by code_simp+
  show ?thesis using assms repr_str_inject
    by (cases a; cases b) (auto simp: repr_canonical_def tags)
qed

lemma canonical_cases:
  assumes "plain_key k"
  obtains n where "canonical_key rf k = CInt n" "key_number k = Some (of_int n)"
  | "k = KNone" "canonical_key rf k = CRepr ''None''" | s where "k = KStr s" "canonical_key rf k = CRepr (repr_str s)"
  using assms by (cases k) (auto simp: canonical_key_def)

text \<open>
  C37: Keys that differ are told apart before the digest: for \<open>None\<close>, bools, ints, integral
  floats and strings, the bytes that are digested agree only if the keys are equal for
  Python, so two different keys share a hash only if the digest itself collides.
\<close>

theorem encoded_keys_differ:
  assumes "plain_key a" and "plain_key b" and "encode_key rf a = encode_key rf b"
  shows "py_eq a b"
proof -
  have "repr_canonical (canonical_key rf a) = repr_canonical (canonical_key rf b)"
    using utf8_inject assms(3) by (simp add: encode_key_def)
  then have eq: "canonical_key rf a = canonical_key rf b" by (rule repr_canonical_inject)
  have none: "repr_str s \<noteq> ''None''" for s using repr_str_starts [of s "CHR ''N''"] by auto
  from assms(1) show ?thesis
  proof (cases rule: canonical_cases [where rf = rf])
    case (1 n)
    from assms(2) eq 1 have "key_number b = Some (of_int n)" by (cases rule: canonical_cases [where rf = rf]) auto
    with 1 show ?thesis by (cases a) auto
  next
    case 2
    from assms(2) eq 2 none show ?thesis by (cases rule: canonical_cases [where rf = rf]) auto
  next
    case (3 s)
    from assms(2) eq 3 none [of s] repr_str_inject show ?thesis by (cases rule: canonical_cases [where rf = rf]) auto
  qed
qed

theorem encoded_keys_differ_witness:
  "encode_key (\<lambda>x. []) (KStr ''1'') \<noteq> encode_key (\<lambda>x. []) (KInt 1)"
  using encoded_keys_differ [of "KStr ''1''" "KInt 1" "\<lambda>x. []"] by auto

text \<open>
  C38: Equal tuples can be routed to different shards. \<open>(1,)\<close> and \<open>(True,)\<close> are equal keys
  for Python and for the dictionaries of a shard, but the canonical form does not reach
  inside a tuple: the bytes that are digested differ.
\<close>

theorem equal_tuples_hash_apart:
  "py_eq (KTuple [KInt 1]) (KTuple [KBool True]) \<and>
   encode_key rf (KTuple [KInt 1]) \<noteq> encode_key rf (KTuple [KBool True])"
proof -
  have "repr_key rf (KTuple [KInt 1]) = ''(1,)''" "repr_key rf (KTuple [KBool True]) = ''(True,)''"
    by (simp_all add: str_int_def str_nat.simps digit_def) code_simp
  then have "canonical_key rf (KTuple [KInt 1]) \<noteq> canonical_key rf (KTuple [KBool True])"
    by (simp add: canonical_key_def)
  then have "encode_key rf (KTuple [KInt 1]) \<noteq> encode_key rf (KTuple [KBool True])"
    using utf8_inject repr_canonical_inject by (fastforce simp: encode_key_def)
  then show ?thesis by simp
qed

end
