(* ===== verification/Cli_State.thy ===== *)
theory Cli_State
  imports Hashing Cache_Only
begin

text \<open>
  The state file of the command line: \<open>storage/serialization.py\<close> (\<open>read_json\<close>,
  \<open>write_json\<close>) and the loading and saving half of \<open>cli/commands/basic.py\<close>. A file is
  modelled by the JSON value it holds. Text conversions of the standard library are
  arguments: \<open>float_of\<close> reads a float from a string, as \<open>float(...)\<close> does.

  A key of the cache stands for its class under Python's \<open>==\<close>: the numeric key of a
  class with an integer value is that integer.
\<close>

datatype json =
    JNull
  | JBool bool
  | JInt int
  | JFloat time
  | JStr string
  | JList "json list"
  | JObj "(string \<times> json) list"

datatype state_file = Missing | Malformed | Holds json

section \<open>Reading and writing the file\<close>

definition read_json :: "state_file \<Rightarrow> cache_error + (string, json) dict" where
  "read_json f =
     (case f of
        Missing \<Rightarrow> Inr []
      | Malformed \<Rightarrow> Inl ValueError
      | Holds (JObj entries) \<Rightarrow> Inr entries
      | Holds _ \<Rightarrow> Inr [])"

definition write_json :: "(string, json) dict \<Rightarrow> state_file" where
  "write_json data = Holds (JObj data)"

section \<open>Keys\<close>

text \<open>A JSON value used as a key; lists and objects are not hashable.\<close>

definition json_key :: "json \<Rightarrow> cache_error + pykey" where
  "json_key j =
     (case j of
        JNull \<Rightarrow> Inr KNone
      | JBool b \<Rightarrow> Inr (KInt (of_bool b))
      | JInt n \<Rightarrow> Inr (KInt n)
      | JFloat x \<Rightarrow> Inr (if x = of_int \<lfloor>x\<rfloor> then KInt \<lfloor>x\<rfloor> else KFloat x)
      | JStr s \<Rightarrow> Inr (KStr s)
      | JList _ \<Rightarrow> Inl TypeError
      | JObj _ \<Rightarrow> Inl TypeError)"

fun key_json :: "pykey \<Rightarrow> json" where
  "key_json KNone = JNull"
| "key_json (KBool b) = JBool b"
| "key_json (KInt n) = JInt n"
| "key_json (KFloat x) = JFloat x"
| "key_json (KStr s) = JStr s"
| "key_json (KTuple ks) = JList (map key_json ks)"

section \<open>Saving\<close>

definition json_option :: "time option \<Rightarrow> json" where
  "json_option x = (case x of None \<Rightarrow> JNull | Some t \<Rightarrow> JFloat t)"

definition state_item :: "(pykey, json) entry_snapshot \<Rightarrow> json" where
  "state_item s =
     JObj [(''key'', key_json (es_key s)), (''value'', es_value s),
           (''ttl_remaining'', json_option (es_ttl_remaining s)), (''hit_count'', JInt (es_hit_count s))]"

definition saved_config :: "cache_config \<Rightarrow> json" where
  "saved_config cfg =
     JObj [(''capacity'', JInt (cfg_capacity cfg)), (''policy'', JStr (cfg_policy cfg)),
           (''shard_count'', JInt (cfg_shard_count cfg)), (''default_ttl'', json_option (cfg_default_ttl cfg))]"

definition save_cache_state :: "(pykey, json) cache \<Rightarrow> (state_file, (pykey, json) cache) outcome" where
  "save_cache_state c =
     (case cache_dump None c of
        (Inl e, c1) \<Rightarrow> (Inl e, c1)
      | (Inr snaps, c1) \<Rightarrow>
          (Inr (write_json [(''config'', saved_config (c_config c1)), (''entries'', JList (map state_item snaps))]), c1))"

section \<open>Loading\<close>

text \<open>What the command line prints to stderr about a state file or a configuration.\<close>

datatype notice =
    FlagsIgnored "string list"
  | SettingsIgnored
  | SavedConfigDiffers "string list"
  | MoreEntriesThanCapacity nat int
  | EntriesDropped nat int
  | LegacyTimestamps

record cli_args =
  a_config :: "(cache_error + cache_config) option"
  a_capacity :: int
  a_policy :: string
  a_shards :: int
  a_default_ttl :: "time option"

definition config_from_args :: "cli_args \<Rightarrow> cache_error + cache_config" where
  "config_from_args a =
     (case a_config a of
        Some loaded \<Rightarrow> loaded
      | None \<Rightarrow> config_post_init (default_config\<lparr>cfg_capacity := a_capacity a, cfg_policy := a_policy a,
                  cfg_shard_count := a_shards a, cfg_default_ttl := a_default_ttl a\<rparr>))"

definition warn_flag_mismatch :: "cli_args \<Rightarrow> cache_config \<Rightarrow> notice list" where
  "warn_flag_mismatch a cfg =
     (let mismatches =
        (if a_capacity a \<noteq> cfg_capacity cfg then [''--capacity''] else []) @
        (if a_policy a \<noteq> cfg_policy cfg then [''--policy''] else []) @
        (if a_shards a \<noteq> cfg_shard_count cfg then [''--shards''] else []) @
        (if a_default_ttl a \<noteq> cfg_default_ttl cfg then [''--default-ttl''] else [])
      in if a_config a = None \<or> mismatches = [] then [] else [FlagsIgnored mismatches])"

definition warn_ignored_settings :: "cache_config \<Rightarrow> notice list" where
  "warn_ignored_settings cfg =
     (if cfg_worker_count cfg \<le> 0 \<and> cfg_write_mode cfg = write_mode_value CACHE_ONLY then [] else [SettingsIgnored])"

fun json_number :: "json \<Rightarrow> time option" where
  "json_number (JBool b) = Some (of_bool b)"
| "json_number (JInt n) = Some (of_int n)"
| "json_number (JFloat x) = Some x"
| "json_number _ = None"

definition warn_saved_config :: "(string, json) dict \<Rightarrow> cache_config \<Rightarrow> notice list" where
  "warn_saved_config saved cfg =
     (let differs = (\<lambda>name same. case dict_get saved name of None \<Rightarrow> False | Some j \<Rightarrow> \<not> same j);
          mismatches =
            (if differs ''capacity'' (\<lambda>j. json_number j = Some (of_int (cfg_capacity cfg))) then [''capacity''] else []) @
            (if differs ''policy'' (\<lambda>j. j = JStr (cfg_policy cfg)) then [''policy''] else []) @
            (if differs ''shard_count'' (\<lambda>j. json_number j = Some (of_int (cfg_shard_count cfg)))
             then [''shard_count''] else []) @
            (if differs ''default_ttl'' (\<lambda>j. case cfg_default_ttl cfg of
                 None \<Rightarrow> j = JNull | Some t \<Rightarrow> json_number j = Some t) then [''default_ttl''] else [])
      in if mismatches = [] then [] else [SavedConfigDiffers mismatches])"

text \<open>\<open>float(raw)\<close> for a JSON value; \<open>None\<close> for its \<open>TypeError\<close> or \<open>ValueError\<close>.\<close>

definition to_float :: "(string \<Rightarrow> time option) \<Rightarrow> json \<Rightarrow> time option" where
  "to_float float_of j = (case j of JStr s \<Rightarrow> float_of s | _ \<Rightarrow> json_number j)"

text \<open>The TTL of a saved item, \<open>None\<close> to skip it, and whether it uses a legacy timestamp.\<close>

definition ttl_from_state_item ::
  "(string \<Rightarrow> time option) \<Rightarrow> time \<Rightarrow> (string, json) dict \<Rightarrow> ttl_arg option \<times> bool" where
  "ttl_from_state_item float_of wall_now item =
     (case dict_get item ''ttl_remaining'' of
        Some JNull \<Rightarrow> (Some TTL_NONE, False)
      | Some raw \<Rightarrow>
          (case to_float float_of raw of
             None \<Rightarrow> (None, False)
           | Some remaining \<Rightarrow> (if remaining \<le> 0 then None else Some (TTL_SECONDS remaining), False))
      | None \<Rightarrow>
          (case dict_get item ''expires_wall'' of
             None \<Rightarrow> (Some TTL_NONE, False)
           | Some JNull \<Rightarrow> (Some TTL_NONE, False)
           | Some raw \<Rightarrow>
               (case to_float float_of raw of
                  None \<Rightarrow> (None, True)
                | Some expires \<Rightarrow>
                    (if expires - wall_now \<le> 0 then None else Some (TTL_SECONDS (expires - wall_now)), True))))"

text \<open>\<open>state.get("entries", [])\<close> filtered; iterating over a number or \<open>null\<close> raises.\<close>

definition state_items :: "(string, json) dict \<Rightarrow> cache_error + (string, json) dict list" where
  "state_items state =
     (case dict_get state ''entries'' of
        None \<Rightarrow> Inr []
      | Some (JList js) \<Rightarrow>
          Inr (concat (map (\<lambda>j. case j of
                 JObj item \<Rightarrow> (if dict_get item ''key'' \<noteq> None then [item] else []) | _ \<Rightarrow> []) js))
      | Some (JObj _) \<Rightarrow> Inr []
      | Some (JStr _) \<Rightarrow> Inr []
      | Some _ \<Rightarrow> Inl TypeError)"

definition json_hits :: "json option \<Rightarrow> int" where
  "json_hits j = (case j of Some (JInt n) \<Rightarrow> n | Some (JBool b) \<Rightarrow> of_bool b | _ \<Rightarrow> 0)"

definition load_item ::
  "(pykey \<Rightarrow> nat) \<Rightarrow> (string, json) dict \<Rightarrow> ttl_arg \<Rightarrow> (pykey, json) cache \<Rightarrow> (unit, (pykey, json) cache) outcome" where
  "load_item h item ttl c =
     (case json_key (the (dict_get item ''key'')) of
        Inl e \<Rightarrow> (Inl e, c)
      | Inr k \<Rightarrow>
          (case cache_put h k (arg_or (dict_get item ''value'') JNull) ttl c of
             (Inl e, c1) \<Rightarrow> (Inl e, c1)
           | (Inr u, c1) \<Rightarrow>
               (if 0 < json_hits (dict_get item ''hit_count'')
                then restore_entry_metadata h k (json_hits (dict_get item ''hit_count'')) c1
                else (Inr (), c1))))"

text \<open>The loop over the items; \<open>legacy\<close> is the global that limits the notice to one.\<close>

fun load_items ::
  "(pykey \<Rightarrow> nat) \<Rightarrow> (string \<Rightarrow> time option) \<Rightarrow> time \<Rightarrow> (string, json) dict list \<Rightarrow> bool \<Rightarrow> (pykey, json) cache \<Rightarrow>
     (unit, bool \<times> (pykey, json) cache) outcome" where
  "load_items h float_of wall_now [] legacy c = (Inr (), legacy, c)"
| "load_items h float_of wall_now (item # items) legacy c =
     (case ttl_from_state_item float_of wall_now item of (ttl, old) \<Rightarrow>
        (case ttl of
           None \<Rightarrow> load_items h float_of wall_now items (legacy \<or> old) c
         | Some t \<Rightarrow>
             (case load_item h item t c of
                (Inl e, c1) \<Rightarrow> (Inl e, legacy \<or> old, c1)
              | (Inr u, c1) \<Rightarrow> load_items h float_of wall_now items (legacy \<or> old) c1)))"

definition load_cache_state ::
  "(pykey \<Rightarrow> nat) \<Rightarrow> (string \<Rightarrow> time option) \<Rightarrow> cli_args \<Rightarrow> time \<Rightarrow> fake_clock \<Rightarrow> state_file \<Rightarrow>
     (cache_error + (pykey, json) cache) \<times> notice list" where
  "load_cache_state h float_of a wall_now clock f =
     (case config_from_args a of
        Inl e \<Rightarrow> (Inl e, [])
      | Inr cfg \<Rightarrow>
          (let n1 = (if a_config a = None then [] else warn_flag_mismatch a cfg @ warn_ignored_settings cfg) in
           case cache_init (Some cfg) init_args_unset None clock of
             Inl e \<Rightarrow> (Inl e, n1)
           | Inr c \<Rightarrow>
               (case read_json f of
                  Inl e \<Rightarrow> (Inl e, n1)
                | Inr state \<Rightarrow>
                    (let n2 = n1 @ (case dict_get state ''config'' of Some (JObj saved) \<Rightarrow> warn_saved_config saved cfg | _ \<Rightarrow> [])
                     in case state_items state of
                          Inl e \<Rightarrow> (Inl e, n2)
                        | Inr items \<Rightarrow>
                            (let n3 = n2 @ (if cfg_capacity cfg < int (length items)
                                            then [MoreEntriesThanCapacity (length items) (cfg_capacity cfg)] else [])
                             in case load_items h float_of wall_now items False c of
                                  (Inl e, legacy, c1) \<Rightarrow> (Inl e, n3 @ (if legacy then [LegacyTimestamps] else []))
                                | (Inr u, legacy, c1) \<Rightarrow>
                                    (let dropped = length items - total_size c1
                                     in (Inr c1, n3 @ (if legacy then [LegacyTimestamps] else []) @
                                           (if 0 < dropped then [EntriesDropped dropped (cfg_capacity cfg)] else []))))))))"

end
