(* ===== verification/Table.thy ===== *)
theory Table
  imports Python_Text
begin

text \<open>
  \<open>observability/tables.py\<close>: \<open>format_table\<close>, with the \<open>IndexError\<close> it raises when a row does
  not have as many cells as there are headers. A line and a table are strings; the cells
  arrive as the text \<open>str\<close> gives for them.
\<close>

text \<open>\<open>max(len(row[index]) for row in matrix)\<close>.\<close>

fun column_width :: "nat \<Rightarrow> string list list \<Rightarrow> nat \<Rightarrow> cache_error + nat" where
  "column_width index [] widest = Inr widest"
| "column_width index (row # rows) widest =
     (if index < length row then column_width index rows (max widest (length (row ! index)))
      else Inl IndexError)"

fun column_widths :: "nat list \<Rightarrow> string list list \<Rightarrow> cache_error + nat list" where
  "column_widths [] matrix = Inr []"
| "column_widths (index # rest) matrix =
     (case column_width index matrix 0 of
        Inl e \<Rightarrow> Inl e
      | Inr w \<Rightarrow> (case column_widths rest matrix of Inl e \<Rightarrow> Inl e | Inr ws \<Rightarrow> Inr (w # ws)))"

text \<open>\<open>"  ".join(cell.ljust(widths[index]) for index, cell in enumerate(row))\<close>.\<close>

definition format_row :: "nat list \<Rightarrow> string list \<Rightarrow> cache_error + string" where
  "format_row widths row =
     (if length row \<le> length widths
      then Inr (str_join ''  '' (map (\<lambda>(w, cell). ljust w cell) (zip widths row)))
      else Inl IndexError)"

fun format_rows :: "nat list \<Rightarrow> string list list \<Rightarrow> cache_error + string list" where
  "format_rows widths [] = Inr []"
| "format_rows widths (row # rows) =
     (case format_row widths row of
        Inl e \<Rightarrow> Inl e
      | Inr line \<Rightarrow> (case format_rows widths rows of Inl e \<Rightarrow> Inl e | Inr lines \<Rightarrow> Inr (line # lines)))"

definition rule_line :: "nat list \<Rightarrow> string" where
  "rule_line widths = str_join ''  '' (map (\<lambda>w. replicate w CHR ''-'') widths)"

definition table_lines :: "string list \<Rightarrow> string list list \<Rightarrow> cache_error + string list" where
  "table_lines headers rows =
     (case column_widths [0..<length headers] (headers # rows) of
        Inl e \<Rightarrow> Inl e
      | Inr widths \<Rightarrow>
          (case format_row widths headers of
             Inl e \<Rightarrow> Inl e
           | Inr first \<Rightarrow>
               (case format_rows widths rows of
                  Inl e \<Rightarrow> Inl e
                | Inr lines \<Rightarrow> Inr (first # rule_line widths # lines))))"

definition format_table :: "string list \<Rightarrow> string list list \<Rightarrow> cache_error + string" where
  "format_table headers rows = map_sum id (str_join [CHR 0x0A]) (table_lines headers rows)"

section \<open>The layout\<close>

definition widths_of :: "string list list \<Rightarrow> nat \<Rightarrow> nat list" where
  "widths_of matrix n = map (\<lambda>i. Max (insert 0 ((\<lambda>row. length (row ! i)) ` set matrix))) [0..<n]"

lemma column_width_eq:
  "column_width i rows w =
     (if \<forall>row \<in> set rows. i < length row then Inr (Max (insert w ((\<lambda>row. length (row ! i)) ` set rows)))
      else Inl IndexError)"
proof (induction i rows w rule: column_width.induct)
  case (2 i row rows w)
  let ?f = "\<lambda>row :: string list. length (row ! i)"
  have "Max (insert (max w (?f row)) (?f ` set rows)) = Max (insert w (insert (?f row) (?f ` set rows)))"
    by (cases "rows = []") (auto simp: max.assoc Max_insert max.commute)
  with 2 show ?case by auto
qed simp

lemma column_widths_eq:
  "column_widths is matrix =
     (if \<forall>row \<in> set matrix. \<forall>i \<in> set is. i < length row
      then Inr (map (\<lambda>i. Max (insert 0 ((\<lambda>row. length (row ! i)) ` set matrix))) is) else Inl IndexError)"
  by (induction "is" matrix rule: column_widths.induct) (auto simp: column_width_eq)

lemma format_rows_eq:
  "format_rows widths rows =
     (if \<forall>row \<in> set rows. length row \<le> length widths
      then Inr (map (\<lambda>row. projr (format_row widths row)) rows) else Inl IndexError)"
  by (induction widths rows rule: format_rows.induct) (auto simp: format_row_def)

lemma table_lines_eq:
  "table_lines headers rows =
     (if \<forall>row \<in> set rows. length row = length headers
      then (let ws = widths_of (headers # rows) (length headers)
            in Inr (projr (format_row ws headers) # rule_line ws # map (\<lambda>row. projr (format_row ws row)) rows))
      else Inl IndexError)"
proof (cases "\<forall>row \<in> set rows. length headers \<le> length row")
  case True
  then have "column_widths [0..<length headers] (headers # rows) = Inr (widths_of (headers # rows) (length headers))"
    unfolding column_widths_eq widths_of_def by fastforce
  moreover have "length (widths_of (headers # rows) (length headers)) = length headers" by (simp add: widths_of_def)
  ultimately show ?thesis using True
    by (force simp: table_lines_def format_rows_eq format_row_def Let_def)
next
  case False
  then have "\<exists>row \<in> set rows. \<exists>i < length headers. \<not> i < length row"
    by (auto simp: not_le)
  then have "column_widths [0..<length headers] (headers # rows) = Inl IndexError"
    unfolding column_widths_eq by fastforce
  with False show ?thesis by (auto simp: table_lines_def)
qed

lemma widths_cover:
  assumes "row \<in> set matrix" "length row = n" "i < n"
  shows "length (row ! i) \<le> widths_of matrix n ! i"
  using assms by (auto simp: widths_of_def intro!: Max_ge)

lemma format_row_cells:
  assumes "row \<in> set matrix" "length row = n"
  defines "ws \<equiv> widths_of matrix n"
  shows "format_row ws row = Inr (str_join ''  '' (map (\<lambda>i. ljust (ws ! i) (row ! i)) [0..<n]))"
    and "map (\<lambda>i. length (ljust (ws ! i) (row ! i))) [0..<n] = ws"
proof -
  have len: "length ws = n" by (simp add: ws_def widths_of_def)
  then have "map (\<lambda>(w, cell). ljust w cell) (zip ws row) = map (\<lambda>i. ljust (ws ! i) (row ! i)) [0..<n]"
    using assms(2) by (intro nth_equalityI) auto
  then show "format_row ws row = Inr (str_join ''  '' (map (\<lambda>i. ljust (ws ! i) (row ! i)) [0..<n]))"
    using len assms(2) by (simp add: format_row_def)
  show "map (\<lambda>i. length (ljust (ws ! i) (row ! i))) [0..<n] = ws"
    using len widths_cover [OF assms(1,2)] by (intro nth_equalityI) (auto simp: ws_def)
qed

text \<open>Where column \<open>j\<close> starts, and what a line of the table shows there.\<close>

definition column_start :: "nat list \<Rightarrow> nat \<Rightarrow> nat" where
  "column_start ws j = sum_list (map (\<lambda>w. w + 2) (take j ws))"

definition cell_at :: "nat list \<Rightarrow> nat \<Rightarrow> string \<Rightarrow> string" where
  "cell_at ws j line = take (ws ! j) (drop (column_start ws j) line)"

lemma format_row_layout:
  assumes "row \<in> set matrix" "length row = n" "0 < n"
  defines "ws \<equiv> widths_of matrix n"
  shows "length (projr (format_row ws row)) = sum_list ws + 2 * (n - 1)"
    and "j < n \<Longrightarrow> cell_at ws j (projr (format_row ws row)) = ljust (ws ! j) (row ! j)"
proof -
  let ?cells = "map (\<lambda>i. ljust (ws ! i) (row ! i)) [0..<n]"
  note F = format_row_cells [OF assms(1,2), folded ws_def]
  have lens: "map length ?cells = ws" using F(2) by (simp add: o_def)
  have n: "length ws = n" by (simp add: ws_def widths_of_def)
  show "length (projr (format_row ws row)) = sum_list ws + 2 * (n - 1)"
    using str_join_length [OF lens, of "''  ''"] assms(3) n F(1) by (cases ws) auto
  assume j: "j < n"
  have "map (\<lambda>c. length c + 2) (take j ?cells) = map (\<lambda>w. w + 2) (take j ws)"
    by (subst lens [symmetric]) (simp add: take_map o_def)
  moreover have "length (?cells ! j) = ws ! j" using lens j n by (metis length_map nth_map)
  ultimately show "cell_at ws j (projr (format_row ws row)) = ljust (ws ! j) (row ! j)"
    using str_join_column [of j ?cells "''  ''"] j F(1) by (simp add: cell_at_def column_start_def)
qed

lemma rule_line_length:
  assumes "length ws = n" "0 < n"
  shows "length (rule_line ws) = sum_list ws + 2 * (n - 1)"
  using str_join_length [of "map (\<lambda>w. replicate w CHR ''-'') ws" ws "''  ''"] assms
  by (cases ws) (auto simp: rule_line_def o_def)

text \<open>
  C40: \<open>format_table\<close> lays out a table correctly or raises. It raises \<open>IndexError\<close> exactly
  when some row does not have one cell per header. Otherwise the text is the header line,
  the rule and one line per row, all of the same length, and in every line column \<open>j\<close>
  starts at the same position and shows the cell of that row, padded to the width of the
  widest cell of the column.
\<close>

theorem format_table_layout:
  fixes headers :: "string list" and rows :: "string list list"
  assumes "headers \<noteq> []"
  defines "n \<equiv> length headers" and "ws \<equiv> widths_of (headers # rows) (length headers)"
  shows "if \<forall>row \<in> set rows. length row = n
    then (\<exists>lines. format_table headers rows = Inr (str_join [CHR 0x0A] lines) \<and> length lines = length rows + 2 \<and>
      (\<forall>line \<in> set lines. length line = sum_list ws + 2 * (n - 1)) \<and> lines ! 1 = rule_line ws \<and>
      (\<forall>j < n. cell_at ws j (lines ! 0) = ljust (ws ! j) (headers ! j)) \<and>
      (\<forall>i < length rows. \<forall>j < n. cell_at ws j (lines ! (i + 2)) = ljust (ws ! j) (rows ! i ! j)))
    else format_table headers rows = Inl IndexError"
proof (cases "\<forall>row \<in> set rows. length row = n")
  case True
  let ?line = "\<lambda>row. projr (format_row ws row)"
  let ?lines = "?line headers # rule_line ws # map ?line rows"
  have n: "0 < n" "length ws = n" using assms(1) by (simp_all add: n_def ws_def widths_of_def)
  have row: "length (?line row) = sum_list ws + 2 * (n - 1)" "\<forall>j < n. cell_at ws j (?line row) = ljust (ws ! j) (row ! j)"
    if "row \<in> set (headers # rows)" for row
  proof -
    have len: "length row = n" using that True by (auto simp: n_def)
    show "length (?line row) = sum_list ws + 2 * (n - 1)" "\<forall>j < n. cell_at ws j (?line row) = ljust (ws ! j) (row ! j)"
      using format_row_layout [OF that len n(1)] by (simp_all add: ws_def n_def)
  qed
  have "format_table headers rows = Inr (str_join [CHR 0x0A] ?lines)"
    using True by (simp add: format_table_def table_lines_eq n_def ws_def Let_def)
  moreover have "\<forall>line \<in> set ?lines. length line = sum_list ws + 2 * (n - 1)"
    using row(1) rule_line_length [OF n(2,1)] by auto
  ultimately show ?thesis using True row(2) by (intro if_P [THEN iffD2]) (auto intro!: exI [of _ ?lines])
next
  case False
  then show ?thesis by (auto simp: format_table_def table_lines_eq n_def)
qed

theorem format_table_layout_witness:
  "format_table [''key'', ''value''] [[''a'', ''100'']] =
     Inr (''key  value'' @ [CHR 0x0A] @ ''---  -----'' @ [CHR 0x0A] @ ''a    100  '') \<and>
   format_table [''key'', ''value''] [[''a'']] = Inl IndexError"
proof -
  have "format_table [''key'', ''value''] [[''a'']] = Inl IndexError"
    using format_table_layout [of "[''key'', ''value'']" "[[''a'']]"] by simp
  moreover have "format_table [''key'', ''value''] [[''a'', ''100'']] =
     Inr (''key  value'' @ [CHR 0x0A] @ ''---  -----'' @ [CHR 0x0A] @ ''a    100  '')" by code_simp
  ultimately show ?thesis by blast
qed

end
