(* ===== verification/Workloads.thy ===== *)
theory Workloads
  imports Cache_Only Table
begin

text \<open>
  \<open>workloads/patterns.py\<close>, \<open>workloads/runner.py\<close> and \<open>workloads/benchmark.py\<close>: the key
  streams, the simulator and the policy benchmark. The pseudo-random generator
  (\<open>random.Random\<close>) is an argument: \<open>rng_below i n\<close> is the draw of request \<open>i\<close> from \<open>n\<close>
  numbers, \<open>rng_unit i\<close> its draw from the unit interval. The simulator's entries have no
  expiry, so the clock plays no part.
\<close>

record rng =
  rng_below :: "nat \<Rightarrow> nat \<Rightarrow> nat"
  rng_unit :: "nat \<Rightarrow> time"

section \<open>Key streams\<close>

definition num_key :: "nat \<Rightarrow> string" where
  "num_key n = ''k'' @ str_nat n"

definition normalize_pattern :: "string \<Rightarrow> string" where
  "normalize_pattern p = map (\<lambda>c. if c = CHR ''-'' then CHR ''_'' else c) (str_lower p)"

definition universe :: "int \<Rightarrow> nat" where
  "universe capacity = nat (max (capacity * 4) 16)"

definition hot_count :: "int \<Rightarrow> nat" where
  "hot_count capacity = nat (max 1 (capacity div 5))"

definition working_set :: "int \<Rightarrow> nat" where
  "working_set capacity = nat (max 1 (capacity - max 1 (capacity div 5)))"

definition hotspot_key :: "rng \<Rightarrow> int \<Rightarrow> nat \<Rightarrow> string" where
  "hotspot_key r capacity i =
     (let hot = map num_key [0..<hot_count capacity];
          cold = map num_key [hot_count capacity..<universe capacity]
      in if rng_unit r i < 82 / 100 then hot ! rng_below r i (length hot)
         else cold ! rng_below r i (length cold))"

definition mixed_key :: "rng \<Rightarrow> int \<Rightarrow> nat \<Rightarrow> string" where
  "mixed_key r capacity i =
     (if i mod 5 = 0 then ''write:'' @ num_key (rng_below r i (universe capacity))
      else num_key (rng_below r i (universe capacity)))"

definition stream_key :: "rng \<Rightarrow> string \<Rightarrow> int \<Rightarrow> (nat \<Rightarrow> string) option" where
  "stream_key r pattern capacity =
     (let p = normalize_pattern pattern in
      if p = ''uniform'' then Some (\<lambda>i. num_key (rng_below r i (universe capacity)))
      else if p \<in> {''zipfian'', ''hotspot''} then Some (hotspot_key r capacity)
      else if p \<in> {''sequential'', ''sequential_scan''} then Some num_key
      else if p \<in> {''looping'', ''looping_working_set''}
      then Some (\<lambda>i. num_key (i mod working_set capacity))
      else if p \<in> {''mixed'', ''mixed_read_write''} then Some (mixed_key r capacity)
      else None)"

definition key_stream :: "rng \<Rightarrow> string \<Rightarrow> int \<Rightarrow> int \<Rightarrow> cache_error + string list" where
  "key_stream r pattern requests capacity =
     (case stream_key r pattern capacity of
        None \<Rightarrow> Inl ValueError
      | Some key \<Rightarrow> Inr (map key [0..<nat requests]))"

section \<open>The simulator\<close>

record sim_result =
  sr_policy :: string
  sr_pattern :: string
  sr_requests :: int
  sr_writes :: nat
  sr_hits :: nat
  sr_misses :: nat
  sr_hit_ratio :: time
  sr_evictions :: nat
  sr_expirations :: nat
  sr_size :: nat
  sr_shards :: "shard_stats list"

text \<open>One request: a write, or a read that loads the key on a miss. Returns the writes done.\<close>

definition sim_request ::
  "(string \<Rightarrow> nat) \<Rightarrow> nat \<Rightarrow> string \<Rightarrow> (string, string) cache \<Rightarrow> (nat, (string, string) cache) outcome" where
  "sim_request h index raw_key c =
     (if starts_with ''write:'' raw_key
      then (case cache_put h (split_rest CHR '':'' raw_key) (''value-'' @ str_nat index) TTL_UNSET c of
              (Inl e, c1) \<Rightarrow> (Inl e, c1) | (Inr u, c1) \<Rightarrow> (Inr 1, c1))
      else (case cache_get h raw_key None c of
              (Inl e, c1) \<Rightarrow> (Inl e, c1)
            | (Inr (Some v), c1) \<Rightarrow> (Inr 0, c1)
            | (Inr None, c1) \<Rightarrow>
                (case cache_put h raw_key (''value-'' @ raw_key) TTL_UNSET c1 of
                   (Inl e, c2) \<Rightarrow> (Inl e, c2) | (Inr u, c2) \<Rightarrow> (Inr 0, c2))))"

fun sim_loop ::
  "(string \<Rightarrow> nat) \<Rightarrow> nat \<Rightarrow> string list \<Rightarrow> nat \<Rightarrow> (string, string) cache \<Rightarrow> (nat, (string, string) cache) outcome" where
  "sim_loop h index [] writes c = (Inr writes, c)"
| "sim_loop h index (key # keys) writes c =
     (case sim_request h index key c of
        (Inl e, c1) \<Rightarrow> (Inl e, c1)
      | (Inr w, c1) \<Rightarrow> sim_loop h (Suc index) keys (writes + w) c1)"

definition sim_args :: "string \<Rightarrow> int \<Rightarrow> int \<Rightarrow> init_args" where
  "sim_args policy capacity shards =
     init_args_unset\<lparr>ia_capacity := Some capacity, ia_policy := Some policy, ia_shard_count := Some shards\<rparr>"

definition sim_report :: "string \<Rightarrow> string \<Rightarrow> int \<Rightarrow> nat \<Rightarrow> cache_stats \<Rightarrow> sim_result" where
  "sim_report policy pattern requests writes stats =
     \<lparr>sr_policy = policy, sr_pattern = pattern, sr_requests = requests, sr_writes = writes,
      sr_hits = cs_hits stats, sr_misses = cs_misses stats,
      sr_hit_ratio = of_int (round_half_even (10000 * cs_hit_ratio stats)) / 10000,
      sr_evictions = cs_evictions stats, sr_expirations = cs_expirations stats,
      sr_size = cs_size stats, sr_shards = cs_shards stats\<rparr>"

definition run_simulation ::
  "(string \<Rightarrow> nat) \<Rightarrow> rng \<Rightarrow> string \<Rightarrow> string \<Rightarrow> int \<Rightarrow> int \<Rightarrow> int \<Rightarrow> fake_clock \<Rightarrow> cache_error + sim_result" where
  "run_simulation h r policy pattern capacity requests shards clock =
     (case cache_init None (sim_args policy capacity shards) None clock of
        Inl e \<Rightarrow> Inl e
      | Inr c \<Rightarrow>
          (case key_stream r pattern requests capacity of
             Inl e \<Rightarrow> Inl e
           | Inr keys \<Rightarrow>
               (case sim_loop h 0 keys 0 c of
                  (Inl e, c1) \<Rightarrow> Inl e
                | (Inr writes, c1) \<Rightarrow> Inr (sim_report policy pattern requests writes (cache_stats_of c1)))))"

text \<open>
  \<open>benchmark_policies\<close>: one simulation per policy, each with its elapsed time, which the
  argument \<open>elapsed\<close> gives per policy, and its throughput.
\<close>

record bench_row =
  br_result :: sim_result
  br_seconds :: time
  br_requests_per_second :: time

definition round_to :: "nat \<Rightarrow> time \<Rightarrow> time" where
  "round_to digits x = of_int (round_half_even (10 ^ digits * x)) / 10 ^ digits"

fun benchmark_policies ::
  "(string \<Rightarrow> nat) \<Rightarrow> rng \<Rightarrow> (string \<Rightarrow> time) \<Rightarrow> string list \<Rightarrow> string \<Rightarrow> int \<Rightarrow> int \<Rightarrow> int \<Rightarrow> fake_clock \<Rightarrow>
     cache_error + bench_row list" where
  "benchmark_policies h r elapsed [] pattern capacity requests shards clock = Inr []"
| "benchmark_policies h r elapsed (policy # policies) pattern capacity requests shards clock =
     (case run_simulation h r policy pattern capacity requests shards clock of
        Inl e \<Rightarrow> Inl e
      | Inr result \<Rightarrow>
          (case benchmark_policies h r elapsed policies pattern capacity requests shards clock of
             Inl e \<Rightarrow> Inl e
           | Inr rows \<Rightarrow>
               Inr (\<lparr>br_result = result, br_seconds = round_to 6 (elapsed policy),
                     br_requests_per_second =
                       (if elapsed policy = 0 then 0 else round_to 2 (of_int requests / elapsed policy))\<rparr> # rows)))"

section \<open>One request\<close>

text \<open>The caches of the simulator: cache-only, open, and nothing ever expires.\<close>

definition sim_ok :: "(string \<Rightarrow> nat) \<Rightarrow> (string, string) cache \<Rightarrow> bool" where
  "sim_ok h c \<longleftrightarrow> plain h c \<and> cfg_default_ttl (c_config c) = None \<and>
     (\<forall>k e. stored h c k = Some e \<longrightarrow> ce_expires_at e = None)"

definition cached :: "(string \<Rightarrow> nat) \<Rightarrow> (string, string) cache \<Rightarrow> string set" where
  "cached h c = {k. stored h c k \<noteq> None}"

definition reads :: "(string, string) cache \<Rightarrow> nat" where
  "reads c = cs_hits (cache_stats_of c) + cs_misses (cache_stats_of c)"

lemma ttl_unset_valid [simp]: "validate_explicit_ttl TTL_UNSET = None"
  by (simp add: validate_explicit_ttl_def)

lemma sim_put:
  assumes ok: "sim_ok h c"
  shows "fst (cache_put h k v TTL_UNSET c) = Inr ()" and "sim_ok h (snd (cache_put h k v TTL_UNSET c))"
    and "same_frame c (snd (cache_put h k v TTL_UNSET c))" and "reads (snd (cache_put h k v TTL_UNSET c)) = reads c"
    and "cs_hits (cache_stats_of (snd (cache_put h k v TTL_UNSET c))) = cs_hits (cache_stats_of c)"
    and "cached h (snd (cache_put h k v TTL_UNSET c)) \<subseteq> insert k (cached h c)"
proof -
  let ?c' = "snd (cache_put h k v TTL_UNSET c)"
  have pl: "plain h c" and d: "cfg_default_ttl (c_config c) = None" and ex: "\<And>k e. stored h c k = Some e \<Longrightarrow> ce_expires_at e = None"
    using ok by (simp_all add: sim_ok_def)
  note P = plain_put_any [OF pl ttl_unset_valid, where k = k and v = v]
  show "fst (cache_put h k v TTL_UNSET c) = Inr ()" "same_frame c ?c'" "reads ?c' = reads c"
    "cs_hits (cache_stats_of ?c') = cs_hits (cache_stats_of c)" using P by (simp_all add: reads_def)
  have "ce_expires_at e = None" if se: "stored h ?c' j = Some e" for j e
  proof (cases "j = k")
    case True
    with se have "stored h ?c' k = Some e" by simp
    from P(7) [OF this] obtain x where "\<forall>e. x = Some e \<longrightarrow> stored h c k = Some e"
      "ce_expires_at e = snd (resolve_ttl (cfg_default_ttl (c_config c)) x TTL_UNSET (cache_now c))" by blast
    then show ?thesis using d ex by (auto simp: resolve_ttl_def split: option.splits)
  next
    case False
    then show ?thesis using P(4) [of j] se ex by auto
  qed
  then show "sim_ok h ?c'" using P(2,3) d by (simp add: sim_ok_def same_frame_def)
  show "cached h ?c' \<subseteq> insert k (cached h c)" using P(4) by (fastforce simp: cached_def)
qed

lemma sim_get:
  assumes ok: "sim_ok h c"
  shows "fst (cache_get h k None c) = Inr (map_option ce_value (stored h c k))" and "sim_ok h (snd (cache_get h k None c))"
    and "same_frame c (snd (cache_get h k None c))" and "reads (snd (cache_get h k None c)) = Suc (reads c)"
    and "cached h (snd (cache_get h k None c)) = cached h c" and "fill (snd (cache_get h k None c)) i = fill c i"
    and "cs_hits (cache_stats_of (snd (cache_get h k None c))) = cs_hits (cache_stats_of c) + of_bool (k \<in> cached h c)"
    and "cs_misses (cache_stats_of (snd (cache_get h k None c))) = cs_misses (cache_stats_of c) + of_bool (k \<notin> cached h c)"
    and "cs_evictions (cache_stats_of (snd (cache_get h k None c))) = cs_evictions (cache_stats_of c)"
proof -
  let ?c' = "snd (cache_get h k None c)"
  have pl: "plain h c" and d: "cfg_default_ttl (c_config c) = None" and ex: "\<And>k e. stored h c k = Some e \<Longrightarrow> ce_expires_at e = None"
    using ok by (simp_all add: sim_ok_def)
  have "\<forall>e. stored h c k = Some e \<longrightarrow> ce_expires_at e = None" using ex by blast
  note G = plain_get [OF pl this, of None]
  show "fst (cache_get h k None c) = Inr (map_option ce_value (stored h c k))"
    using G(1) by (simp split: option.splits)
  show "same_frame c ?c'" "fill ?c' i = fill c i" "cs_evictions (cache_stats_of ?c') = cs_evictions (cache_stats_of c)"
    using G(3,4,8) by simp_all
  show "reads ?c' = Suc (reads c)" using G(6,7) by (simp add: reads_def)
  have opt: "stored h ?c' j = None \<longleftrightarrow> stored h c j = None" for j using arg_cong [OF G(5) [of j], where f = "\<lambda>x. x = None"] by simp
  then show "cached h ?c' = cached h c" by (simp add: cached_def)
  show "cs_hits (cache_stats_of ?c') = cs_hits (cache_stats_of c) + of_bool (k \<in> cached h c)"
    "cs_misses (cache_stats_of ?c') = cs_misses (cache_stats_of c) + of_bool (k \<notin> cached h c)"
    using G(6,7) by (simp_all add: cached_def)
  have "ce_expires_at e = None" if se: "stored h ?c' j = Some e" for j e
  proof -
    from G(5) [of j] se obtain e' where "stored h c j = Some e'" "ce_expires_at e' = ce_expires_at e"
      by (cases "stored h c j") auto
    then show ?thesis using ex [of j e'] by simp
  qed
  then show "sim_ok h ?c'" using G(2,3) d by (simp add: sim_ok_def same_frame_def)
qed

lemma sim_request_read:
  assumes ok: "sim_ok h c" and "\<not> starts_with ''write:'' key"
  defines "c1 \<equiv> snd (cache_get h key None c)"
  shows "sim_request h i key c = (Inr 0, if key \<in> cached h c then c1 else snd (cache_put h key (''value-'' @ key) TTL_UNSET c1))"
proof -
  obtain r where g: "cache_get h key None c = (r, c1)" unfolding c1_def by (metis surjective_pairing)
  then have r: "r = Inr (map_option ce_value (stored h c key))" using sim_get(1) [OF ok, of key] by simp
  have "sim_ok h c1" using sim_get(2) [OF ok, of key] by (simp add: c1_def)
  from sim_put(1) [OF this, of key "''value-'' @ key"]
  obtain c2 where p: "cache_put h key (''value-'' @ key) TTL_UNSET c1 = (Inr (), c2)" by (metis prod.collapse)
  show ?thesis using assms(2) g r p by (cases "stored h c key") (simp_all add: sim_request_def cached_def)
qed

lemma sim_request_total:
  assumes ok: "sim_ok h c"
  shows "\<exists>w c'. sim_request h i key c = (Inr w, c') \<and> sim_ok h c' \<and> same_frame c c' \<and> reads c' + w = Suc (reads c)"
proof (cases "starts_with ''write:'' key")
  case True
  let ?k = "split_rest CHR '':'' key" and ?v = "''value-'' @ str_nat i"
  obtain c' where p: "cache_put h ?k ?v TTL_UNSET c = (Inr (), c')" using sim_put(1) [OF ok, of ?k ?v] by (metis prod.collapse)
  then show ?thesis using True sim_put [OF ok, of ?k ?v] by (simp add: sim_request_def)
next
  case False
  let ?c1 = "snd (cache_get h key None c)"
  note G = sim_get(2,3,4) [OF ok, of key]
  note P = sim_put(2,3,4) [OF G(1), of key "''value-'' @ key"]
  show ?thesis unfolding sim_request_read [OF ok False] using G P same_frame_trans [OF G(2) P(2)] by auto
qed

section \<open>The whole run\<close>

lemma sim_loop_total:
  assumes "sim_ok h c"
  shows "\<exists>w' c'. sim_loop h i keys w c = (Inr w', c') \<and> sim_ok h c' \<and> same_frame c c' \<and>
    reads c' + w' = reads c + w + length keys"
  using assms
proof (induction keys arbitrary: i w c)
  case (Cons key keys)
  obtain v c1 where r: "sim_request h i key c = (Inr v, c1)" "sim_ok h c1" "same_frame c c1" "reads c1 + v = Suc (reads c)"
    using sim_request_total [OF Cons.prems, of i key] by blast
  obtain w' c' where l: "sim_loop h (Suc i) keys (w + v) c1 = (Inr w', c')" "sim_ok h c'" "same_frame c1 c'"
    "reads c' + w' = reads c1 + (w + v) + length keys"
    using Cons.IH [OF r(2), of "Suc i" "w + v"] by blast
  show ?case using r l same_frame_trans [OF r(3) l(3)] by auto
qed simp

lemma sim_loop_reads_only:
  assumes "sim_ok h c" and "\<forall>k \<in> set keys. \<not> starts_with ''write:'' k"
  shows "fst (sim_loop h i keys w c) = Inr w"
  using assms
proof (induction keys arbitrary: i c)
  case (Cons key keys)
  obtain c1 where "sim_request h i key c = (Inr 0, c1)" "sim_ok h c1"
    using sim_request_read [OF Cons.prems(1), of key i] sim_request_total [OF Cons.prems(1), of i key] Cons.prems(2) by fastforce
  then show ?case using Cons.IH [of c1] Cons.prems(2) by simp
qed simp

text \<open>Distinct keys that are not cached never hit.\<close>

lemma sim_loop_no_hits:
  assumes "sim_ok h c" and "distinct keys" and "\<forall>k \<in> set keys. \<not> starts_with ''write:'' k \<and> k \<notin> cached h c"
  shows "cs_hits (cache_stats_of (snd (sim_loop h i keys w c))) = cs_hits (cache_stats_of c)"
  using assms
proof (induction keys arbitrary: i w c)
  case (Cons key keys)
  let ?c1 = "snd (cache_get h key None c)"
  let ?c2 = "snd (cache_put h key (''value-'' @ key) TTL_UNSET ?c1)"
  have r: "sim_request h i key c = (Inr 0, ?c2)" using sim_request_read [OF Cons.prems(1)] Cons.prems(3) by simp
  note G = sim_get [OF Cons.prems(1), of key]
  note P = sim_put [OF G(2), of key "''value-'' @ key"]
  have "cached h ?c2 \<subseteq> insert key (cached h c)" using P(6) G(5) by simp
  then have "cs_hits (cache_stats_of (snd (sim_loop h (Suc i) keys w ?c2))) = cs_hits (cache_stats_of ?c2)"
    using Cons.prems by (intro Cons.IH [OF P(2)]) auto
  then show ?case using r P(5) G(7) Cons.prems(3) by simp
qed simp

text \<open>Keys that all fit into the only shard are loaded once each.\<close>

lemma single_fill:
  assumes "cache_inv h c" "length (c_shards c) = 1"
  shows "fill c 0 = card (cached h c)" and "finite (cached h c)"
proof -
  have k: "cached h c = fst ` set (sh_backend (c_shards c ! 0))"
    using assms(2) by (auto simp: cached_def stored_def shard_for_def dict_get_None)
  have "dict_wf (sh_backend (c_shards c ! 0))"
    using cache_inv_shard [OF assms(1), of 0] assms(2) by (simp add: shard_inv_def core_defs mem_inv_def)
  then show "fill c 0 = card (cached h c)" by (simp add: fill_def mem_size_def k dict_length_keys)
  show "finite (cached h c)" by (simp add: k)
qed

lemma sim_loop_fits:
  assumes "sim_ok h c" and "length (c_shards c) = 1" and "card (cached h c \<union> set keys) \<le> sh_capacity (c_shards c ! 0)"
    and "\<forall>k \<in> set keys. \<not> starts_with ''write:'' k"
  shows "cs_misses (cache_stats_of (snd (sim_loop h i keys w c))) = cs_misses (cache_stats_of c) + card (set keys - cached h c) \<and>
    cs_evictions (cache_stats_of (snd (sim_loop h i keys w c))) = cs_evictions (cache_stats_of c)"
  using assms
proof (induction keys arbitrary: i w c)
  case (Cons key keys)
  let ?c1 = "snd (cache_get h key None c)"
  let ?c2 = "if key \<in> cached h c then ?c1 else snd (cache_put h key (''value-'' @ key) TTL_UNSET ?c1)"
  have r: "sim_request h i key c = (Inr 0, ?c2)" using sim_request_read [OF Cons.prems(1)] Cons.prems(4) by simp
  note G = sim_get [OF Cons.prems(1), of key]
  have inv: "cache_inv h c" "cache_inv h ?c1" "plain h ?c1" using Cons.prems(1) G(2) by (simp_all add: sim_ok_def plain_def)
  have len1: "length (c_shards ?c1) = 1" using same_frame_length [OF G(3)] Cons.prems(2) by simp
  have cap1: "sh_capacity (c_shards ?c1 ! 0) = sh_capacity (c_shards c ! 0)"
    using same_frame_capacity [OF G(3)] Cons.prems(2) by simp
  note F = single_fill [OF inv(1) Cons.prems(2)]
  have c2: "sim_ok h ?c2 \<and> same_frame c ?c2 \<and> cached h ?c2 = insert key (cached h c) \<and>
      cs_misses (cache_stats_of ?c2) = cs_misses (cache_stats_of c) + of_bool (key \<notin> cached h c) \<and>
      cs_evictions (cache_stats_of ?c2) = cs_evictions (cache_stats_of c)"
  proof (cases "key \<in> cached h c")
    case True
    then show ?thesis using G by (simp add: insert_absorb)
  next
    case False
    have "key \<notin> cached h ?c1" using False G(5) by simp
    then have new: "stored h ?c1 key = None" by (simp add: cached_def)
    have z: "shard_for h ?c1 key = 0" using len1 by (simp add: shard_for_def)
    have "Suc (card (cached h c)) \<le> card (cached h c \<union> set (key # keys))"
      using False F(2) by (subst card_insert_disjoint [symmetric]) (auto intro!: card_mono)
    then have room: "fill ?c1 (shard_for h ?c1 key) < sh_capacity (c_shards ?c1 ! shard_for h ?c1 key)"
      using G(6) [of 0] F(1) Cons.prems(3) cap1 z by simp
    note P = plain_put_new [OF inv(3) ttl_unset_valid new room, of "''value-'' @ key"]
    obtain e where "stored h (snd (cache_put h key (''value-'' @ key) TTL_UNSET ?c1)) = (stored h ?c1)(key \<mapsto> e)" using P(4) by blast
    then have "cached h (snd (cache_put h key (''value-'' @ key) TTL_UNSET ?c1)) = insert key (cached h ?c1)"
      by (auto simp: cached_def)
    then show ?thesis using False G P sim_put(2) [OF G(2)] same_frame_trans [OF G(3) P(3)] by simp
  qed
  have frame: "same_frame c ?c2" using c2 by blast
  have "sh_capacity (c_shards ?c2 ! 0) = sh_capacity (c_shards c ! 0)" using same_frame_capacity [OF frame] Cons.prems(2) by simp
  then have IH: "cs_misses (cache_stats_of (snd (sim_loop h (Suc i) keys w ?c2))) = cs_misses (cache_stats_of ?c2) + card (set keys - cached h ?c2) \<and>
      cs_evictions (cache_stats_of (snd (sim_loop h (Suc i) keys w ?c2))) = cs_evictions (cache_stats_of ?c2)"
    using c2 same_frame_length [OF frame] Cons.prems by (intro Cons.IH) auto
  have "card (set (key # keys) - cached h c) = of_bool (key \<notin> cached h c) + card (set keys - insert key (cached h c))"
  proof (cases "key \<in> cached h c")
    case True
    then show ?thesis by (simp add: insert_absorb)
  next
    case False
    then have "set (key # keys) - cached h c = insert key (set keys - insert key (cached h c))" by auto
    then show ?thesis using False by simp
  qed
  then show ?case using r IH c2 by (simp del: of_bool_eq)
qed simp

section \<open>What the simulator reports\<close>

definition sim_config :: "string \<Rightarrow> int \<Rightarrow> int \<Rightarrow> cache_config" where
  "sim_config policy capacity shards =
     default_config\<lparr>cfg_capacity := capacity, cfg_policy := policy, cfg_shard_count := shards\<rparr>"

lemma sim_init_config: "init_config None (sim_args policy capacity shards) = config_post_init (sim_config policy capacity shards)"
  by (simp add: init_config_def sim_args_def init_args_unset_def sim_config_def arg_or_def default_config_def)

lemma sim_start:
  assumes "config_valid (sim_config policy capacity shards)"
  obtains c where "cache_init None (sim_args policy capacity shards) None clock = Inr c" "sim_ok h c" "cached h c = {}"
    "reads c = 0" "cs_evictions (cache_stats_of c) = 0" "int (length (c_shards c)) = shards"
    "sum_list (map (\<lambda>sh. int (sh_capacity sh)) (c_shards c)) = capacity" "cfg_capacity (c_config c) = capacity"
proof -
  have "init_config None (sim_args policy capacity shards) = Inr (sim_config policy capacity shards)"
    using assms by (simp add: sim_init_config config_post_init_iff)
  from cache_init_total [OF this assms, of None clock]
  obtain c :: "(string, string) cache" where c: "cache_init None (sim_args policy capacity shards) None clock = Inr c"
    and cfg: "c_config c = sim_config policy capacity shards" by blast
  have mode: "cfg_write_mode (c_config c) = ''cache-only''" by (simp add: cfg sim_config_def default_config_def)
  note P = cache_init_plain(1,2) [OF c _ mode, where h = h] and S = cache_init_plain(4-6) [OF c _ mode]
  have "cache_inv h c" using P(1) by (simp add: plain_def)
  moreover have "sim_ok h c" "cached h c = {}" "reads c = 0"
    using P S by (simp_all add: sim_ok_def cached_def reads_def cfg sim_config_def default_config_def)
  ultimately show thesis using that [OF c] S(3) by (simp add: cache_inv_def cfg sim_config_def)
qed

lemma run_simulation_report:
  assumes valid: "config_valid (sim_config policy capacity shards)" and key: "stream_key r pattern capacity = Some key"
    and c: "cache_init None (sim_args policy capacity shards) None clock = Inr c" "sim_ok h c" "reads c = 0"
  obtains w c' where "sim_loop h 0 (map key [0..<nat requests]) 0 c = (Inr w, c')" "sim_ok h c'" "same_frame c c'"
    "reads c' + w = nat requests"
    "run_simulation h r policy pattern capacity requests shards clock = Inr (sim_report policy pattern requests w (cache_stats_of c'))"
proof -
  obtain w c' where l: "sim_loop h 0 (map key [0..<nat requests]) 0 c = (Inr w, c')" "sim_ok h c'" "same_frame c c'"
    "reads c' + w = reads c + 0 + length (map key [0..<nat requests])"
    using sim_loop_total [OF c(2), of 0 "map key [0..<nat requests]" 0] by blast
  have "run_simulation h r policy pattern capacity requests shards clock = Inr (sim_report policy pattern requests w (cache_stats_of c'))"
    using c(1) l(1) key by (simp add: run_simulation_def key_stream_def)
  with l c(3) show thesis by (intro that) auto
qed

text \<open>
  C39: A simulation accounts for every request. It fails only for an invalid configuration
  (\<open>ConfigurationError\<close>) or an unknown pattern (\<open>ValueError\<close>); otherwise, whatever the
  random draws and the hash function, hits, misses and writes add up to the number of
  requests, and the cache ends within its capacity.
\<close>

theorem simulation_accounts_for_requests:
  "case run_simulation h r policy pattern capacity requests shards clock of
      Inl e \<Rightarrow> e = (if config_valid (sim_config policy capacity shards) then ValueError else ConfigurationError) \<and>
        (if config_valid (sim_config policy capacity shards) then stream_key r pattern capacity = None else True)
    | Inr res \<Rightarrow> config_valid (sim_config policy capacity shards) \<and> stream_key r pattern capacity \<noteq> None \<and>
        sr_hits res + sr_misses res + sr_writes res = nat requests \<and> int (sr_size res) \<le> capacity"
proof (cases "config_valid (sim_config policy capacity shards)")
  case False
  then have "config_post_init (sim_config policy capacity shards) = Inl ConfigurationError"
    by (simp add: config_post_init_error)
  then show ?thesis using False by (simp add: run_simulation_def cache_init_def sim_init_config)
next
  case True
  obtain c where c: "cache_init None (sim_args policy capacity shards) None clock = Inr c" "sim_ok h c" "reads c = 0"
    "cfg_capacity (c_config c) = capacity" by (rule sim_start [OF True])
  show ?thesis
  proof (cases "stream_key r pattern capacity")
    case None
    then show ?thesis using True c(1) by (simp add: run_simulation_def key_stream_def)
  next
    case (Some key)
    obtain w c' where R: "sim_ok h c'" "same_frame c c'" "reads c' + w = nat requests"
      "run_simulation h r policy pattern capacity requests shards clock = Inr (sim_report policy pattern requests w (cache_stats_of c'))"
      by (rule run_simulation_report [OF True Some c(1-3), of requests])
    have "cache_inv h c'" using R(1) by (simp add: sim_ok_def plain_def)
    from total_size_bounded [OF this] have "int (cs_size (cache_stats_of c')) \<le> capacity"
      using R(2) c(4) by (simp add: stats_fields total_size_def same_frame_def)
    then show ?thesis using R(3,4) Some True by (simp add: sim_report_def reads_def)
  qed
qed

lemma num_key_inject [simp]: "num_key m = num_key n \<longleftrightarrow> m = n"
  by (simp add: num_key_def)

lemma num_key_read [simp]: "\<not> starts_with ''write:'' (num_key n)"
  by (simp add: num_key_def)

text \<open>A run whose stream has no writes: the report is that of the final cache.\<close>

lemma read_only_run:
  assumes v: "config_valid (sim_config policy capacity shards)" and key: "stream_key r pattern capacity = Some key"
    and reading: "\<And>i. \<not> starts_with ''write:'' (key i)"
  obtains c res where "sim_ok h c" "cached h c = {}" "cs_hits (cache_stats_of c) = 0" "cs_misses (cache_stats_of c) = 0"
    "cs_evictions (cache_stats_of c) = 0" "int (length (c_shards c)) = shards"
    "sum_list (map (\<lambda>sh. int (sh_capacity sh)) (c_shards c)) = capacity"
    "run_simulation h r policy pattern capacity requests shards clock = Inr res" "sr_writes res = 0"
    "sr_hits res + sr_misses res = nat requests"
    "sr_hits res = cs_hits (cache_stats_of (snd (sim_loop h 0 (map key [0..<nat requests]) 0 c)))"
    "sr_misses res = cs_misses (cache_stats_of (snd (sim_loop h 0 (map key [0..<nat requests]) 0 c)))"
    "sr_evictions res = cs_evictions (cache_stats_of (snd (sim_loop h 0 (map key [0..<nat requests]) 0 c)))"
proof -
  obtain c where c: "cache_init None (sim_args policy capacity shards) None clock = Inr c" "sim_ok h c" "cached h c = {}" "reads c = 0"
    "cs_evictions (cache_stats_of c) = 0" "int (length (c_shards c)) = shards"
    "sum_list (map (\<lambda>sh. int (sh_capacity sh)) (c_shards c)) = capacity" by (rule sim_start [OF v])
  obtain w c' where R: "sim_loop h 0 (map key [0..<nat requests]) 0 c = (Inr w, c')" "reads c' + w = nat requests"
    "run_simulation h r policy pattern capacity requests shards clock = Inr (sim_report policy pattern requests w (cache_stats_of c'))"
    by (rule run_simulation_report [OF v key c(1,2,4), of requests])
  have "w = 0" using sim_loop_reads_only [OF c(2), of "map key [0..<nat requests]" 0 0] reading R(1) by auto
  with R c show thesis by (intro that [of c "sim_report policy pattern requests w (cache_stats_of c')"]) (auto simp: sim_report_def reads_def)
qed

text \<open>
  A sequential scan defeats every policy: with the pattern \<open>sequential\<close> no request hits,
  whatever the policy, the capacity and the number of shards.
\<close>

lemma sequential_scan_never_hits:
  assumes v: "config_valid (sim_config policy capacity shards)" and p: "normalize_pattern pattern = ''sequential''"
  shows "\<exists>res. run_simulation h r policy pattern capacity requests shards clock = Inr res \<and>
    sr_hits res = 0 \<and> sr_misses res = nat requests \<and> sr_writes res = 0"
proof -
  have key: "stream_key r pattern capacity = Some num_key" using p by (simp add: stream_key_def)
  obtain c res where c: "sim_ok h c" "cached h c = {}" "cs_hits (cache_stats_of c) = 0"
    and res: "run_simulation h r policy pattern capacity requests shards clock = Inr res" "sr_writes res = 0"
      "sr_hits res + sr_misses res = nat requests"
      "sr_hits res = cs_hits (cache_stats_of (snd (sim_loop h 0 (map num_key [0..<nat requests]) 0 c)))"
    by (rule read_only_run [OF v key num_key_read, of h requests clock])
  have "distinct (map num_key [0..<nat requests])" by (simp add: distinct_map inj_on_def)
  then have "cs_hits (cache_stats_of (snd (sim_loop h 0 (map num_key [0..<nat requests]) 0 c))) = 0"
    using sim_loop_no_hits [OF c(1)] c(2,3) by simp
  with res show ?thesis by auto
qed

text \<open>
  A loop that fits into the cache misses each key once. With one shard and the pattern
  \<open>looping\<close>, under every policy, the misses are exactly the keys of the working set that
  were requested, every other request hits, and nothing is evicted.
\<close>

lemma looping_workload_fits:
  assumes v: "config_valid (sim_config policy capacity 1)" and p: "normalize_pattern pattern = ''looping''"
  shows "\<exists>res. run_simulation h r policy pattern capacity requests 1 clock = Inr res \<and>
    sr_misses res = min (working_set capacity) (nat requests) \<and>
    sr_hits res = nat requests - min (working_set capacity) (nat requests) \<and> sr_evictions res = 0"
proof -
  let ?key = "\<lambda>i. num_key (i mod working_set capacity)" and ?n = "nat requests" and ?w = "working_set capacity"
  have key: "stream_key r pattern capacity = Some ?key" using p by (simp add: stream_key_def)
  obtain c res where c: "sim_ok h c" "cached h c = {}" "cs_misses (cache_stats_of c) = 0" "cs_evictions (cache_stats_of c) = 0"
      "int (length (c_shards c)) = 1" "sum_list (map (\<lambda>sh. int (sh_capacity sh)) (c_shards c)) = capacity"
    and res: "run_simulation h r policy pattern capacity requests 1 clock = Inr res" "sr_hits res + sr_misses res = ?n"
      "sr_misses res = cs_misses (cache_stats_of (snd (sim_loop h 0 (map ?key [0..<?n]) 0 c)))"
      "sr_evictions res = cs_evictions (cache_stats_of (snd (sim_loop h 0 (map ?key [0..<?n]) 0 c)))"
    by (rule read_only_run [OF v key num_key_read, of h requests clock])
  have cap: "1 \<le> capacity" using v by (simp add: config_valid_def sim_config_def)
  then have w: "0 < ?w" "int ?w \<le> capacity" by (auto simp: working_set_def)
  obtain sh where sh: "c_shards c = [sh]" using c(5) by (cases "c_shards c") auto
  have mods: "(\<lambda>i. i mod ?w) ` {0..<?n} = {0..<min ?w ?n}"
  proof (intro equalityI subsetI)
    show "x \<in> {0..<min ?w ?n}" if "x \<in> (\<lambda>i. i mod ?w) ` {0..<?n}" for x
      using that w(1) by (auto intro: le_less_trans [OF mod_less_eq_dividend])
    show "x \<in> (\<lambda>i. i mod ?w) ` {0..<?n}" if "x \<in> {0..<min ?w ?n}" for x
      using that by (intro image_eqI [of _ _ x]) auto
  qed
  have keys: "set (map ?key [0..<?n]) = num_key ` {0..<min ?w ?n}"
    by (simp only: mods [symmetric] image_image set_map set_upt)
  have card: "card (num_key ` {0..<min ?w ?n}) = min ?w ?n" by (subst card_image) (auto simp: inj_on_def)
  have "card (cached h c \<union> set (map ?key [0..<?n])) \<le> sh_capacity (c_shards c ! 0)"
    unfolding keys using card c(2,6) sh w(2) by simp
  from sim_loop_fits [OF c(1) _ this, of 0 0] c(2-5) keys card
  have "cs_misses (cache_stats_of (snd (sim_loop h 0 (map ?key [0..<?n]) 0 c))) = min ?w ?n"
    "cs_evictions (cache_stats_of (snd (sim_loop h 0 (map ?key [0..<?n]) 0 c))) = 0" by simp_all
  then have "sr_misses res = min ?w ?n" "sr_evictions res = 0" using res(3,4) by simp_all
  moreover have "sr_hits res = ?n - min ?w ?n" using res(2) calculation(1) by linarith
  ultimately show ?thesis using res(1) by blast
qed

end
