(* ===== verification/Cli.thy ===== *)
theory Cli
  imports Cli_State Workloads
begin

text \<open>
  \<open>cli/commands/basic.py\<close>, \<open>render.py\<close>, \<open>simulate.py\<close>, \<open>benchmark.py\<close> and
  \<open>cli/main.py\<close>: the commands, what they print and the exit code. The parsed arguments are
  a record and a command value (\<open>argparse\<close> is not modelled). Standard-library text
  conversions are arguments: \<open>repr_float\<close>, \<open>float_of\<close> and \<open>json_loads\<close>.
\<close>

section \<open>Rendering\<close>

definition fmt_float :: "time option \<Rightarrow> string" where
  "fmt_float x = (case x of None \<Rightarrow> ''-'' | Some t \<Rightarrow> fixed3 t)"

definition stats_rows :: "cache_stats \<Rightarrow> string list list" where
  "stats_rows s =
     [[''hits'', str_nat (cs_hits s)], [''misses'', str_nat (cs_misses s)],
      [''hit_ratio'', str_ratio4 (cs_hit_ratio s)], [''puts'', str_nat (cs_puts s)],
      [''deletes'', str_nat (cs_deletes s)], [''evictions'', str_nat (cs_evictions s)],
      [''expirations'', str_nat (cs_expirations s)], [''size'', str_nat (cs_size s)],
      [''queue_depth'', str_nat (cs_queue_depth s)], [''queue_dropped'', str_nat (cs_queue_dropped s)],
      [''worker_done'', str_nat (cs_worker_jobs_completed s)], [''worker_failed'', str_nat (cs_worker_jobs_failed s)],
      [''retries'', str_nat (cs_write_back_retries s)], [''stale_skips'', str_nat (cs_stale_write_back_jobs_skipped s)]]"

definition stats_table :: "('k, 'v) cache \<Rightarrow> cache_error + string" where
  "stats_table c = format_table [''metric'', ''value''] (stats_rows (cache_stats_of c))"

definition print_simulation :: "(time \<Rightarrow> string) \<Rightarrow> (sim_result \<times> time option) list \<Rightarrow> cache_error + string" where
  "print_simulation repr_float rows =
     format_table [''policy'', ''pattern'', ''requests'', ''hits'', ''misses'', ''hit_ratio'', ''evictions'', ''seconds'']
       (map (\<lambda>(r, seconds).
          [sr_policy r, sr_pattern r, str_int (sr_requests r), str_nat (sr_hits r), str_nat (sr_misses r),
           str_ratio4 (sr_hit_ratio r), str_nat (sr_evictions r),
           (case seconds of None \<Rightarrow> ''-'' | Some t \<Rightarrow> repr_float t)]) rows)"

text \<open>\<open>str\<close> of a JSON value and of a key.\<close>

fun repr_json :: "(time \<Rightarrow> string) \<Rightarrow> json \<Rightarrow> string" where
  "repr_json rf JNull = ''None''"
| "repr_json rf (JBool b) = (if b then ''True'' else ''False'')"
| "repr_json rf (JInt n) = str_int n"
| "repr_json rf (JFloat x) = rf x"
| "repr_json rf (JStr s) = repr_str s"
| "repr_json rf (JList js) = ''['' @ str_join '', '' (map (repr_json rf) js) @ '']''"
| "repr_json rf (JObj fs) = ''{'' @ str_join '', '' (map (\<lambda>(k, j). repr_str k @ '': '' @ repr_json rf j) fs) @ ''}''"

definition str_json :: "(time \<Rightarrow> string) \<Rightarrow> json \<Rightarrow> string" where
  "str_json rf j = (case j of JStr s \<Rightarrow> s | _ \<Rightarrow> repr_json rf j)"

definition str_key :: "(time \<Rightarrow> string) \<Rightarrow> pykey \<Rightarrow> string" where
  "str_key rf k = (case k of KStr s \<Rightarrow> s | _ \<Rightarrow> repr_key rf k)"

definition str_bool :: "bool \<Rightarrow> string" where
  "str_bool b = (if b then ''True'' else ''False'')"

definition inspect_table :: "(time \<Rightarrow> string) \<Rightarrow> (pykey, json) entry_snapshot \<Rightarrow> cache_error + string" where
  "inspect_table rf s =
     format_table [''field'', ''value'']
       [[''key'', str_key rf (es_key s)], [''value'', str_json rf (es_value s)],
        [''hit_count'', str_int (es_hit_count s)], [''ttl_remaining'', fmt_float (es_ttl_remaining s)],
        [''version'', str_nat (es_version s)], [''dirty'', str_bool (es_dirty s)]]"

definition dump_table :: "(time \<Rightarrow> string) \<Rightarrow> (pykey, json) entry_snapshot list \<Rightarrow> cache_error + string" where
  "dump_table rf snaps =
     format_table [''key'', ''value'', ''version'', ''ttl'', ''hits'']
       (let rows = map (\<lambda>s. [str_key rf (es_key s), str_json rf (es_value s), str_nat (es_version s),
                             fmt_float (es_ttl_remaining s), str_int (es_hit_count s)]) snaps
        in if rows = [] then [[''-'', ''-'', ''-'', ''-'', ''-'']] else rows)"

section \<open>The basic commands\<close>

text \<open>\<open>parse_cli_key\<close> and \<open>parse_cli_value\<close>, which differ only in the text of the error.\<close>

definition parse_cli :: "(string \<Rightarrow> json option) \<Rightarrow> bool \<Rightarrow> string \<Rightarrow> cache_error + json" where
  "parse_cli json_loads as_json raw =
     (if \<not> as_json then Inr (JStr raw)
      else case json_loads raw of None \<Rightarrow> Inl ValueError | Some j \<Rightarrow> Inr j)"

datatype command =
    CmdPut string string "time option" bool bool bool
  | CmdGet string bool
  | CmdDelete string bool
  | CmdContains string bool
  | CmdInspect string bool
  | CmdDump "int option"
  | CmdClear
  | CmdStats

fun command_key :: "command \<Rightarrow> (string \<times> bool) option" where
  "command_key (CmdPut key value ttl no_ttl vjson kjson) = Some (key, kjson)"
| "command_key (CmdGet key kjson) = Some (key, kjson)"
| "command_key (CmdDelete key kjson) = Some (key, kjson)"
| "command_key (CmdContains key kjson) = Some (key, kjson)"
| "command_key (CmdInspect key kjson) = Some (key, kjson)"
| "command_key _ = None"

record cli_env =
  env_hash :: "pykey \<Rightarrow> nat"
  env_repr_float :: "time \<Rightarrow> string"
  env_float_of :: "string \<Rightarrow> time option"
  env_json_loads :: "string \<Rightarrow> json option"
  env_wall_now :: time
  env_clock :: fake_clock

text \<open>The \<open>put\<close> command after the state has been loaded; an unhashable key fails after the TTL check.\<close>

definition command_put ::
  "cli_env \<Rightarrow> json \<Rightarrow> string \<Rightarrow> string \<Rightarrow> time option \<Rightarrow> bool \<Rightarrow> bool \<Rightarrow> (pykey, json) cache \<Rightarrow> cache_error + (string \<times> state_file)" where
  "command_put env key raw_key raw_value ttl no_ttl vjson c =
     (if no_ttl \<and> ttl \<noteq> None then Inl ValueError
      else case parse_cli (env_json_loads env) vjson raw_value of
        Inl e \<Rightarrow> Inl e
      | Inr v \<Rightarrow>
          (let arg = (if no_ttl then TTL_NONE else case ttl of None \<Rightarrow> TTL_UNSET | Some t \<Rightarrow> TTL_SECONDS t) in
           case validate_explicit_ttl arg of
             Some e \<Rightarrow> Inl e
           | None \<Rightarrow>
               (case json_key key of
                  Inl e \<Rightarrow> Inl e
                | Inr k \<Rightarrow>
                    (case cache_put (env_hash env) k v arg c of
                       (Inl e, c1) \<Rightarrow> Inl e
                     | (Inr u, c1) \<Rightarrow>
                         (case save_cache_state c1 of
                            (Inl e, c2) \<Rightarrow> Inl e
                          | (Inr f, c2) \<Rightarrow> Inr (''stored '' @ raw_key, f))))))"

text \<open>The other commands: the text printed and the new state file, if one is written.\<close>

definition run_command ::
  "cli_env \<Rightarrow> command \<Rightarrow> json \<Rightarrow> (pykey, json) cache \<Rightarrow> cache_error + (string \<times> state_file option)" where
  "run_command env cmd key c =
     (let h = env_hash env; rf = env_repr_float env;
          keyed = (\<lambda>f. case json_key key of Inl e \<Rightarrow> Inl e | Inr k \<Rightarrow> f k)
      in case cmd of
           CmdPut raw_key raw_value ttl no_ttl vjson kjson \<Rightarrow>
             map_sum id (\<lambda>(out, f). (out, Some f)) (command_put env key raw_key raw_value ttl no_ttl vjson c)
         | CmdGet raw kjson \<Rightarrow>
             keyed (\<lambda>k. case fst (cache_get h k None c) of
                          Inl e \<Rightarrow> Inl e
                        | Inr None \<Rightarrow> Inr (''(miss)'', None)
                        | Inr (Some v) \<Rightarrow> Inr (str_json rf v, None))
         | CmdDelete raw kjson \<Rightarrow>
             keyed (\<lambda>k. case cache_delete h k c of
                          (Inl e, c1) \<Rightarrow> Inl e
                        | (Inr deleted, c1) \<Rightarrow>
                            (case save_cache_state c1 of
                               (Inl e, c2) \<Rightarrow> Inl e
                             | (Inr f, c2) \<Rightarrow> Inr (if deleted then ''deleted'' else ''not found'', Some f)))
         | CmdContains raw kjson \<Rightarrow>
             keyed (\<lambda>k. case fst (cache_contains h k c) of
                          Inl e \<Rightarrow> Inl e | Inr b \<Rightarrow> Inr (if b then ''yes'' else ''no'', None))
         | CmdInspect raw kjson \<Rightarrow>
             keyed (\<lambda>k. case fst (cache_inspect h k c) of
                          Inl e \<Rightarrow> Inl e
                        | Inr None \<Rightarrow> Inr (''not found'', None)
                        | Inr (Some s) \<Rightarrow> map_sum id (\<lambda>t. (t, None)) (inspect_table rf s))
         | CmdDump limit \<Rightarrow>
             (case fst (cache_dump limit c) of
                Inl e \<Rightarrow> Inl e | Inr snaps \<Rightarrow> map_sum id (\<lambda>t. (t, None)) (dump_table rf snaps))
         | CmdClear \<Rightarrow>
             (case cache_clear c of
                (Inl e, c1) \<Rightarrow> Inl e
              | (Inr u, c1) \<Rightarrow>
                  (case save_cache_state c1 of (Inl e, c2) \<Rightarrow> Inl e | (Inr f, c2) \<Rightarrow> Inr (''cleared'', Some f)))
         | CmdStats \<Rightarrow> map_sum id (\<lambda>t. (t, None)) (stats_table c))"

text \<open>
  \<open>run_basic\<close>, under the lock of the state file: the text printed or the error, the
  notices, and the state file afterwards.
\<close>

definition run_basic ::
  "cli_env \<Rightarrow> cli_args \<Rightarrow> command \<Rightarrow> state_file \<Rightarrow> (cache_error + string) \<times> notice list \<times> state_file" where
  "run_basic env a cmd f =
     (case load_cache_state (env_hash env) (env_float_of env) a (env_wall_now env) (env_clock env) f of
        (Inl e, ns) \<Rightarrow> (Inl e, ns, f)
      | (Inr c, ns) \<Rightarrow>
          (case (case command_key cmd of
                   None \<Rightarrow> Inr JNull
                 | Some (raw, kjson) \<Rightarrow> parse_cli (env_json_loads env) kjson raw) of
             Inl e \<Rightarrow> (Inl e, ns, f)
           | Inr key \<Rightarrow>
               (case run_command env cmd key c of
                  Inl e \<Rightarrow> (Inl e, ns, f)
                | Inr (out, saved) \<Rightarrow> (Inr out, ns, arg_or saved f))))"

section \<open>Simulate, benchmark and the exit code\<close>

definition run_simulate ::
  "(string \<Rightarrow> nat) \<Rightarrow> rng \<Rightarrow> (time \<Rightarrow> string) \<Rightarrow> string \<Rightarrow> string \<Rightarrow> int \<Rightarrow> int \<Rightarrow> int \<Rightarrow> fake_clock \<Rightarrow> cache_error + string" where
  "run_simulate h r rf policy pattern capacity requests shards clock =
     (case run_simulation h r policy pattern capacity requests shards clock of
        Inl e \<Rightarrow> Inl e | Inr res \<Rightarrow> print_simulation rf [(res, None)])"

text \<open>\<open>[p.strip() for p in text.split(",") if p.strip()]\<close>.\<close>

definition is_space :: "char \<Rightarrow> bool" where
  "is_space c \<longleftrightarrow> (let n = (of_char c :: nat) in 9 \<le> n \<and> n \<le> 13 \<or> 28 \<le> n \<and> n \<le> 32 \<or> n = 133 \<or> n = 160)"

definition strip :: "string \<Rightarrow> string" where
  "strip s = rev (dropWhile is_space (rev (dropWhile is_space s)))"

fun split_commas :: "string \<Rightarrow> string list" where
  "split_commas [] = [[]]"
| "split_commas (c # cs) =
     (if c = CHR '','' then [] # split_commas cs
      else (case split_commas cs of [] \<Rightarrow> [[c]] | s # ss \<Rightarrow> (c # s) # ss))"

definition run_benchmark ::
  "(string \<Rightarrow> nat) \<Rightarrow> rng \<Rightarrow> (time \<Rightarrow> string) \<Rightarrow> (string \<Rightarrow> time) \<Rightarrow> string \<Rightarrow> string \<Rightarrow> int \<Rightarrow> int \<Rightarrow> int \<Rightarrow> fake_clock \<Rightarrow>
     cache_error + string" where
  "run_benchmark h r rf elapsed policies pattern capacity requests shards clock =
     (case benchmark_policies h r elapsed (filter (\<lambda>p. p \<noteq> []) (map strip (split_commas policies)))
             pattern capacity requests shards clock of
        Inl e \<Rightarrow> Inl e
      | Inr rows \<Rightarrow> print_simulation rf (map (\<lambda>row. (br_result row, Some (br_seconds row))) rows))"

text \<open>\<open>main\<close>: every exception becomes exit code 1.\<close>

definition exit_code :: "cache_error + 'a \<Rightarrow> nat" where
  "exit_code r = (case r of Inl e \<Rightarrow> 1 | Inr out \<Rightarrow> 0)"

end
