(* ===== verification/Cli_Roundtrip.thy ===== *)
theory Cli_Roundtrip
  imports Cli
begin

text \<open>
  Saving a cache and loading it again: the reloaded cache has the same live entries, each
  with its value, its remaining lifetime and its hit count.
\<close>

section \<open>What a dump shows\<close>

lemma dump_entries_snaps:
  "fst (dump_entries_locked now es snaps sh) = snaps @ map (snapshot_of now) (filter (\<lambda>e. \<not> is_expired now e) es)"
  by (induction now es snaps sh rule: dump_entries_locked.induct) simp_all

definition live_of :: "time \<Rightarrow> ('k, 'v) shard \<Rightarrow> ('k, 'v) cache_entry list" where
  "live_of now sh = filter (\<lambda>e. \<not> is_expired now e) (mem_entries (sh_backend sh))"

definition live_entries :: "('k, 'v) cache \<Rightarrow> ('k, 'v) cache_entry list" where
  "live_entries c = concat (map (live_of (cache_now c)) (c_shards c))"

lemma dump_shards_snaps:
  assumes "distinct is" and "\<forall>i \<in> set is. i < length (c_shards c)"
  shows "fst (dump_shards is snaps c) = snaps @ map (snapshot_of (cache_now c)) (concat (map (\<lambda>i. live_of (cache_now c) (c_shards c ! i)) is)) \<and>
     c_config (snd (dump_shards is snaps c)) = c_config c"
  using assms
proof (induction "is" arbitrary: snaps c)
  case (Cons i "is")
  let ?f = "\<lambda>sh. dump_entries_locked (cache_now c) (mem_entries (sh_backend sh)) snaps sh"
  obtain snaps1 c1 where r: "on_shard i ?f c = (snaps1, c1)" by fastforce
  have c1: "cache_now c1 = cache_now c" "c_config c1 = c_config c" "length (c_shards c1) = length (c_shards c)"
    "j \<noteq> i \<Longrightarrow> c_shards c1 ! j = c_shards c ! j" for j
    using r by (auto simp: on_shard_def case_prod_beta cache_now_def)
  have snaps1: "snaps1 = snaps @ map (snapshot_of (cache_now c)) (live_of (cache_now c) (c_shards c ! i))"
    using arg_cong [OF r, of fst] by (simp add: on_shard_def case_prod_beta dump_entries_snaps live_of_def)
  have "map (\<lambda>j. live_of (cache_now c) (c_shards c1 ! j)) is = map (\<lambda>j. live_of (cache_now c) (c_shards c ! j)) is"
  proof (rule map_cong [OF refl])
    fix j assume "j \<in> set is"
    with Cons.prems(1) have "j \<noteq> i" by auto
    with c1(4) show "live_of (cache_now c) (c_shards c1 ! j) = live_of (cache_now c) (c_shards c ! j)" by simp
  qed
  with Cons.IH [of c1 snaps1] Cons.prems c1(1-3) r snaps1 show ?case by simp
qed simp

lemma cache_dump_snaps:
  assumes "c_state c \<notin> {CLOSED, CLOSING}"
  shows "fst (cache_dump None c) = Inr (map (snapshot_of (cache_now c)) (live_entries c))"
    and "c_config (snd (cache_dump None c)) = c_config c"
proof -
  have "map (\<lambda>i. live_of (cache_now c) (c_shards c ! i)) [0..<length (c_shards c)] = map (live_of (cache_now c)) (c_shards c)"
    by (rule nth_equalityI) auto
  with dump_shards_snaps [of "[0..<length (c_shards c)]" c "[]"] assms
  show "fst (cache_dump None c) = Inr (map (snapshot_of (cache_now c)) (live_entries c))"
    "c_config (snd (cache_dump None c)) = c_config c"
    by (simp_all add: cache_dump_def unless_closed_def require_not_closed_def case_prod_beta live_entries_def)
qed

section \<open>Live entries and lookups\<close>

lemma backend_entries:
  assumes "shard_inv sh"
  shows "distinct (map ce_key (mem_entries (sh_backend sh)))"
    and "ce_key ` set (mem_entries (sh_backend sh)) = sh_live sh"
    and "e \<in> set (mem_entries (sh_backend sh)) \<longleftrightarrow> dict_get (sh_backend sh) (ce_key e) = Some e"
    and "length (mem_entries (sh_backend sh)) = mem_size (sh_backend sh)"
proof -
  have wf: "dict_wf (sh_backend sh)" using assms by (simp add: shard_inv_def core_defs mem_inv_def)
  have key: "ce_key e = k" if "(k, e) \<in> set (sh_backend sh)" for k e
    using inv_entry_key [OF assms] wf that by (simp add: map_of_eq_Some_iff)
  have keys: "map ce_key (mem_entries (sh_backend sh)) = map fst (sh_backend sh)"
    using key by (auto simp: mem_entries_def)
  then show "distinct (map ce_key (mem_entries (sh_backend sh)))" using wf by simp
  show "ce_key ` set (mem_entries (sh_backend sh)) = sh_live sh" using arg_cong [OF keys, of set] by simp
  show "e \<in> set (mem_entries (sh_backend sh)) \<longleftrightarrow> dict_get (sh_backend sh) (ce_key e) = Some e"
  proof -
    have "e \<in> set (mem_entries (sh_backend sh)) \<longleftrightarrow> (\<exists>k. (k, e) \<in> set (sh_backend sh))" by (force simp: mem_entries_def)
    also have "\<dots> \<longleftrightarrow> (ce_key e, e) \<in> set (sh_backend sh)" using key by blast
    finally show ?thesis by (simp add: map_of_eq_Some_iff [OF wf])
  qed
  show "length (mem_entries (sh_backend sh)) = mem_size (sh_backend sh)" by (simp add: mem_entries_def mem_size_def)
qed

lemma live_of_shard:
  assumes inv: "cache_inv h c" and i: "i < length (c_shards c)"
  shows "e \<in> set (live_of (cache_now c) (c_shards c ! i)) \<longleftrightarrow> lookup h c (ce_key e) = Some e \<and> shard_for h c (ce_key e) = i"
proof -
  have si: "shard_inv (c_shards c ! i)" by (rule cache_inv_shard [OF inv i])
  have routed: "shard_for h c (ce_key e) = i" if "e \<in> set (mem_entries (sh_backend (c_shards c ! i)))"
  proof -
    have "ce_key e \<in> sh_live (c_shards c ! i)" using that backend_entries(2) [OF si] by blast
    then show ?thesis using inv i unfolding cache_inv_def shard_at_def shard_for_def by blast
  qed
  show ?thesis
    using routed backend_entries(3) [OF si, of e] by (auto simp: live_of_def lookup_def split: option.splits if_splits)
qed

lemma live_entries_lookup:
  assumes inv: "cache_inv h c"
  shows "e \<in> set (live_entries c) \<longleftrightarrow> lookup h c (ce_key e) = Some e"
proof -
  have "e \<in> set (live_entries c) \<longleftrightarrow> (\<exists>i < length (c_shards c). e \<in> set (live_of (cache_now c) (c_shards c ! i)))"
    by (simp add: live_entries_def) (metis in_set_conv_nth)
  also have "\<dots> \<longleftrightarrow> lookup h c (ce_key e) = Some e"
    using live_of_shard [OF inv] shard_for_less [OF inv, of "ce_key e"] by auto
  finally show ?thesis .
qed

lemma lookup_key:
  assumes "cache_inv h c" and "lookup h c k = Some e"
  shows "ce_key e = k"
proof -
  have "dict_get (sh_backend (c_shards c ! shard_for h c k)) k = Some e"
    using assms(2) by (auto simp: lookup_def split: option.splits if_splits)
  then show ?thesis by (rule inv_entry_key [OF cache_inv_shard [OF assms(1) shard_for_less [OF assms(1)]]])
qed

text \<open>The entries of different shards have different keys, and a shard's share fits into it.\<close>

lemma distinct_concat_by:
  assumes "\<And>i. i < length xss \<Longrightarrow> distinct (map f (xss ! i))"
    and "\<And>i x. i < length xss \<Longrightarrow> x \<in> set (xss ! i) \<Longrightarrow> g (f x) = i"
  shows "distinct (map f (concat xss))"
    and "j < length xss \<Longrightarrow> filter (\<lambda>x. g (f x) = j) (concat xss) = xss ! j"
proof -
  have "distinct (map f (concat xss)) \<and> (\<forall>j < length xss. filter (\<lambda>x. g (f x) = j) (concat xss) = xss ! j) \<and>
      (\<forall>x \<in> set (concat xss). g (f x) < length xss)"
    using assms
  proof (induction xss rule: rev_induct)
    case (snoc xs xss)
    have pre: "i < length xss \<Longrightarrow> distinct (map f (xss ! i))" "i < length xss \<Longrightarrow> x \<in> set (xss ! i) \<Longrightarrow> g (f x) = i" for i x
      using snoc.prems(1,2) [of i] by (simp_all add: nth_append)
    note IH = snoc.IH [OF pre]
    have last: "distinct (map f xs)" "x \<in> set xs \<Longrightarrow> g (f x) = length xss" for x
      using snoc.prems [of "length xss"] by auto
    have "f x \<noteq> f y" if "x \<in> set (concat xss)" "y \<in> set xs" for x y
      using IH that last(2) by (metis less_irrefl)
    then have d: "distinct (map f (concat (xss @ [xs])))" using IH last(1) by auto
    have "filter (\<lambda>x. g (f x) = j) (concat (xss @ [xs])) = (xss @ [xs]) ! j" if "j < length (xss @ [xs])" for j
    proof (cases "j = length xss")
      case True
      have "filter (\<lambda>x. g (f x) = j) (concat xss) = []" using IH True by (fastforce simp: filter_empty_conv)
      moreover have "filter (\<lambda>x. g (f x) = j) xs = xs" using last(2) True by (auto simp: filter_id_conv)
      ultimately show ?thesis using True by simp
    next
      case False
      then have "filter (\<lambda>x. g (f x) = j) xs = []" using last(2) by (auto simp: filter_empty_conv)
      then show ?thesis using False that IH by (simp add: nth_append)
    qed
    moreover have "\<forall>x \<in> set (concat (xss @ [xs])). g (f x) < length (xss @ [xs])" using IH last(2) less_SucI by fastforce
    ultimately show ?case using d by blast
  qed simp
  then show "distinct (map f (concat xss))" "j < length xss \<Longrightarrow> filter (\<lambda>x. g (f x) = j) (concat xss) = xss ! j" by blast+
qed

lemma live_entries_shape:
  assumes inv: "cache_inv h c"
  shows "distinct (map ce_key (live_entries c))"
    and "i < length (c_shards c) \<Longrightarrow> length (filter (\<lambda>e. shard_for h c (ce_key e) = i) (live_entries c)) \<le> sh_capacity (c_shards c ! i)"
proof -
  let ?xss = "map (live_of (cache_now c)) (c_shards c)"
  have d: "distinct (map ce_key (?xss ! j))" if "j < length ?xss" for j
    using backend_entries(1) [OF cache_inv_shard [OF inv, of j]] that by (simp add: live_of_def distinct_map_filter)
  have r: "shard_for h c (ce_key e) = j" if "j < length ?xss" "e \<in> set (?xss ! j)" for j e
    using live_of_shard [OF inv, of j e] that by simp
  note D = distinct_concat_by [where f = ce_key and g = "shard_for h c", OF d r]
  show "distinct (map ce_key (live_entries c))" unfolding live_entries_def by (rule D(1))
  assume i: "i < length (c_shards c)"
  then have "filter (\<lambda>e. shard_for h c (ce_key e) = i) (live_entries c) = live_of (cache_now c) (c_shards c ! i)"
    unfolding live_entries_def using D(2) [of i] by simp
  moreover have "length (live_of (cache_now c) (c_shards c ! i)) \<le> mem_size (sh_backend (c_shards c ! i))"
    unfolding live_of_def backend_entries(4) [OF cache_inv_shard [OF inv i], symmetric] by simp
  moreover have "mem_size (sh_backend (c_shards c ! i)) \<le> sh_capacity (c_shards c ! i)"
    using cache_inv_shard [OF inv i] by (simp add: shard_inv_def)
  ultimately show "length (filter (\<lambda>e. shard_for h c (ce_key e) = i) (live_entries c)) \<le> sh_capacity (c_shards c ! i)" by simp
qed

section \<open>Loading what was saved\<close>

text \<open>
  The keys that survive a JSON file: \<open>None\<close>, numbers and strings. A tuple would come back as a
  list, which is not hashable; a key equal to an integer is represented by the integer.
\<close>

fun cli_key :: "pykey \<Rightarrow> bool" where
  "cli_key KNone = True"
| "cli_key (KBool b) = False"
| "cli_key (KInt n) = True"
| "cli_key (KFloat x) = (x \<noteq> of_int \<lfloor>x\<rfloor>)"
| "cli_key (KStr s) = True"
| "cli_key (KTuple ks) = False"

lemma json_key_key_json: "cli_key k \<Longrightarrow> json_key (key_json k) = Inr k"
  by (cases k) (simp_all add: json_key_def)

definition item_of :: "time \<Rightarrow> (pykey, json) cache_entry \<Rightarrow> (string, json) dict" where
  "item_of now e =
     [(''key'', key_json (ce_key e)), (''value'', ce_value e),
      (''ttl_remaining'', json_option (es_ttl_remaining (snapshot_of now e))), (''hit_count'', JInt (ce_hit_count e))]"

lemma state_item_snapshot: "state_item (snapshot_of now e) = JObj (item_of now e)"
  by (simp add: state_item_def item_of_def)

lemma item_of_fields:
  "dict_get (item_of now e) ''key'' = Some (key_json (ce_key e))" "dict_get (item_of now e) ''value'' = Some (ce_value e)"
  "dict_get (item_of now e) ''hit_count'' = Some (JInt (ce_hit_count e))"
  by (simp_all add: item_of_def)

definition reload_ttl :: "time \<Rightarrow> ('k, 'v) cache_entry \<Rightarrow> ttl_arg" where
  "reload_ttl now e = (case ce_expires_at e of None \<Rightarrow> TTL_NONE | Some t \<Rightarrow> TTL_SECONDS (t - now))"

lemma ttl_from_item_of:
  "\<not> is_expired now e \<Longrightarrow> ttl_from_state_item float_of wall_now (item_of now e) = (Some (reload_ttl now e), False)"
  by (auto simp: ttl_from_state_item_def item_of_def json_option_def snapshot_of_def reload_ttl_def to_float_def is_expired_def
      split: option.splits)

text \<open>An entry of the reloaded cache that stands for a saved one.\<close>

definition reloaded :: "time \<Rightarrow> time \<Rightarrow> ('k, 'v) cache_entry \<Rightarrow> ('k, 'v) cache_entry \<Rightarrow> bool" where
  "reloaded now now' e e' \<longleftrightarrow> ce_key e' = ce_key e \<and> ce_value e' = ce_value e \<and> ce_hit_count e' = max 0 (ce_hit_count e) \<and>
     ce_expires_at e' = map_option (\<lambda>t. t - now + now') (ce_expires_at e)"

lemma load_item_new:
  assumes pl: "plain h c" and live: "\<not> is_expired now e" and key: "cli_key (ce_key e)" and new: "stored h c (ce_key e) = None"
    and room: "fill c (shard_for h c (ce_key e)) < sh_capacity (c_shards c ! shard_for h c (ce_key e))"
  shows "\<exists>c' e'. load_item h (item_of now e) (reload_ttl now e) c = (Inr (), c') \<and> plain h c' \<and> same_frame c c' \<and>
    stored h c' = (stored h c)(ce_key e \<mapsto> e') \<and> reloaded now (cache_now c) e e' \<and>
    (\<forall>i. fill c' i = fill c i + of_bool (i = shard_for h c (ce_key e)))"
proof -
  let ?k = "ce_key e" and ?ttl = "reload_ttl now e"
  have ttl: "validate_explicit_ttl ?ttl = None"
    using live by (auto simp: reload_ttl_def validate_explicit_ttl_def is_expired_def split: option.splits)
  have expiry: "snd (resolve_ttl d (None :: (pykey, json) cache_entry option) ?ttl t) = map_option (\<lambda>x. x - now + t) (ce_expires_at e)" for d t
    using live by (auto simp: reload_ttl_def resolve_ttl_def is_expired_def split: option.splits)
  obtain r c1 where put: "cache_put h ?k (ce_value e) ?ttl c = (r, c1)" by fastforce
  note P = plain_put_new [OF pl ttl new room, of "ce_value e", unfolded put, simplified]
  obtain e1 where e1: "stored h c1 = (stored h c)(?k \<mapsto> e1)" "ce_value e1 = ce_value e" "ce_hit_count e1 = 0" "ce_key e1 = ?k"
    "ce_expires_at e1 = map_option (\<lambda>x. x - now + cache_now c) (ce_expires_at e)" using P(4) expiry by auto
  show ?thesis
  proof (cases "0 < ce_hit_count e")
    case False
    then have "load_item h (item_of now e) ?ttl c = (Inr (), c1)"
      using put P(1) json_key_key_json [OF key] by (simp add: load_item_def item_of_fields json_hits_def arg_or_def)
    with P(2,3,5) e1 False show ?thesis by (intro exI [of _ c1] exI [of _ e1]) (simp add: reloaded_def)
  next
    case True
    obtain r2 c2 where res: "restore_entry_metadata h ?k (ce_hit_count e) c1 = (r2, c2)" by fastforce
    note R = plain_restore [OF P(2), of ?k "ce_hit_count e", unfolded res, simplified]
    have "load_item h (item_of now e) ?ttl c = (Inr (), c2)"
      using put P(1) json_key_key_json [OF key] True res R(1) by (simp add: load_item_def item_of_fields json_hits_def arg_or_def)
    moreover have "stored h c2 = (stored h c)(?k \<mapsto> e1\<lparr>ce_hit_count := ce_hit_count e\<rparr>)" using R(5) e1(1) by simp
    ultimately show ?thesis using P(5) R(2,4) same_frame_trans [OF P(3) R(3)] e1 True
      by (intro exI [of _ c2] exI [of _ "e1\<lparr>ce_hit_count := ce_hit_count e\<rparr>"]) (simp add: reloaded_def)
  qed
qed

lemma load_items_all:
  assumes "plain h c" and "\<forall>e \<in> set es. \<not> is_expired now e \<and> cli_key (ce_key e) \<and> stored h c (ce_key e) = None"
    and "distinct (map ce_key es)"
    and "\<forall>i < length (c_shards c). fill c i + length (filter (\<lambda>e. shard_for h c (ce_key e) = i) es) \<le> sh_capacity (c_shards c ! i)"
  shows "\<exists>c'. load_items h float_of wall_now (map (item_of now) es) legacy c = (Inr (), legacy, c') \<and> plain h c' \<and> same_frame c c' \<and>
    (\<forall>e \<in> set es. \<exists>e'. stored h c' (ce_key e) = Some e' \<and> reloaded now (cache_now c) e e') \<and>
    (\<forall>k. k \<notin> ce_key ` set es \<longrightarrow> stored h c' k = stored h c k)"
  using assms
proof (induction es arbitrary: c)
  case (Cons e es)
  let ?k = "ce_key e"
  have i: "shard_for h c ?k < length (c_shards c)" using shard_for_less Cons.prems(1) by (auto simp: plain_def)
  have room: "fill c (shard_for h c ?k) < sh_capacity (c_shards c ! shard_for h c ?k)" using Cons.prems(4) i by force
  obtain c1 e1 where c1: "load_item h (item_of now e) (reload_ttl now e) c = (Inr (), c1)" "plain h c1" "same_frame c c1"
    "stored h c1 = (stored h c)(?k \<mapsto> e1)" "reloaded now (cache_now c) e e1"
    "\<forall>i. fill c1 i = fill c i + of_bool (i = shard_for h c ?k)"
    using load_item_new [OF Cons.prems(1) _ _ _ room, of now] Cons.prems(2) by auto
  have "\<forall>e' \<in> set es. \<not> is_expired now e' \<and> cli_key (ce_key e') \<and> stored h c1 (ce_key e') = None"
    using Cons.prems(2,3) c1(4) by (auto simp: image_iff)
  moreover have "\<forall>i < length (c_shards c1). fill c1 i + length (filter (\<lambda>e. shard_for h c1 (ce_key e) = i) es) \<le> sh_capacity (c_shards c1 ! i)"
  proof (intro allI impI)
    fix j assume "j < length (c_shards c1)"
    with c1(3) have j: "j < length (c_shards c)" by (simp add: same_frame_length)
    with Cons.prems(4) have "fill c j + length (filter (\<lambda>e. shard_for h c (ce_key e) = j) (e # es)) \<le> sh_capacity (c_shards c ! j)" by blast
    with c1(6) j show "fill c1 j + length (filter (\<lambda>e. shard_for h c1 (ce_key e) = j) es) \<le> sh_capacity (c_shards c1 ! j)"
      by (simp add: same_frame_shard_for [OF c1(3)] same_frame_capacity [OF c1(3)] split: if_splits)
  qed
  ultimately obtain c' where c': "load_items h float_of wall_now (map (item_of now) es) legacy c1 = (Inr (), legacy, c')"
    "plain h c'" "same_frame c1 c'" "\<forall>e \<in> set es. \<exists>e'. stored h c' (ce_key e) = Some e' \<and> reloaded now (cache_now c) e e'"
    "\<forall>k. k \<notin> ce_key ` set es \<longrightarrow> stored h c' k = stored h c1 k"
    using Cons.IH [OF c1(2)] Cons.prems(3) same_frame_now [OF c1(3)] by auto
  have "?k \<notin> ce_key ` set es" using Cons.prems(3) by simp
  with c'(5) c1(4) have "stored h c' ?k = Some e1" by simp
  with c1 c' Cons.prems(2) show ?case
    using same_frame_trans [OF c1(3) c'(3)] by (intro exI [of _ c']) (simp add: ttl_from_item_of)
qed simp

section \<open>The round trip\<close>

text \<open>What a client can see of a key: value, remaining lifetime and hit count.\<close>

definition visible :: "('k \<Rightarrow> nat) \<Rightarrow> ('k, 'v) cache \<Rightarrow> 'k \<Rightarrow> ('v \<times> time option \<times> int) option" where
  "visible h c k = map_option (\<lambda>e. (ce_value e, map_option (\<lambda>t. t - cache_now c) (ce_expires_at e), ce_hit_count e)) (lookup h c k)"

lemma visible_stored:
  assumes "reloaded now (cache_now c') e e'" and "\<not> is_expired now e" and "stored h c' (ce_key e) = Some e'"
  shows "visible h c' (ce_key e) =
    Some (ce_value e, map_option (\<lambda>t. t - now) (ce_expires_at e), max 0 (ce_hit_count e))"
proof -
  have "\<not> is_expired (cache_now c') e'"
    using assms(1,2) by (auto simp: reloaded_def is_expired_def split: option.splits)
  with assms(1,3) show ?thesis by (simp add: visible_def lookup_stored reloaded_def option.map_comp comp_def)
qed

lemma save_result:
  assumes "c_state c \<notin> {CLOSED, CLOSING}"
  shows "fst (save_cache_state c) = Inr (write_json [(''config'', saved_config (c_config c)),
    (''entries'', JList (map state_item (map (snapshot_of (cache_now c)) (live_entries c))))])"
  using cache_dump_snaps [OF assms] by (cases "cache_dump None c") (simp add: save_cache_state_def)

lemma save_total: "c_state c \<notin> {CLOSED, CLOSING} \<Longrightarrow> \<exists>f c1. save_cache_state c = (Inr f, c1)"
  using save_result [of c] by (cases "save_cache_state c") simp

lemma saved_file:
  assumes "c_state c \<notin> {CLOSED, CLOSING}" and "save_cache_state c = (Inr f, c1)"
  shows "f = write_json [(''config'', saved_config (c_config c)),
    (''entries'', JList (map state_item (map (snapshot_of (cache_now c)) (live_entries c))))]"
  using save_result [OF assms(1)] assms(2) by simp

lemma load_saved:
  assumes inv: "cache_inv h c" and mode: "c_write_mode c = CACHE_ONLY" and keys: "\<forall>k. lookup h c k \<noteq> None \<longrightarrow> cli_key k"
    and config: "config_from_args a = Inr (c_config c)"
    and f: "f = write_json [(''config'', saved_config (c_config c)),
              (''entries'', JList (map state_item (map (snapshot_of (cache_now c)) (live_entries c))))]"
  shows "\<exists>c2. fst (load_cache_state h float_of a wall_now clock f) = Inr c2 \<and>
    (\<forall>k. visible h c2 k = map_option (\<lambda>(v, ttl, hits). (v, ttl, max 0 hits)) (visible h c k))"
proof -
  let ?cfg = "c_config c" and ?es = "live_entries c" and ?now = "cache_now c"
  have valid: "config_valid ?cfg" using inv by (simp add: cache_inv_def)
  obtain c0 :: "(pykey, json) cache" where c0: "cache_init (Some ?cfg) init_args_unset None clock = Inr c0" "c_config c0 = ?cfg"
    using cache_init_total [of "Some ?cfg" init_args_unset ?cfg None clock] valid by (auto simp: init_config_def init_conflicting_def init_args_unset_def)
  have mode0: "cfg_write_mode (c_config c0) = ''cache-only''"
    using inv mode c0(2) by (auto simp: cache_inv_def parse_write_mode_def split: if_splits)
  have pl: "plain h c0" and none: "stored h c0 k = None" and empty: "i < length (c_shards c0) \<Longrightarrow> fill c0 i = 0" for k i
    using cache_init_plain(1-3) [OF c0(1) _ mode0] valid by auto
  have inv0: "cache_inv h c0" using pl by (simp add: plain_def)
  have len: "length (c_shards c0) = length (c_shards c)" using inv inv0 c0(2) by (auto simp: cache_inv_def)
  then have route: "shard_for h c0 k = shard_for h c k" for k by (simp add: shard_for_def)
  have cap: "sh_capacity (c_shards c0 ! i) = sh_capacity (c_shards c ! i)" if "i < length (c_shards c)" for i
    using cache_inv_capacity [OF inv that] cache_inv_capacity [OF inv0, of i] that len c0(2) by simp
  have es: "\<not> is_expired ?now e \<and> cli_key (ce_key e) \<and> stored h c0 (ce_key e) = None" if "e \<in> set ?es" for e
    using that keys none live_entries_lookup [OF inv, of e] by (auto simp: lookup_stored split: option.splits if_splits)
  obtain c2 where c2: "load_items h float_of wall_now (map (item_of ?now) ?es) False c0 = (Inr (), False, c2)" "same_frame c0 c2"
    "\<forall>e \<in> set ?es. \<exists>e'. stored h c2 (ce_key e) = Some e' \<and> reloaded ?now (cache_now c0) e e'"
    "\<forall>k. k \<notin> ce_key ` set ?es \<longrightarrow> stored h c2 k = stored h c0 k"
    using load_items_all [OF pl, of ?es ?now float_of wall_now False] es live_entries_shape [OF inv] empty cap
    by (auto simp: len route)
  have "state_items [(''config'', saved_config ?cfg), (''entries'', JList (map state_item (map (snapshot_of ?now) ?es)))] =
      Inr (map (item_of ?now) ?es)"
    by (simp add: state_items_def state_item_snapshot item_of_fields comp_def)
  then have "fst (load_cache_state h float_of a wall_now clock f) = Inr c2"
    unfolding f using config c0(1) c2(1) by (simp add: load_cache_state_def read_json_def write_json_def Let_def)
  moreover have "visible h c2 k = map_option (\<lambda>(v, ttl, hits). (v, ttl, max 0 hits)) (visible h c k)" for k
  proof (cases "lookup h c k")
    case None
    then have "k \<notin> ce_key ` set ?es" using live_entries_lookup [OF inv] by auto
    with c2(4) none None show ?thesis by (simp add: visible_def lookup_stored)
  next
    case (Some e)
    with lookup_key [OF inv Some] have e: "e \<in> set ?es" "ce_key e = k" using live_entries_lookup [OF inv, of e] by auto
    with c2(3) obtain e' where "stored h c2 k = Some e'" "reloaded ?now (cache_now c2) e e'"
      using same_frame_now [OF c2(2)] by auto
    with e es [of e] visible_stored [of ?now c2 e e' h] Some show ?thesis by (simp add: visible_def)
  qed
  ultimately show ?thesis by blast
qed

text \<open>
  C29: Saving and loading is a round trip: for an open cache-only cache reached from a fresh
  one by any history of operations, whose keys are strings, numbers or \<open>None\<close>, the state file that
  \<open>_save_cache_state\<close> writes is loaded by \<open>_load_cache_state\<close> under the same
  configuration into a cache that shows exactly the same keys, each with the same value,
  the same remaining lifetime and the same hit count (a negative count, which only
  \<open>restore_entry_metadata\<close> can set, comes back as zero).
\<close>

theorem state_roundtrip:
  assumes "config_post_init cfg = Inr cfg" and "cache_init (Some cfg) init_args_unset source clock0 = Inr c0"
    and "c = run h acts c0" and "c_state c \<notin> {CLOSED, CLOSING}" and "c_write_mode c = CACHE_ONLY"
    and "\<forall>k. lookup h c k \<noteq> None \<longrightarrow> cli_key k" and "config_from_args a = Inr (c_config c)"
  shows "\<exists>f c1 c2. save_cache_state c = (Inr f, c1) \<and> fst (load_cache_state h float_of a wall_now clock f) = Inr c2 \<and>
    (\<forall>k. visible h c2 k = map_option (\<lambda>(v, ttl, hits). (v, ttl, max 0 hits)) (visible h c k))"
proof -
  have inv: "cache_inv h c" unfolding assms(3) by (rule init_run_inv [OF assms(1,2)])
  obtain f c1 where saved: "save_cache_state c = (Inr f, c1)" using save_total [OF assms(4)] by blast
  with load_saved [OF inv assms(5-7) saved_file [OF assms(4) saved], of float_of wall_now clock] show ?thesis by blast
qed

definition cli_sample :: "(pykey, json) cache" where
  "cli_sample =
     (case cache_init (Some (sample_config ''cache-only'' 0)) init_args_unset None (fake_clock_init 0) of
        Inr c \<Rightarrow> c | Inl e \<Rightarrow> undefined)"

definition cli_sample_acts :: "(pykey, json) action list" where
  "cli_sample_acts = [Put (KStr ''a'') (JInt 7) (TTL_SECONDS 5), Put (KInt 3) (JStr ''x'') TTL_UNSET, Advance 1, Get (KStr ''a'') None]"

definition key_size :: "pykey \<Rightarrow> nat" where
  "key_size k = (case k of KStr s \<Rightarrow> length s | _ \<Rightarrow> 0)"

lemma cli_sample_evaluated:
  "cache_init (Some (sample_config ''cache-only'' 0)) init_args_unset None (fake_clock_init 0) = Inr cli_sample"
  "c_state (run key_size cli_sample_acts cli_sample) = CREATED" "c_write_mode (run key_size cli_sample_acts cli_sample) = CACHE_ONLY"
  "list_all (\<lambda>sh. list_all cli_key (mem_keys (sh_backend sh))) (c_shards (run key_size cli_sample_acts cli_sample))"
  "c_config (run key_size cli_sample_acts cli_sample) = sample_config ''cache-only'' 0"
  "visible key_size (run key_size cli_sample_acts cli_sample) (KStr ''a'') = Some (JInt 7, Some 4, 1)"
  by code_simp+

lemma lookup_in_keys:
  assumes "cache_inv h c" and "list_all (\<lambda>sh. list_all P (mem_keys (sh_backend sh))) (c_shards c)" and "lookup h c k \<noteq> None"
  shows "P k"
proof -
  let ?sh = "c_shards c ! shard_for h c k"
  have "?sh \<in> set (c_shards c)" using shard_for_less [OF assms(1)] by simp
  moreover have "k \<in> set (mem_keys (sh_backend ?sh))"
    using assms(3) by (auto simp: lookup_def mem_keys_def dest: dict_get_in_keys split: option.splits)
  ultimately show ?thesis using assms(2) by (auto simp: list_all_iff)
qed

theorem state_roundtrip_witness:
  "\<exists>f c1 c2. save_cache_state (run key_size cli_sample_acts cli_sample) = (Inr f, c1) \<and>
     fst (load_cache_state key_size (\<lambda>s. None) \<lparr>a_config = Some (Inr (sample_config ''cache-only'' 0)), a_capacity = 3,
        a_policy = ''lru'', a_shards = 2, a_default_ttl = None\<rparr> 0 (fake_clock_init 100) f) = Inr c2 \<and>
     visible key_size c2 (KStr ''a'') = Some (JInt 7, Some 4, 1)"
proof -
  note S = cli_sample_evaluated
  have "lookup key_size (run key_size cli_sample_acts cli_sample) k \<noteq> None \<longrightarrow> cli_key k" for k
    using lookup_in_keys [OF init_run_inv [OF sample_config_valid(1) S(1)] S(4)] by blast
  then have "\<exists>f c1 c2. save_cache_state (run key_size cli_sample_acts cli_sample) = (Inr f, c1) \<and>
     fst (load_cache_state key_size (\<lambda>s. None) \<lparr>a_config = Some (Inr (sample_config ''cache-only'' 0)), a_capacity = 3,
        a_policy = ''lru'', a_shards = 2, a_default_ttl = None\<rparr> 0 (fake_clock_init 100) f) = Inr c2 \<and>
     (\<forall>k. visible key_size c2 k =
        map_option (\<lambda>(v, ttl, hits). (v, ttl, max 0 hits)) (visible key_size (run key_size cli_sample_acts cli_sample) k))"
    by (intro state_roundtrip [OF sample_config_valid(1) S(1) refl]) (simp_all add: S config_from_args_def)
  then show ?thesis using S(6) by fastforce
qed

end
