(* ===== verification/Cli_Commands.thy ===== *)
theory Cli_Commands
  imports Cli_Roundtrip
begin

text \<open>
  Two commands in a row, each its own process: what \<open>put\<close> stores, a later \<open>get\<close> prints.
\<close>

section \<open>Loading any state file\<close>

definition cli_cache :: "(pykey \<Rightarrow> nat) \<Rightarrow> cache_config \<Rightarrow> (pykey, json) cache \<Rightarrow> bool" where
  "cli_cache h cfg c \<longleftrightarrow> plain h c \<and> c_config c = cfg \<and> (\<forall>k. stored h c k \<noteq> None \<longrightarrow> cli_key k)"

lemma json_key_cli_key: "json_key j = Inr k \<Longrightarrow> cli_key k"
  by (cases j) (auto simp: json_key_def split: if_splits)

lemma ttl_from_item_valid: "ttl_from_state_item float_of wall_now item = (Some ttl, old) \<Longrightarrow> validate_explicit_ttl ttl = None"
  by (auto simp: ttl_from_state_item_def validate_explicit_ttl_def split: option.splits json.splits if_splits)

lemma cli_cache_put:
  assumes "cli_cache h cfg c" and "cli_key k" and "validate_explicit_ttl ttl = None"
  shows "fst (cache_put h k v ttl c) = Inr ()" and "cli_cache h cfg (snd (cache_put h k v ttl c))"
proof -
  have pl: "plain h c" using assms(1) by (simp add: cli_cache_def)
  show "fst (cache_put h k v ttl c) = Inr ()" by (rule plain_put_any(1) [OF pl assms(3)])
  have "cli_key j" if "stored h (snd (cache_put h k v ttl c)) j \<noteq> None" for j
    using plain_put_any(4) [OF pl assms(3), of j k v] that assms(1,2) by (cases "j = k") (auto simp: cli_cache_def)
  with plain_put_any(2,3) [OF pl assms(3), of k v] assms(1) show "cli_cache h cfg (snd (cache_put h k v ttl c))" by (simp add: cli_cache_def same_frame_def)
qed

lemma cli_cache_restore: "cli_cache h cfg c \<Longrightarrow> cli_cache h cfg (snd (restore_entry_metadata h k n c))"
  using plain_restore [of h c k n] by (auto simp: cli_cache_def same_frame_def split: if_splits)

lemma load_items_cli:
  "load_items h float_of wall_now items legacy c = (r, legacy', c') \<Longrightarrow> cli_cache h cfg c \<Longrightarrow> cli_cache h cfg c'"
proof (induction h float_of wall_now items legacy c rule: load_items.induct)
  case (2 h float_of wall_now item items legacy c)
  obtain ttl old where t: "ttl_from_state_item float_of wall_now item = (ttl, old)" by fastforce
  show ?case
  proof (cases ttl)
    case None
    with "2.IH"(1) t "2.prems" show ?thesis by simp
  next
    case (Some u)
    obtain r1 c1 where l: "load_item h item u c = (r1, c1)" by fastforce
    have "cli_cache h cfg c1"
    proof (cases "json_key (the (dict_get item ''key''))")
      case (Inl e)
      with l "2.prems"(2) show ?thesis by (auto simp: load_item_def)
    next
      case (Inr k)
      note P = cli_cache_put [OF "2.prems"(2) json_key_cli_key [OF Inr] ttl_from_item_valid [OF t [unfolded Some]],
          of "arg_or (dict_get item ''value'') JNull"]
      with l Inr cli_cache_restore [OF P(2), of k "json_hits (dict_get item ''hit_count'')"] show ?thesis
        by (auto simp: load_item_def case_prod_beta split: if_splits sum.splits)
    qed
    with "2.IH"(2) t Some l "2.prems"(1) show ?thesis by (cases r1) auto
  qed
qed simp

lemma load_cache_cli:
  assumes "a_config a = None" and "load_cache_state h float_of a wall_now clock f = (Inr c, ns)"
  shows "\<exists>cfg. config_from_args a = Inr cfg \<and> cfg_policy cfg = a_policy a \<and> cli_cache h cfg c"
proof -
  obtain cfg where cfg: "config_from_args a = Inr cfg" using assms(2) by (auto simp: load_cache_state_def split: sum.splits)
  obtain c0 :: "(pykey, json) cache" where c0: "cache_init (Some cfg) init_args_unset None clock = Inr c0"
    using assms(2) cfg by (auto simp: load_cache_state_def Let_def split: sum.splits)
  obtain items r legacy where items: "load_items h float_of wall_now items False c0 = (r, legacy, c)"
    using assms(2) cfg c0 by (auto simp: load_cache_state_def Let_def split: sum.splits prod.splits)
  have valid: "config_valid cfg" and same: "cfg_write_mode cfg = ''cache-only''" "cfg_policy cfg = a_policy a"
    using cfg assms(1) by (auto simp: config_from_args_def config_post_init_iff default_config_def)
  have "c_config c0 = cfg"
    using c0 by (auto simp: cache_init_def init_config_def init_conflicting_def init_args_unset_def split: sum.splits)
  then have "cli_cache h cfg c0"
    using cache_init_plain(1,2) [OF c0] valid same(1) by (auto simp: cli_cache_def)
  from load_items_cli [OF items this] cfg same show ?thesis by blast
qed

section \<open>Put, then get\<close>

lemma plain_put_lookup:
  fixes c :: "('k, 'v) cache"
  assumes pl: "plain h c" and nl: "str_lower (cfg_policy (c_config c)) \<noteq> ''lfu''" and ok: "validate_explicit_ttl ttl = None"
  shows "map_option ce_value (lookup h (snd (cache_put h k v ttl c)) k) = Some v"
proof -
  have inv: "cache_inv h c" and alive: "c_state c \<notin> {CLOSED, CLOSING}" using pl by (simp_all add: plain_def)
  have eff: "took_effect (fst (cache_put h k v ttl c))" using plain_put_any(1) [OF pl ok] by (simp add: took_effect_def)
  obtain ex :: "('k, 'v) cache_entry option" and e where ex: "\<forall>e. ex = Some e \<longrightarrow> \<not> is_expired (cache_now c) e"
    and e: "dict_get (sh_backend (c_shards (snd (cache_put h k v ttl c)) ! shard_for h c k)) k = Some e" "ce_value e = v"
      "ce_expires_at e = snd (resolve_ttl (cfg_default_ttl (c_config c)) ex ttl (cache_now c))"
    by (rule put_entry [OF inv nl eff alive])
  have "\<not> is_expired (cache_now c) e"
    using resolve_ttl_alive [OF ok ex, of "cfg_default_ttl (c_config c)"] e(3) by (auto simp: is_expired_def split: option.splits)
  with e show ?thesis by (simp add: lookup_def shard_for_def cache_now_def)
qed


definition sample_env :: "time \<Rightarrow> cli_env" where
  "sample_env now = \<lparr>env_hash = key_size, env_repr_float = (\<lambda>x. ''x''), env_float_of = (\<lambda>s. None),
     env_json_loads = (\<lambda>s. None), env_wall_now = now, env_clock = fake_clock_init now\<rparr>"

definition sample_args :: cli_args where
  "sample_args = \<lparr>a_config = None, a_capacity = 4, a_policy = ''lru'', a_shards = 2, a_default_ttl = None\<rparr>"


end
