(* ===== verification/State_Lock.thy ===== *)
theory State_Lock
  imports Cli_State
begin

text \<open>
  The lock and the replacement of the state file (\<open>storage/serialization.py\<close>) between
  processes. \<open>StateFileLock\<close> is modelled by the atomic file operations of each process, one
  per turn: \<open>os.open(O_CREAT | O_EXCL)\<close>, the payload write, \<open>stat\<close>, \<open>unlink\<close>, the deadline
  test. A schedule interleaves turns, the passing of time and crashes freely. \<open>write_json\<close> is
  modelled by the directory states it goes through, so that a crash is a prefix of them.
\<close>

section \<open>The lock\<close>

text \<open>Where a process is in \<open>StateFileLock\<close>; the number is its deadline.\<close>

datatype lock_pc =
    Outside
  | Trying time
  | Checking time
  | Unlinking time
  | Refused time
  | Created
  | Holding
  | Closed_Fd
  | TimedOut
  | Crashed

type_synonym pid = nat

record lock_world =
  lw_file :: "(pid \<times> time) option"
  lw_pc :: "pid \<Rightarrow> lock_pc"
  lw_mono :: time
  lw_wall :: time

definition stale_lock_seconds :: time where
  "stale_lock_seconds = 30"

definition lock_is_stale :: "lock_world \<Rightarrow> bool" where
  "lock_is_stale w =
     (case lw_file w of None \<Rightarrow> True | Some (owner, mtime) \<Rightarrow> stale_lock_seconds \<le> lw_wall w - mtime)"

definition set_pc :: "pid \<Rightarrow> lock_pc \<Rightarrow> lock_world \<Rightarrow> lock_world" where
  "set_pc p pc w = w\<lparr>lw_pc := (lw_pc w)(p := pc)\<rparr>"

text \<open>
  One turn of process \<open>p\<close>. From \<open>Outside\<close> it enters the \<open>with\<close> block; from \<open>Holding\<close> it
  leaves it. The payload write goes to the file the process created, which the path may no
  longer name.
\<close>

definition lock_turn :: "time \<Rightarrow> pid \<Rightarrow> lock_world \<Rightarrow> lock_world" where
  "lock_turn timeout p w =
     (case lw_pc w p of
        Outside \<Rightarrow> set_pc p (Trying (lw_mono w + timeout)) w
      | Trying deadline \<Rightarrow>
          (case lw_file w of
             None \<Rightarrow> set_pc p Created (w\<lparr>lw_file := Some (p, lw_wall w)\<rparr>)
           | Some _ \<Rightarrow> set_pc p (Checking deadline) w)
      | Created \<Rightarrow>
          set_pc p Holding (case lw_file w of
             Some (owner, mtime) \<Rightarrow> if owner = p then w\<lparr>lw_file := Some (p, lw_wall w)\<rparr> else w
           | None \<Rightarrow> w)
      | Checking deadline \<Rightarrow> set_pc p (if lock_is_stale w then Unlinking deadline else Refused deadline) w
      | Unlinking deadline \<Rightarrow> set_pc p (Refused deadline) (w\<lparr>lw_file := None\<rparr>)
      | Refused deadline \<Rightarrow> set_pc p (if deadline \<le> lw_mono w then TimedOut else Trying deadline) w
      | Holding \<Rightarrow> set_pc p Closed_Fd w
      | Closed_Fd \<Rightarrow> set_pc p Outside (w\<lparr>lw_file := None\<rparr>)
      | TimedOut \<Rightarrow> w
      | Crashed \<Rightarrow> w)"

text \<open>\<open>Tick\<close> advances the monotonic clock and moves the wall clock by any amount.\<close>

datatype lock_event = Turn pid | Tick time time | Crash pid

definition lock_step :: "time \<Rightarrow> lock_event \<Rightarrow> lock_world \<Rightarrow> lock_world" where
  "lock_step timeout ev w =
     (case ev of
        Turn p \<Rightarrow> lock_turn timeout p w
      | Tick m0 w0 \<Rightarrow> w\<lparr>lw_mono := lw_mono w + \<bar>m0\<bar>, lw_wall := lw_wall w + w0\<rparr>
      | Crash p \<Rightarrow> set_pc p Crashed w)"

fun run_locks :: "time \<Rightarrow> lock_event list \<Rightarrow> lock_world \<Rightarrow> lock_world" where
  "run_locks timeout [] w = w"
| "run_locks timeout (ev # evs) w = run_locks timeout evs (lock_step timeout ev w)"

definition fresh_world :: "time \<Rightarrow> time \<Rightarrow> lock_world" where
  "fresh_world m0 w0 = \<lparr>lw_file = None, lw_pc = (\<lambda>p. Outside), lw_mono = m0, lw_wall = w0\<rparr>"

text \<open>The process is inside the \<open>with\<close> block, or at its borders with the file created.\<close>

definition in_section :: "lock_world \<Rightarrow> pid \<Rightarrow> bool" where
  "in_section w p \<longleftrightarrow> lw_pc w p \<in> {Created, Holding, Closed_Fd}"

text \<open>A schedule in which \<open>_lock_is_stale\<close> never answers \<open>True\<close>.\<close>

fun no_stale_verdict :: "time \<Rightarrow> lock_event list \<Rightarrow> lock_world \<Rightarrow> bool" where
  "no_stale_verdict timeout [] w = True"
| "no_stale_verdict timeout (ev # evs) w =
     ((case ev of
         Turn p \<Rightarrow> (case lw_pc w p of Checking deadline \<Rightarrow> \<not> lock_is_stale w | _ \<Rightarrow> True)
       | _ \<Rightarrow> True) \<and>
      no_stale_verdict timeout evs (lock_step timeout ev w))"

section \<open>Exclusion\<close>

definition lock_owner :: "lock_world \<Rightarrow> pid option" where
  "lock_owner w = map_option fst (lw_file w)"

fun is_unlinking :: "lock_pc \<Rightarrow> bool" where
  "is_unlinking (Unlinking deadline) = True"
| "is_unlinking _ = False"

definition lock_inv :: "lock_world \<Rightarrow> bool" where
  "lock_inv w \<longleftrightarrow> (\<forall>p. in_section w p \<longrightarrow> lock_owner w = Some p) \<and> (\<forall>p. \<not> is_unlinking (lw_pc w p))"

lemma set_pc_simps:
  "in_section (set_pc p pc w) q = (if q = p then pc \<in> {Created, Holding, Closed_Fd} else in_section w q)"
  "lock_owner (set_pc p pc w) = lock_owner w" "lw_pc (set_pc p pc w) q = (if q = p then pc else lw_pc w q)"
  by (simp_all add: in_section_def set_pc_def lock_owner_def)

lemma file_simps:
  "in_section (w\<lparr>lw_file := f\<rparr>) q = in_section w q" "lock_owner (w\<lparr>lw_file := f\<rparr>) = map_option fst f" "lw_pc (w\<lparr>lw_file := f\<rparr>) = lw_pc w"
  by (simp_all add: in_section_def lock_owner_def)

lemma lock_turn_inv:
  assumes inv: "lock_inv w" and verdict: "\<And>deadline. lw_pc w p = Checking deadline \<Longrightarrow> \<not> lock_is_stale w"
  shows "lock_inv (lock_turn timeout p w)"
proof -
  have own: "lock_owner w = Some q" if "in_section w q" for q using inv that by (simp add: lock_inv_def)
  have calm: "\<not> is_unlinking (lw_pc w q)" for q using inv by (simp add: lock_inv_def)
  show ?thesis
  proof (cases "lw_pc w p")
    case (Trying deadline)
    show ?thesis
    proof (cases "lw_file w")
      case None
      then have "\<not> in_section w q" for q using own [of q] by (auto simp: lock_owner_def)
      with Trying None calm show ?thesis by (simp add: lock_turn_def lock_inv_def set_pc_simps file_simps)
    next
      case (Some x)
      with Trying own calm show ?thesis by (simp add: lock_turn_def lock_inv_def set_pc_simps)
    qed
  next
    case Created
    then have p: "lock_owner w = Some p" by (intro own) (simp add: in_section_def)
    then obtain mtime where "lw_file w = Some (p, mtime)" by (auto simp: lock_owner_def)
    with Created own calm p show ?thesis by (auto simp: lock_turn_def lock_inv_def set_pc_simps file_simps)
  next
    case Closed_Fd
    then have "lock_owner w = Some p" by (intro own) (simp add: in_section_def)
    then have "\<not> in_section w q" if "q \<noteq> p" for q using own [of q] that by auto
    with Closed_Fd calm show ?thesis by (auto simp: lock_turn_def lock_inv_def set_pc_simps file_simps)
  next
    case (Unlinking deadline)
    with calm [of p] show ?thesis by simp
  next
    case Holding
    then have "lock_owner w = Some p" by (intro own) (simp add: in_section_def)
    with Holding own calm show ?thesis by (simp add: lock_turn_def lock_inv_def set_pc_simps)
  qed (use inv own calm verdict in \<open>auto simp: lock_turn_def lock_inv_def set_pc_simps\<close>)
qed

lemma lock_step_inv:
  assumes "lock_inv w" and "no_stale_verdict timeout [ev] w"
  shows "lock_inv (lock_step timeout ev w)"
proof (cases ev)
  case (Turn p)
  have "lock_inv (lock_turn timeout p w)" by (rule lock_turn_inv) (use assms Turn in auto)
  with Turn show ?thesis by (simp add: lock_step_def)
next
  case (Tick m w')
  with assms(1) show ?thesis by (simp add: lock_inv_def lock_step_def in_section_def lock_owner_def)
next
  case (Crash p)
  with assms(1) show ?thesis by (simp add: lock_inv_def lock_step_def set_pc_simps)
qed

lemma run_locks_inv: "lock_inv w \<Longrightarrow> no_stale_verdict timeout evs w \<Longrightarrow> lock_inv (run_locks timeout evs w)"
proof (induction evs arbitrary: w)
  case (Cons ev evs)
  then show ?case using lock_step_inv [of w timeout ev] by simp
qed simp

text \<open>
  C33: The state file lock excludes. In every interleaving of any number of processes, with
  clocks moving and processes crashing at any moment, as long as no process has judged the
  lock stale, at most one process is between creating the lock file and removing it, and
  the lock file at that time is its own.
\<close>

theorem state_lock_excludes:
  assumes "no_stale_verdict timeout evs (fresh_world m0 w0)"
    and "in_section (run_locks timeout evs (fresh_world m0 w0)) p"
  shows "(\<forall>q. in_section (run_locks timeout evs (fresh_world m0 w0)) q \<longrightarrow> q = p) \<and>
    (\<exists>mtime. lw_file (run_locks timeout evs (fresh_world m0 w0)) = Some (p, mtime))"
proof -
  have "lock_inv (fresh_world m0 w0)" by (simp add: lock_inv_def fresh_world_def in_section_def)
  from run_locks_inv [OF this assms(1)] have inv: "lock_inv (run_locks timeout evs (fresh_world m0 w0))" .
  then have own: "lock_owner (run_locks timeout evs (fresh_world m0 w0)) = Some q"
    if "in_section (run_locks timeout evs (fresh_world m0 w0)) q" for q using that by (simp add: lock_inv_def)
  show ?thesis
  proof (intro conjI allI impI)
    fix q assume "in_section (run_locks timeout evs (fresh_world m0 w0)) q"
    from own [OF this] own [OF assms(2)] show "q = p" by simp
  next
    show "\<exists>mtime. lw_file (run_locks timeout evs (fresh_world m0 w0)) = Some (p, mtime)"
      using own [OF assms(2)] by (auto simp: lock_owner_def)
  qed
qed

theorem state_lock_excludes_witness:
  "in_section (run_locks 5 [Turn 1, Turn 2, Turn 1, Turn 2, Turn 1, Tick 1 1, Turn 2, Turn 2] (fresh_world 0 0)) 1 \<and>
   \<not> in_section (run_locks 5 [Turn 1, Turn 2, Turn 1, Turn 2, Turn 1, Tick 1 1, Turn 2, Turn 2] (fresh_world 0 0)) 2"
proof -
  let ?evs = "[Turn 1, Turn 2, Turn 1, Turn 2, Turn 1, Tick 1 1, Turn 2, Turn 2]"
  have calm: "no_stale_verdict 5 ?evs (fresh_world 0 0)" by code_simp
  have inside: "in_section (run_locks 5 ?evs (fresh_world 0 0)) 1" by code_simp
  from state_lock_excludes [OF calm inside] inside show ?thesis by auto
qed

text \<open>
  C34: A stale verdict breaks the exclusion even when no lock is old. \<open>_lock_is_stale\<close>
  answers \<open>True\<close> when the file has just disappeared, and the \<open>unlink\<close> that follows removes
  whatever file the path names by then: three processes, with no time passing, end with two
  of them inside the lock.
\<close>

theorem vanished_lock_admits_two:
  "\<exists>evs. list_all (\<lambda>ev. \<exists>p. ev = Turn p) evs \<and>
     lw_pc (run_locks 5 evs (fresh_world 0 0)) 2 = Holding \<and> lw_pc (run_locks 5 evs (fresh_world 0 0)) 3 = Holding"
proof -
  let ?enter = "\<lambda>p. [Turn p, Turn p, Turn p]"
  let ?evs = "?enter 1 @ [Turn 2, Turn 2] @ [Turn 1, Turn 1] @ [Turn 2] @ ?enter 3 @ [Turn 2, Turn 2, Turn 2, Turn 2]"
  have "(lw_pc (run_locks 5 ?evs (fresh_world 0 0)) 2, lw_pc (run_locks 5 ?evs (fresh_world 0 0)) 3) = (Holding, Holding)"
    by code_simp
  then show ?thesis by (intro exI [of _ ?evs]) simp
qed

section \<open>Entering alone\<close>

abbreviation turns :: "nat \<Rightarrow> pid \<Rightarrow> lock_event list" where
  "turns n p \<equiv> replicate n (Turn p)"

lemmas lock_simps = lock_step_def lock_turn_def set_pc_def lock_is_stale_def stale_lock_seconds_def numeral_eq_Suc



section \<open>Replacing the file\<close>

text \<open>
  A file is torn while it is being written. The directory holds the state file and the
  temporary file of \<open>mkstemp\<close>.
\<close>

datatype content = Torn | Whole "(string, json) dict"

record directory =
  dir_target :: "content option"
  dir_temp :: "content option"

datatype write_fault = NoFault | MkstempFails | DumpFails | ReplaceFails

text \<open>The directory states \<open>write_json\<close> goes through, in order.\<close>

definition write_json_trace :: "write_fault \<Rightarrow> (string, json) dict \<Rightarrow> directory \<Rightarrow> directory list" where
  "write_json_trace fault data d =
     (let made = d\<lparr>dir_temp := Some Torn\<rparr>; written_out = d\<lparr>dir_temp := Some (Whole data)\<rparr>; cleaned = d\<lparr>dir_temp := None\<rparr>
      in case fault of
           MkstempFails \<Rightarrow> [d]
         | DumpFails \<Rightarrow> [d, made, cleaned]
         | ReplaceFails \<Rightarrow> [d, made, written_out, cleaned]
         | NoFault \<Rightarrow> [d, made, written_out, \<lparr>dir_target = Some (Whole data), dir_temp = None\<rparr>])"

text \<open>
  The state file is replaced atomically. Wherever \<open>write_json\<close> fails, and at
  whichever of its steps the process dies, the state file is the old one or holds
  exactly the new data; when it ran to its end no temporary file is left, and the new data is in place
  if nothing failed, the old file if something did.
\<close>

lemma state_file_is_never_torn:
  assumes "dir_temp d = None"
  shows "(\<forall>d' \<in> set (write_json_trace fault data d). dir_target d' = dir_target d \<or> dir_target d' = Some (Whole data)) \<and>
    dir_temp (last (write_json_trace fault data d)) = None \<and>
    dir_target (last (write_json_trace fault data d)) = (if fault = NoFault then Some (Whole data) else dir_target d)"
  using assms by (cases fault) (simp_all add: write_json_trace_def Let_def)

end
