(* ===== verification/Observers.thy ===== *)
theory Observers
  imports Operations
begin

text \<open>
  Reads, diagnostics and expiration sweeps are invisible to later reads: what a key shows is
  its value and its deadline, and none of them changes it. Removing expired entries
  actively (\<open>expire_all\<close>, the \<open>ExpireShard\<close> jobs) is equivalent to leaving them to the
  lazy check of the next read.
\<close>

section \<open>What a shard shows\<close>

definition seen :: "time \<Rightarrow> ('k, 'v) shard \<Rightarrow> 'k \<Rightarrow> ('v \<times> time option) option" where
  "seen now sh k =
     (case dict_get (sh_backend sh) k of
        None \<Rightarrow> None
      | Some e \<Rightarrow> if is_expired now e then None else Some (ce_value e, ce_expires_at e))"

definition same_seen :: "time \<Rightarrow> ('k, 'v) shard \<Rightarrow> ('k, 'v) shard \<Rightarrow> bool" where
  "same_seen now sh sh' \<longleftrightarrow> (\<forall>k. seen now sh' k = seen now sh k)"

lemma same_seen_refl [simp]: "same_seen now sh sh"
  by (simp add: same_seen_def)

lemma same_seen_trans: "same_seen now sh sh' \<Longrightarrow> same_seen now sh' sh'' \<Longrightarrow> same_seen now sh sh''"
  by (simp add: same_seen_def)

lemma seen_backend: "sh_backend sh' = sh_backend sh \<Longrightarrow> seen now sh' k = seen now sh k"
  by (simp add: seen_def)

lemma same_seen_remove:
  assumes "seen now sh k = None"
  shows "same_seen now sh (snd (remove_entry_locked k reason sh))"
  using assms by (auto simp: same_seen_def seen_def)

lemma same_seen_read:
  assumes "shard_inv sh"
  shows "same_seen now sh (snd (read_value_locked do_touch count now k sh))"
proof (cases "dict_get (sh_backend sh) k")
  case None
  then show ?thesis by (auto simp: read_value_locked_def mem_get_entry_def same_seen_def seen_def Let_def split: if_splits)
next
  case (Some e)
  have "ce_key e = k" by (rule inv_entry_key [OF assms Some])
  then show ?thesis
    using Some by (auto simp: read_value_locked_def mem_get_entry_def mem_put_entry_def same_seen_def seen_def is_expired_def Let_def
        split: if_splits)
qed

lemma same_seen_inspect: "same_seen now sh (snd (inspect_locked now k sh))"
  by (auto simp: inspect_locked_def mem_get_entry_def seen_def intro!: same_seen_remove split: option.splits)

text \<open>A sweep over keys none of which shows anything.\<close>

lemma same_seen_expire_keys:
  "\<forall>k \<in> set ks. seen now sh k = None \<Longrightarrow> same_seen now sh (snd (expire_keys_locked ks sh n))"
proof (induction ks arbitrary: sh n)
  case (Cons k ks)
  obtain r sh1 where r: "remove_entry_locked k ''expire'' sh = (r, sh1)" by fastforce
  have q: "same_seen now sh sh1" using same_seen_remove [of now sh k "''expire''"] Cons.prems r by simp
  then have "\<forall>k \<in> set ks. seen now sh1 k = None" using Cons.prems by (simp add: same_seen_def)
  from same_seen_trans [OF q Cons.IH [OF this]] r show ?case by simp
qed simp

lemma same_seen_dump:
  "\<forall>e \<in> set es. is_expired now e \<longrightarrow> seen now sh (ce_key e) = None \<Longrightarrow> same_seen now sh (snd (dump_entries_locked now es snaps sh))"
proof (induction es arbitrary: sh snaps)
  case (Cons e es)
  show ?case
  proof (cases "is_expired now e")
    case True
    let ?sh1 = "snd (remove_entry_locked (ce_key e) ''expire'' sh)"
    have q: "same_seen now sh ?sh1" using same_seen_remove Cons.prems True by auto
    then have "\<forall>e \<in> set es. is_expired now e \<longrightarrow> seen now ?sh1 (ce_key e) = None" using Cons.prems by (simp add: same_seen_def)
    from same_seen_trans [OF q Cons.IH [OF this]] True show ?thesis by simp
  next
    case False
    with Cons show ?thesis by simp
  qed
qed simp

lemma expired_entry_unseen:
  assumes "shard_inv sh" and "e \<in> set (mem_entries (sh_backend sh))" and "is_expired now e"
  shows "seen now sh (ce_key e) = None"
proof -
  have wf: "dict_wf (sh_backend sh)" using assms(1) by (simp add: shard_inv_def core_defs mem_inv_def)
  obtain k where "(k, e) \<in> set (sh_backend sh)" using assms(2) by (force simp: mem_entries_def)
  then have k: "dict_get (sh_backend sh) k = Some e" using wf by (simp add: map_of_eq_Some_iff)
  then have "ce_key e = k" by (rule inv_entry_key [OF assms(1)])
  with k assms(3) show ?thesis by (simp add: seen_def)
qed

lemma same_seen_expire: "shard_inv sh \<Longrightarrow> same_seen now sh (snd (expire_shard_locked now sh))"
  unfolding expire_shard_locked_def
  by (rule same_seen_expire_keys) (auto simp: expired_keys_def expired_entry_unseen)

section \<open>What the cache shows\<close>

definition shown :: "('k \<Rightarrow> nat) \<Rightarrow> ('k, 'v) cache \<Rightarrow> 'k \<Rightarrow> ('v \<times> time option) option" where
  "shown h c k = map_option (\<lambda>e. (ce_value e, ce_expires_at e)) (lookup h c k)"

lemma shown_seen: "shown h c k = seen (cache_now c) (c_shards c ! shard_for h c k) k"
  by (simp add: shown_def lookup_def seen_def split: option.splits)

definition same_shown :: "('k \<Rightarrow> nat) \<Rightarrow> ('k, 'v) cache \<Rightarrow> ('k, 'v) cache \<Rightarrow> bool" where
  "same_shown h c c' \<longleftrightarrow> shown h c' = shown h c \<and> c_clock c' = c_clock c \<and> c_state c' = c_state c"

lemma same_shown_refl [simp]: "same_shown h c c"
  by (simp add: same_shown_def)

lemma same_shown_trans: "same_shown h c c' \<Longrightarrow> same_shown h c' c'' \<Longrightarrow> same_shown h c c''"
  by (simp add: same_shown_def)

lemma same_shown_set_shard:
  assumes "same_seen (cache_now c) (c_shards c ! i) sh'"
  shows "same_shown h c (set_shard i sh' c)"
proof -
  have "shown h (set_shard i sh' c) k = shown h c k" for k
    using assms by (cases "i < length (c_shards c)")
      (auto simp: shown_seen same_seen_def shard_for_def cache_now_def nth_list_update list_update_beyond)
  then show ?thesis by (auto simp: same_shown_def)
qed

lemma same_shown_on_shard:
  "same_seen (cache_now c) (c_shards c ! i) (snd (f (c_shards c ! i))) \<Longrightarrow> same_shown h c (snd (on_shard i f c))"
  by (simp add: on_shard_def case_prod_beta same_shown_set_shard)

lemma same_shown_read: "cache_inv h c \<Longrightarrow> same_shown h c (snd (read_section h counted k c))"
  unfolding read_section_def
  by (intro same_shown_on_shard same_seen_read cache_inv_shard shard_for_less)

lemma same_shown_expire_shards:
  "cache_inv h c \<Longrightarrow> \<forall>i \<in> set is. i < length (c_shards c) \<Longrightarrow> same_shown h c (snd (expire_shards is n c))"
proof (induction "is" arbitrary: c n)
  case (Cons i "is")
  obtain m c1 where r: "expire_shard i c = (m, c1)" by fastforce
  have i: "i < length (c_shards c)" using Cons.prems(2) by simp
  have "same_shown h c c1"
    using same_shown_on_shard [of c i "expire_shard_locked (cache_now c)" h] same_seen_expire [OF cache_inv_shard [OF Cons.prems(1) i]] r
    by (simp add: expire_shard_def)
  moreover have "cache_inv h c1" using expire_shard_inv [OF Cons.prems(1) i] r by simp
  moreover have "length (c_shards c1) = length (c_shards c)"
    using arg_cong [OF r, of snd] by (auto simp: expire_shard_def on_shard_def case_prod_beta)
  ultimately show ?case using Cons.IH [of c1] Cons.prems(2) r same_shown_trans by fastforce
qed simp

lemma same_shown_dump_shards:
  "cache_inv h c \<Longrightarrow> \<forall>i \<in> set is. i < length (c_shards c) \<Longrightarrow> same_shown h c (snd (dump_shards is snaps c))"
proof (induction "is" arbitrary: c snaps)
  case (Cons i "is")
  let ?f = "\<lambda>sh. dump_entries_locked (cache_now c) (mem_entries (sh_backend sh)) snaps sh"
  obtain snaps1 c1 where r: "on_shard i ?f c = (snaps1, c1)" by fastforce
  have i: "i < length (c_shards c)" using Cons.prems(2) by simp
  note si = cache_inv_shard [OF Cons.prems(1) i]
  have "same_shown h c c1"
    using same_shown_on_shard [of c i ?f h] same_seen_dump [of "mem_entries (sh_backend (c_shards c ! i))" "cache_now c"]
      expired_entry_unseen [OF si] r by simp
  moreover have "cache_inv h c1"
    using on_shard_inv [OF Cons.prems(1) i, of ?f, OF evolves_dump] r by simp
  moreover have "length (c_shards c1) = length (c_shards c)"
    using arg_cong [OF r, of snd] by (auto simp: on_shard_def case_prod_beta)
  ultimately show ?case using Cons.IH [of c1] Cons.prems(2) r same_shown_trans by fastforce
qed simp

section \<open>Observers\<close>

fun is_observer :: "('k, 'v) action \<Rightarrow> bool" where
  "is_observer (Get k d) = True"
| "is_observer (Contains k) = True"
| "is_observer Size = True"
| "is_observer (Inspect k) = True"
| "is_observer (Dump limit) = True"
| "is_observer ExpireAll = True"
| "is_observer (RequestSnapshot r) = True"
| "is_observer SchedulerTick = True"
| "is_observer _ = False"

lemma same_shown_fields:
  "c_shards c' = c_shards c \<Longrightarrow> c_clock c' = c_clock c \<Longrightarrow> c_state c' = c_state c \<Longrightarrow> same_shown h c c'"
  by (auto simp: same_shown_def shown_seen shard_for_def cache_now_def)

lemma observer_same_shown:
  assumes inv: "cache_inv h c" and "is_observer a"
  shows "same_shown h c (run_action h a c)"
proof -
  show ?thesis using assms(2)
  proof (cases a)
    case (Get k d)
    then show ?thesis using same_shown_read [OF inv] by (simp add: cache_get_def unless_closed_def case_prod_beta split: option.splits)
  next
    case (Contains k)
    then show ?thesis using same_shown_read [OF inv] by (simp add: cache_contains_def unless_closed_def case_prod_beta split: option.splits)
  next
    case (Inspect k)
    then show ?thesis
      using same_shown_on_shard [of c "shard_for h c k" "inspect_locked (cache_now c) k" h, OF same_seen_inspect] by (simp add: cache_inspect_def unless_closed_def case_prod_beta split: option.splits)
  next
    case (Dump limit)
    then show ?thesis
      using same_shown_dump_shards [OF inv] by (simp add: cache_dump_def unless_closed_def case_prod_beta split: option.splits)
  next
    case ExpireAll
    then show ?thesis
      using same_shown_expire_shards [OF inv] by (simp add: cache_expire_all_def unless_closed_def case_prod_beta split: option.splits)
  next
    case (RequestSnapshot r)
    then show ?thesis
      by (auto simp: request_snapshot_def unless_closed_def enqueue_job_eq case_prod_beta intro!: same_shown_fields split: option.splits sum.splits)
  next
    case SchedulerTick
    then show ?thesis
      by (auto simp: scheduler_tick_def tick_once_def unless_closed_def intro!: same_shown_fields split: option.splits)
  qed (simp_all add: cache_size_def unless_closed_def split: option.splits)
qed

lemma observers_same_shown: "cache_inv h c \<Longrightarrow> list_all is_observer obs \<Longrightarrow> same_shown h c (run h obs c)"
proof (induction obs arbitrary: c)
  case (Cons a obs)
  have "same_shown h c (run_action h a c)" using observer_same_shown Cons.prems by auto
  moreover have "same_shown h (run_action h a c) (run h obs (run_action h a c))"
    using Cons.IH [OF run_action_inv [OF Cons.prems(1)]] Cons.prems(2) by simp
  ultimately have "same_shown h c (run h obs (run_action h a c))" by (rule same_shown_trans)
  then show ?case by (simp add: run_def)
qed (simp add: run_def)

lemma shown_get:
  "c_state c \<notin> {CLOSED, CLOSING} \<Longrightarrow> fst (cache_get h k d c) = Inr (case shown h c k of None \<Rightarrow> d | Some (v, t) \<Rightarrow> Some v)"
  by (simp add: cache_get_result shown_def split: option.splits)

lemma shown_advance:
  assumes "0 \<le> s"
  shows "shown h (run_action h (Advance s) c) k =
    (case shown h c k of
       Some (v, Some t) \<Rightarrow> if t \<le> cache_now c + s then None else Some (v, Some t) | r \<Rightarrow> r)"
  using assms by (auto simp: shown_def lookup_def shard_for_def cache_now_def clock_advance_def clock_now_def is_expired_def
      split: option.splits)



end
