(* ===== verification/Construction.thy ===== *)
theory Construction
  imports Samples
begin

text \<open>
  Building a cache from a configuration, and the loop that keeps a shard within the capacity
  it was given there.
\<close>

section \<open>From a configuration to a cache\<close>

lemma make_shards_capacities:
  "make_shards cfg i caps = Inr shards \<Longrightarrow> map sh_capacity shards = map nat caps"
  by (induction caps arbitrary: i shards) (auto simp: shard_init_def split: sum.splits)

text \<open>
  C26: Validation is exact and construction never fails after it. \<open>CacheConfig\<close> either
  raises \<open>ConfigurationError\<close>, or it accepts the configuration unchanged, and then \<open>Cache\<close>
  can be built from it: with \<open>shard_count\<close> empty shards whose capacities add up to
  \<open>capacity\<close>, are all at least one and differ by at most one, and with the configured write mode.
\<close>

theorem validated_config_builds_cache:
  "case config_post_init cfg of
     Inl e \<Rightarrow> e = ConfigurationError \<and> \<not> config_valid cfg
   | Inr cfg' \<Rightarrow> cfg' = cfg \<and> (\<exists>c :: ('k, 'v) cache.
       cache_init (Some cfg) init_args_unset source clock = Inr c \<and> c_config c = cfg \<and> c_state c = CREATED \<and>
       parse_write_mode (cfg_write_mode cfg) = Inr (c_write_mode c) \<and>
       int (length (c_shards c)) = cfg_shard_count cfg \<and> total_size c = 0 \<and>
       sum_list (map (int \<circ> sh_capacity) (c_shards c)) = cfg_capacity cfg \<and>
       list_all (\<lambda>sh. 1 \<le> int (sh_capacity sh) \<and> cfg_capacity cfg div cfg_shard_count cfg \<le> int (sh_capacity sh) \<and>
          int (sh_capacity sh) \<le> cfg_capacity cfg div cfg_shard_count cfg + 1) (c_shards c))"
proof (cases "config_post_init cfg")
  case (Inl e)
  moreover from this have "e = ConfigurationError \<and> \<not> config_valid cfg" by (simp add: config_post_init_error)
  ultimately show ?thesis by simp
next
  case (Inr cfg')
  let ?n = "cfg_shard_count cfg" and ?t = "cfg_capacity cfg"
  have valid: "config_valid cfg" and "cfg' = cfg" using Inr by (simp_all add: config_post_init_iff)
  have conf: "init_config (Some cfg) init_args_unset = Inr cfg" by (simp add: init_config_def init_conflicting_def init_args_unset_def)
  obtain c :: "('k, 'v) cache" where c: "cache_init (Some cfg) init_args_unset source clock = Inr c" "c_config c = cfg"
    using cache_init_total [OF conf valid] by blast
  have inv: "cache_inv h c" for h by (rule cache_init_inv [OF c(1)]) (simp add: valid)
  have shards: "make_shards cfg 0 (shard_capacities ?t ?n) = Inr (c_shards c)" and "c_state c = CREATED"
    using c(1) conf by (auto simp: cache_init_def split: sum.splits)
  have "total_size c = 0"
    using make_shards_fresh [OF shards] by (auto simp: total_size_def mem_size_def sum_list_eq_0_iff)
  moreover have "1 \<le> int (sh_capacity sh) \<and> ?t div ?n \<le> int (sh_capacity sh) \<and> int (sh_capacity sh) \<le> ?t div ?n + 1"
    if "sh \<in> set (c_shards c)" for sh
  proof -
    have "sh_capacity sh \<in> set (map nat (shard_capacities ?t ?n))"
      using make_shards_capacities [OF shards] that by (metis image_eqI list.set_map)
    then obtain x where x: "x \<in> set (shard_capacities ?t ?n)" "sh_capacity sh = nat x" by auto
    with shard_capacities_positive [OF _ _ x(1)] shard_capacities_balanced [OF x(1)] valid show ?thesis
      by (simp add: config_valid_def)
  qed
  ultimately show ?thesis
    using Inr \<open>cfg' = cfg\<close> c \<open>c_state c = CREATED\<close> inv [of "\<lambda>k. 0"] by (auto simp: cache_inv_def comp_def list_all_iff)
qed

section \<open>The eviction loop\<close>

lemma enforce_loop_keeps:
  "enforce_loop fuel sh = Some sh' \<Longrightarrow> dict_wf (sh_backend sh) \<Longrightarrow> min (mem_size (sh_backend sh)) (sh_capacity sh) \<le> mem_size (sh_backend sh')"
proof (induction fuel arbitrary: sh)
  case (Suc fuel)
  show ?case
  proof (cases "sh_capacity sh < mem_size (sh_backend sh)")
    case True
    show ?thesis
    proof (cases "policy_evict_candidate (sh_policy sh)")
      case (Some k)
      let ?sh1 = "snd (remove_entry_locked k ''evict'' sh)"
      have "mem_size (sh_backend sh) \<le> mem_size (sh_backend ?sh1) + 1"
        using dict_length_pop [OF Suc.prems(2), of k] dict_pop_absent [of k "sh_backend sh"]
        by (cases "k \<in> sh_live sh") (simp_all add: mem_size_def)
      moreover have "sh_capacity ?sh1 = sh_capacity sh" by simp
      ultimately show ?thesis using Suc.IH [of ?sh1] Suc.prems True Some by simp
    qed (use Suc.prems True in simp)
  qed (use Suc.prems in simp)
qed simp



end
