(* ===== verification/Teaching.thy ===== *)
theory Teaching
  imports Workloads
begin

text \<open>
  The deliberately unsafe programs of \<open>teaching/\<close> and the hazards they demonstrate. The
  threaded ones are run under a schedule, a list of thread numbers; a thread's turn ends where
  the program sleeps. Each hazard is proved to occur, and is one that the properties of
  the real cache exclude.
\<close>

section \<open>Eviction without a lock\<close>

datatype unsafe_pc = Waiting | Slept | Stopped

record unsafe_cache =
  uc_capacity :: int
  uc_data :: "(string, nat) dict"
  uc_pc :: "nat \<Rightarrow> unsafe_pc"

definition unsafe_evict :: "unsafe_cache \<Rightarrow> unsafe_cache" where
  "unsafe_evict c =
     (if uc_capacity c \<le> int (length (uc_data c)) \<and> uc_data c \<noteq> []
      then c\<lparr>uc_data := dict_pop (fst (hd (uc_data c))) (uc_data c)\<rparr> else c)"

definition unsafe_put_turn :: "nat \<Rightarrow> unsafe_cache \<Rightarrow> unsafe_cache" where
  "unsafe_put_turn i c =
     (case uc_pc c i of
        Waiting \<Rightarrow> (unsafe_evict c)\<lparr>uc_pc := (uc_pc c)(i := Slept)\<rparr>
      | Slept \<Rightarrow> c\<lparr>uc_data := dict_set (num_key i) i (uc_data c), uc_pc := (uc_pc c)(i := Stopped)\<rparr>
      | Stopped \<Rightarrow> c)"

definition unsafe_race_demo :: "nat list \<Rightarrow> int \<Rightarrow> nat" where
  "unsafe_race_demo schedule capacity =
     length (uc_data (fold unsafe_put_turn schedule \<lparr>uc_capacity = capacity, uc_data = [], uc_pc = (\<lambda>i. Waiting)\<rparr>))"

text \<open>All threads pass the check before the first one stores.\<close>

lemma unsafe_checks:
  "fold unsafe_put_turn [0..<n] \<lparr>uc_capacity = cap, uc_data = [], uc_pc = (\<lambda>i. Waiting)\<rparr> =
     \<lparr>uc_capacity = cap, uc_data = [], uc_pc = (\<lambda>i. if i < n then Slept else Waiting)\<rparr>"
  by (induction n) (auto simp: unsafe_put_turn_def unsafe_evict_def fun_eq_iff less_Suc_eq)

lemma dict_set_new: "k \<notin> fst ` set d \<Longrightarrow> dict_set k v d = d @ [(k, v)]"
  by (induction d) auto

lemma unsafe_stores:
  assumes "m \<le> n"
  shows "fold unsafe_put_turn [0..<m] \<lparr>uc_capacity = cap, uc_data = [], uc_pc = (\<lambda>i. if i < n then Slept else Waiting)\<rparr> =
     \<lparr>uc_capacity = cap, uc_data = map (\<lambda>i. (num_key i, i)) [0..<m],
      uc_pc = (\<lambda>i. if i < m then Stopped else if i < n then Slept else Waiting)\<rparr>"
  using assms
proof (induction m)
  case (Suc m)
  have "num_key m \<notin> fst ` set (map (\<lambda>i. (num_key i, i)) [0..<m])" by (auto simp: num_key_inject)
  with Suc show ?case by (auto simp: unsafe_put_turn_def fun_eq_iff dict_set_new less_Suc_eq)
qed simp

lemma unsafe_race_overflows: "unsafe_race_demo ([0..<n] @ [0..<n]) capacity = n"
  by (simp add: unsafe_race_demo_def unsafe_checks unsafe_stores)

section \<open>Loading without single-flight\<close>

record unsafe_loads =
  ul_data :: "(string, string) dict"
  ul_calls :: nat
  ul_pc :: "nat \<Rightarrow> unsafe_pc"

definition unsafe_get_turn :: "nat \<Rightarrow> unsafe_loads \<Rightarrow> unsafe_loads" where
  "unsafe_get_turn i c =
     (case ul_pc c i of
        Waiting \<Rightarrow>
          (if dict_get (ul_data c) ''same-key'' = None
           then c\<lparr>ul_calls := ul_calls c + 1, ul_pc := (ul_pc c)(i := Slept)\<rparr>
           else c\<lparr>ul_pc := (ul_pc c)(i := Stopped)\<rparr>)
      | Slept \<Rightarrow> c\<lparr>ul_data := dict_set ''same-key'' ''loaded'' (ul_data c), ul_pc := (ul_pc c)(i := Stopped)\<rparr>
      | Stopped \<Rightarrow> c)"

definition unsafe_singleflight_demo :: "nat list \<Rightarrow> nat" where
  "unsafe_singleflight_demo schedule =
     ul_calls (fold unsafe_get_turn schedule \<lparr>ul_data = [], ul_calls = 0, ul_pc = (\<lambda>i. Waiting)\<rparr>)"

lemma unsafe_misses:
  "fold unsafe_get_turn [0..<n] \<lparr>ul_data = [], ul_calls = 0, ul_pc = (\<lambda>i. Waiting)\<rparr> =
     \<lparr>ul_data = [], ul_calls = n, ul_pc = (\<lambda>i. if i < n then Slept else Waiting)\<rparr>"
  by (induction n) (auto simp: unsafe_get_turn_def fun_eq_iff less_Suc_eq)

lemma unsafe_stores_keep_calls:
  "\<forall>i \<in> set is. ul_pc c i \<noteq> Waiting \<Longrightarrow> ul_calls (fold unsafe_get_turn is c) = ul_calls c"
  by (induction "is" arbitrary: c) (auto simp: unsafe_get_turn_def split: unsafe_pc.splits)

lemma unsafe_loader_runs_per_thread: "unsafe_singleflight_demo ([0..<n] @ [0..<n]) = n"
  by (simp add: unsafe_singleflight_demo_def unsafe_misses unsafe_stores_keep_calls)

section \<open>Deadlines on the wall clock\<close>

record wall_cache =
  wc_now :: time
  wc_data :: "(string, string \<times> time) dict"

definition wall_put :: "string \<Rightarrow> string \<Rightarrow> time \<Rightarrow> wall_cache \<Rightarrow> wall_cache" where
  "wall_put k v ttl c = c\<lparr>wc_data := dict_set k (v, wc_now c + ttl) (wc_data c)\<rparr>"

definition wall_contains :: "string \<Rightarrow> wall_cache \<Rightarrow> bool" where
  "wall_contains k c = (case dict_get (wc_data c) k of None \<Rightarrow> False | Some (v, expires_at) \<Rightarrow> wc_now c < expires_at)"

definition unsafe_wall_clock_ttl_demo :: "bool \<times> bool \<times> time" where
  "unsafe_wall_clock_ttl_demo =
     (let c0 = wall_put ''session'' ''value'' 10 \<lparr>wc_now = 100, wc_data = []\<rparr>;
          c1 = c0\<lparr>wc_now := wc_now c0 + 11\<rparr>;
          c2 = c1\<lparr>wc_now := wc_now c1 - 20\<rparr>
      in (\<not> wall_contains ''session'' c1, wall_contains ''session'' c2, wc_now c2))"

lemma wall_clock_demo_result: "unsafe_wall_clock_ttl_demo = (True, True, 91)"
  by (simp add: unsafe_wall_clock_ttl_demo_def wall_put_def wall_contains_def)

text \<open>Any backward jump past the deadline revives an expired key.\<close>

lemma wall_clock_revives:
  assumes "0 < ttl" and "forward \<ge> ttl" and "back > forward - ttl"
  shows "\<not> wall_contains k ((wall_put k v ttl c)\<lparr>wc_now := wc_now c + forward\<rparr>) \<and>
    wall_contains k ((wall_put k v ttl c)\<lparr>wc_now := wc_now c + forward - back\<rparr>)"
  using assms by (simp add: wall_put_def wall_contains_def)

section \<open>Write-back without versions\<close>

record unsafe_write =
  uw_key :: string
  uw_value :: "string option"
  uw_operation :: string

definition unsafe_write_back_resurrection_demo :: "(string, string option) dict \<times> bool" where
  "unsafe_write_back_resurrection_demo =
     (let queue = [\<lparr>uw_key = ''user:1'', uw_value = Some ''old-value'', uw_operation = ''put''\<rparr>,
                   \<lparr>uw_key = ''user:1'', uw_value = None, uw_operation = ''delete''\<rparr>];
          source1 = (if uw_operation (last queue) = ''delete'' then dict_pop (uw_key (last queue)) [] else []);
          rest = butlast queue;
          source2 = (if uw_operation (last rest) = ''put'' then dict_set (uw_key (last rest)) (uw_value (last rest)) source1 else source1)
      in (source2, dict_get source2 ''user:1'' = Some (Some ''old-value'')))"

lemma resurrection_demo_result: "unsafe_write_back_resurrection_demo = ([(''user:1'', Some ''old-value'')], True)"
  by (simp add: unsafe_write_back_resurrection_demo_def)

end
