(* ===== verification/Demos.thy ===== *)
theory Demos
  imports Cli Lifecycle Teaching
begin

text \<open>
  The demonstrations of \<open>cli/commands/demo.py\<close>. What the worker threads, the scheduler and the clock
  do meanwhile is an argument: a number of worker turns, a history, or a schedule of
  threads; so are measured times. The output is the list of printed lines (a table is one
  of them); an exception gives \<open>Inl\<close>. The interleavings behind the \<open>single-flight\<close>
  demonstration are those of theory \<open>Single_Flight\<close>; its one line of output is left to the
  table of demonstrations that the dispatcher takes.
\<close>

type_synonym printed = "cache_error + string list"

definition with_table :: "(string list \<Rightarrow> string list) \<Rightarrow> ('k, 'v) cache \<Rightarrow> printed" where
  "with_table lines c = map_sum id (\<lambda>t. lines [t]) (stats_table c)"

definition str_option :: "string option \<Rightarrow> string" where
  "str_option v = (case v of None \<Rightarrow> ''None'' | Some s \<Rightarrow> s)"

definition ttl_lazy_run :: "(string \<Rightarrow> nat) \<Rightarrow> cache_error + (string option \<times> (string, string) cache)" where
  "ttl_lazy_run h =
     (case cache_init None (init_args_unset\<lparr>ia_capacity := Some 2, ia_default_ttl := Some (Some 5)\<rparr>) None (fake_clock_init 0) of
        Inl e \<Rightarrow> Inl e
      | Inr c \<Rightarrow>
          (case cache_put h ''token'' ''abc'' TTL_UNSET c of
             (Inl e, c1) \<Rightarrow> Inl e
           | (Inr u, c1) \<Rightarrow>
               (case cache_get h ''token'' None (c1\<lparr>c_clock := snd (clock_advance 6 (c_clock c1))\<rparr>) of
                  (Inl e, c2) \<Rightarrow> Inl e
                | (Inr v, c2) \<Rightarrow> Inr (v, c2))))"

definition demo_ttl_lazy :: "(string \<Rightarrow> nat) \<Rightarrow> printed" where
  "demo_ttl_lazy h =
     (case ttl_lazy_run h of
        Inl e \<Rightarrow> Inl e
      | Inr (v, c) \<Rightarrow> with_table (\<lambda>t. (''lazy get after ttl: '' @ (case v of None \<Rightarrow> ''None'' | Some s \<Rightarrow> repr_str s)) # t) c)"

fun put_range :: "(string \<Rightarrow> nat) \<Rightarrow> nat list \<Rightarrow> ttl_arg \<Rightarrow> (string, nat) cache \<Rightarrow> (unit, (string, nat) cache) outcome" where
  "put_range h [] ttl c = (Inr (), c)"
| "put_range h (i # is) ttl c =
     (case cache_put h (num_key i) i ttl c of (Inl e, c1) \<Rightarrow> (Inl e, c1) | (Inr u, c1) \<Rightarrow> put_range h is ttl c1)"

fun worker_turns :: "('k \<Rightarrow> nat) \<Rightarrow> nat \<Rightarrow> ('k, 'v) cache \<Rightarrow> ('k, 'v) cache" where
  "worker_turns h 0 c = c"
| "worker_turns h (Suc n) c = worker_turns h n (snd (worker_turn h c))"

text \<open>\<open>turns\<close> is what the workers do while \<open>join_until(1)\<close> waits, \<open>turns2\<close> while the pool stops.\<close>

definition worker_queue_run :: "(string \<Rightarrow> nat) \<Rightarrow> nat \<Rightarrow> nat \<Rightarrow> cache_error + (nat \<times> (string, nat) cache)" where
  "worker_queue_run h turns turns2 =
     (case cache_init None (init_args_unset\<lparr>ia_capacity := Some 8, ia_worker_count := Some 2, ia_queue_size := Some 64,
             ia_scheduler_interval := Some 10\<rparr>) None (fake_clock_init 0) of
        Inl e \<Rightarrow> Inl e
      | Inr c \<Rightarrow>
          (case cache_start c of
             (Inl e, c1) \<Rightarrow> Inl e
           | (Inr u, c1) \<Rightarrow>
               (case put_range h [0..<8] (TTL_SECONDS 1) c1 of
                  (Inl e, c2) \<Rightarrow> Inl e
                | (Inr u, c2) \<Rightarrow>
                    (case scheduler_tick (c2\<lparr>c_clock := snd (clock_advance 2 (c_clock c2))\<rparr>) of
                       (Inl e, c3) \<Rightarrow> Inl e
                     | (Inr u, c3) \<Rightarrow>
                         (case cache_size (worker_turns h turns c3) of
                            (Inl e, c4) \<Rightarrow> Inl e
                          | (Inr size_after, c4) \<Rightarrow>
                              (case cache_close h (Some False) True 0 turns2 c4 of
                                 (Inl e, c5) \<Rightarrow> Inl e
                               | (Inr u, c5) \<Rightarrow> Inr (size_after, c5)))))))"

definition demo_worker_queue :: "(string \<Rightarrow> nat) \<Rightarrow> nat \<Rightarrow> nat \<Rightarrow> printed" where
  "demo_worker_queue h turns turns2 =
     (case worker_queue_run h turns turns2 of
        Inl e \<Rightarrow> Inl e
      | Inr (size_after, c) \<Rightarrow>
          with_table (\<lambda>t. (''worker-queue: 8 entries expired by background workers; size now '' @ str_nat size_after) # t) c)"

fun offer_jobs :: "nat \<Rightarrow> nat \<Rightarrow> ('k, 'v) cache \<Rightarrow> nat \<times> ('k, 'v) cache" where
  "offer_jobs 0 accepted c = (accepted, c)"
| "offer_jobs (Suc n) accepted c =
     (case jq_put (ExpireShard 0) False (c_queue c) of (ok, q) \<Rightarrow>
        offer_jobs n (if ok then accepted + 1 else accepted) (c\<lparr>c_queue := q\<rparr>))"

definition backpressure_run :: "cache_error + (nat \<times> (string, nat) cache)" where
  "backpressure_run =
     (case cache_init None (init_args_unset\<lparr>ia_capacity := Some 8, ia_worker_count := Some 0, ia_queue_size := Some 1\<rparr>)
             None (fake_clock_init 0) of
        Inl e \<Rightarrow> Inl e
      | Inr c \<Rightarrow> Inr (offer_jobs 20 0 c))"

definition demo_backpressure :: printed where
  "demo_backpressure =
     (case backpressure_run of
        Inl e \<Rightarrow> Inl e
      | Inr (accepted, c1) \<Rightarrow>
             with_table (\<lambda>t. (''backpressure: queue_size=1, offered='' @ str_nat 20 @ '', accepted='' @ str_nat accepted @
                '', dropped='' @ str_nat (cs_queue_dropped (cache_stats_of c1))) #
               ''critical jobs raise QueueBackpressureError rather than dropping silently'' # t) c1)"

text \<open>\<open>turns0\<close> is what the worker does before \<open>close\<close>, \<open>turns1\<close> and \<open>turns2\<close> while it waits.\<close>

definition write_back_retry_run :: "(string \<Rightarrow> nat) \<Rightarrow> nat \<Rightarrow> nat \<Rightarrow> nat \<Rightarrow> cache_error + (string, string) cache" where
  "write_back_retry_run h turns0 turns1 turns2 =
     (case cache_init None (init_args_unset\<lparr>ia_capacity := Some 4, ia_write_mode := Some ''write-back'', ia_worker_count := Some 1\<rparr>)
             (Some (sd_fail_next 1 (slow_dict_init 0 (fake_clock_init 0)))) (fake_clock_init 0) of
        Inl e \<Rightarrow> Inl e
      | Inr c \<Rightarrow>
          (case cache_start c of
             (Inl e, c1) \<Rightarrow> Inl e
           | (Inr u, c1) \<Rightarrow>
               (case cache_put h ''retry'' ''eventually'' TTL_UNSET c1 of
                  (Inl e, c2) \<Rightarrow> Inl e
                | (Inr u, c2) \<Rightarrow>
                    (case cache_close h None True turns1 turns2 (worker_turns h turns0 c2) of
                       (Inl e, c3) \<Rightarrow> Inl e
                     | (Inr u, c3) \<Rightarrow> Inr c3))))"

definition demo_write_back_retry :: "(string \<Rightarrow> nat) \<Rightarrow> nat \<Rightarrow> nat \<Rightarrow> nat \<Rightarrow> printed" where
  "demo_write_back_retry h turns0 turns1 turns2 =
     (case write_back_retry_run h turns0 turns1 turns2 of
        Inl e \<Rightarrow> Inl e
      | Inr c \<Rightarrow> with_table (\<lambda>t. t @ [''backend value: '' @ str_option (fst (sd_get_value ''retry'' (c_source c)))]) c)"

text \<open>
  \<open>asleep\<close> is what the clock, the scheduler and the worker do during \<open>time.sleep(0.08)\<close>,
  a history of their own steps.
\<close>

definition ttl_active_run ::
  "(string \<Rightarrow> nat) \<Rightarrow> (string, string) action list \<Rightarrow> nat \<Rightarrow> nat \<Rightarrow> cache_error + (nat \<times> (string, string) cache)" where
  "ttl_active_run h asleep turns1 turns2 =
     (case cache_init None (init_args_unset\<lparr>ia_capacity := Some 4, ia_worker_count := Some 1, ia_scheduler_interval := Some (2 / 100)\<rparr>)
             None (fake_clock_init 0) of
        Inl e \<Rightarrow> Inl e
      | Inr c \<Rightarrow>
          (case cache_start c of
             (Inl e, c1) \<Rightarrow> Inl e
           | (Inr u, c1) \<Rightarrow>
               (case cache_put h ''short'' ''lived'' (TTL_SECONDS (1 / 100)) c1 of
                  (Inl e, c2) \<Rightarrow> Inl e
                | (Inr u, c2) \<Rightarrow>
                    (case cache_size (run h asleep c2) of
                       (Inl e, c3) \<Rightarrow> Inl e
                     | (Inr size_after, c3) \<Rightarrow>
                         (case cache_close h None True turns1 turns2 c3 of
                            (Inl e, c4) \<Rightarrow> Inl e
                          | (Inr u, c4) \<Rightarrow> Inr (size_after, c4))))))"

definition demo_ttl_active :: "(string \<Rightarrow> nat) \<Rightarrow> (string, string) action list \<Rightarrow> nat \<Rightarrow> nat \<Rightarrow> printed" where
  "demo_ttl_active h asleep turns1 turns2 =
     (case ttl_active_run h asleep turns1 turns2 of
        Inl e \<Rightarrow> Inl e
      | Inr (size_after, c) \<Rightarrow> with_table (\<lambda>t. (''active expiration size: '' @ str_nat size_after) # t) c)"

text \<open>\<open>_traffic\<close> of one thread as a history, and eight of them merged by a schedule of thread numbers.\<close>

definition traffic :: "nat \<Rightarrow> (string, nat) action list" where
  "traffic worker =
     concat (map (\<lambda>index. let key = str_nat worker @ '':'' @ str_nat (index mod 80)
                          in [Put key index TTL_UNSET, Contains key, Get key None]) [0..<500])"

fun merged :: "nat list \<Rightarrow> (nat \<Rightarrow> 'a list) \<Rightarrow> 'a list" where
  "merged [] rest = []"
| "merged (i # is) rest =
     (case rest i of [] \<Rightarrow> merged is rest | op # ops \<Rightarrow> op # merged is (rest(i := ops)))"

definition sharding_run :: "(string \<Rightarrow> nat) \<Rightarrow> nat list \<Rightarrow> cache_error + (string, nat) cache" where
  "sharding_run h schedule =
     map_sum id (run h (merged schedule (\<lambda>i. if i < 8 then traffic i else [])))
       (cache_init None (init_args_unset\<lparr>ia_capacity := Some 200, ia_shard_count := Some 8\<rparr>) None (fake_clock_init 0))"

definition demo_sharding :: "(string \<Rightarrow> nat) \<Rightarrow> nat list \<Rightarrow> printed" where
  "demo_sharding h schedule = (case sharding_run h schedule of Inl e \<Rightarrow> Inl e | Inr c \<Rightarrow> with_table id c)"

text \<open>\<open>_time_puts\<close> without its clock readings; the two measured times are arguments.\<close>

fun time_puts :: "(string \<Rightarrow> nat) \<Rightarrow> nat list \<Rightarrow> (string, string) cache \<Rightarrow> (unit, (string, string) cache) outcome" where
  "time_puts h [] c = (Inr (), c)"
| "time_puts h (i # is) c =
     (case cache_put h (num_key i) (''v'' @ str_nat i) TTL_UNSET c of (Inl e, c1) \<Rightarrow> (Inl e, c1) | (Inr u, c1) \<Rightarrow> time_puts h is c1)"

definition demo_write_modes :: "(string \<Rightarrow> nat) \<Rightarrow> string \<Rightarrow> string \<Rightarrow> nat \<Rightarrow> nat \<Rightarrow> nat \<Rightarrow> printed" where
  "demo_write_modes h through_time back_time turns0 turns1 turns2 =
     (let source = Some (slow_dict_init (2 / 1000) (fake_clock_init 0)) in
      case cache_init None (init_args_unset\<lparr>ia_capacity := Some 100, ia_write_mode := Some ''write-through''\<rparr>) source (fake_clock_init 0) of
        Inl e \<Rightarrow> Inl e
      | Inr t \<Rightarrow>
          (case cache_init None (init_args_unset\<lparr>ia_capacity := Some 100, ia_write_mode := Some ''write-back'', ia_worker_count := Some 1\<rparr>)
                  source (fake_clock_init 0) of
             Inl e \<Rightarrow> Inl e
           | Inr b \<Rightarrow>
               (case cache_start b of
                  (Inl e, b1) \<Rightarrow> Inl e
                | (Inr u, b1) \<Rightarrow>
                    (case time_puts h [0..<50] t of
                       (Inl e, t1) \<Rightarrow> Inl e
                     | (Inr u, t1) \<Rightarrow>
                         (case time_puts h [0..<50] b1 of
                            (Inl e, b2) \<Rightarrow> Inl e
                          | (Inr u, b2) \<Rightarrow>
                              (case cache_close h None True turns1 turns2 (worker_turns h turns0 b2) of
                                 (Inl e, b3) \<Rightarrow> Inl e
                               | (Inr u, b3) \<Rightarrow>
                                   map_sum id (\<lambda>table. [table]) (format_table [''mode'', ''seconds'', ''persisted'']
                                     [[''write-through'', through_time, str_nat (length (sd_snapshot (c_source t1)))],
                                      [''write-back'', back_time, str_nat (length (sd_snapshot (c_source b3)))]])))))))"

section \<open>Dispatch\<close>

definition all_demos :: "string list" where
  "all_demos =
     [''worker-queue'', ''backpressure'', ''ttl-lazy'', ''ttl-active'', ''single-flight'', ''sharding'',
      ''write-through-vs-write-back'', ''write-back-retry'', ''unsafe-race'', ''unsafe-single-flight'',
      ''unsafe-write-back-resurrection'', ''wall-clock-ttl-bug'']"

definition run_named_demo :: "(string, printed) dict \<Rightarrow> string \<Rightarrow> printed" where
  "run_named_demo demos name = (case dict_get demos name of None \<Rightarrow> Inl ValueError | Some out \<Rightarrow> out)"

fun run_all_demos :: "(string, printed) dict \<Rightarrow> string list \<Rightarrow> printed" where
  "run_all_demos demos [] = Inr []"
| "run_all_demos demos (name # names) =
     (case run_named_demo demos name of
        Inl e \<Rightarrow> Inl e
      | Inr out \<Rightarrow> map_sum id (\<lambda>rest. (''\<newline>== '' @ name @ '' =='') # out @ rest) (run_all_demos demos names))"

definition run_demo :: "(string, printed) dict \<Rightarrow> printed \<Rightarrow> string \<Rightarrow> printed" where
  "run_demo demos policy_benchmark name =
     (if name = ''all''
      then (case run_all_demos demos all_demos of
              Inl e \<Rightarrow> Inl e
            | Inr out \<Rightarrow> map_sum id (\<lambda>bench. out @ (''\<newline>== policy benchmark =='' # bench)) policy_benchmark)
      else run_named_demo demos name)"

text \<open>\<open>_dispatch\<close> of \<open>cli/main.py\<close>: what is printed and the state file afterwards.\<close>

datatype request =
    BasicRequest cli_args command
  | SimulateRequest string string int int int
  | BenchmarkRequest string string int int int
  | DemoRequest string
  | UnknownRequest string

record program_env =
  pe_env :: cli_env
  pe_hash :: "string \<Rightarrow> nat"
  pe_rng :: rng
  pe_elapsed :: "string \<Rightarrow> time"
  pe_demos :: "(string, printed) dict"
  pe_policy_benchmark :: printed

definition dispatch :: "program_env \<Rightarrow> request \<Rightarrow> state_file \<Rightarrow> printed \<times> state_file" where
  "dispatch pe r f =
     (let rf = env_repr_float (pe_env pe); clock = env_clock (pe_env pe) in
      case r of
        BasicRequest a cmd \<Rightarrow>
          (case run_basic (pe_env pe) a cmd f of (out, notices, f1) \<Rightarrow> (map_sum id (\<lambda>line. [line]) out, f1))
      | SimulateRequest policy pattern capacity requests shards \<Rightarrow>
          (map_sum id (\<lambda>line. [line]) (run_simulate (pe_hash pe) (pe_rng pe) rf policy pattern capacity requests shards clock), f)
      | BenchmarkRequest policies pattern capacity requests shards \<Rightarrow>
          (map_sum id (\<lambda>line. [line]) (run_benchmark (pe_hash pe) (pe_rng pe) rf (pe_elapsed pe) policies pattern capacity requests
             shards clock), f)
      | DemoRequest name \<Rightarrow> (run_demo (pe_demos pe) (pe_policy_benchmark pe) name, f)
      | UnknownRequest name \<Rightarrow> (Inl ValueError, f))"

definition main_exit_code :: "program_env \<Rightarrow> request \<Rightarrow> state_file \<Rightarrow> nat" where
  "main_exit_code pe r f = exit_code (fst (dispatch pe r f))"

text \<open>A failing command exits with 1 and leaves the state file alone; only basic commands write it.\<close>

lemma failed_command_keeps_state: "main_exit_code pe r f \<noteq> 0 \<Longrightarrow> snd (dispatch pe r f) = f"
  by (auto simp: main_exit_code_def exit_code_def dispatch_def run_basic_def Let_def
      split: request.splits sum.splits prod.splits option.splits)

section \<open>What the demonstrations print\<close>

lemma stats_table_total: "\<exists>t. stats_table c = Inr t"
  by (simp add: stats_table_def stats_rows_def format_table_def table_lines_eq Let_def)

lemma with_table_line: "\<forall>t. pick (lines [t]) = line \<Longrightarrow> map_sum id pick (with_table lines c) = Inr line"
  using stats_table_total [of c] by (auto simp: with_table_def)

lemma demo_runs:
  "map_sum id fst (ttl_lazy_run length) = Inr None"
  "map_sum id (\<lambda>(n, c). (n, jq_dropped (c_queue c))) backpressure_run = Inr (1, 19)"
  by code_simp+

text \<open>The injected failure is retried, whether the worker runs before \<open>close\<close> or during it.\<close>

lemma write_back_retry_runs:
  "map_sum id (\<lambda>c. fst (sd_get_value ''retry'' (c_source c))) (write_back_retry_run length 3 2 2) = Inr (Some ''eventually'')"
  "map_sum id (\<lambda>c. fst (sd_get_value ''retry'' (c_source c))) (write_back_retry_run length 0 4 2) = Inr (Some ''eventually'')"
  by code_simp+

lemma demo_ttl_lazy_line: "map_sum id hd (demo_ttl_lazy length) = Inr ''lazy get after ttl: None''"
  using demo_runs(1) by (cases "ttl_lazy_run length") (auto simp: demo_ttl_lazy_def intro!: with_table_line)

lemma demo_write_back_retry_line: "map_sum id last (demo_write_back_retry length 0 4 2) = Inr ''backend value: eventually''"
  using write_back_retry_runs(2)
  by (cases "write_back_retry_run length 0 4 2") (auto simp: demo_write_back_retry_def str_option_def intro!: with_table_line)

lemma ttl_active_example:
  "map_sum id fst (ttl_active_run length [Advance (2 / 100), SchedulerTick, WorkerTurn, Advance (6 / 100)] 3 3) = Inr 0"
  by code_simp

lemma release_config [simp]: "c_config (release_jobs js c) = c_config c"
  by (induction js arbitrary: c) (simp_all add: resolve_pending_def)

lemma enqueue_flush_config [simp]: "c_config (snd (enqueue_flush_jobs js c)) = c_config c"
  by (induction js arbitrary: c)
     (simp_all add: case_prod_beta enqueue_job_eq del: release_jobs.simps split: sum.splits)

lemma put_config: "c_config (snd (cache_put h k v ttl c)) = c_config c"
  by (simp add: cache_put_def unless_closed_def Let_def case_prod_beta maybe_warn_cache_not_started_def put_section_def
      on_shard_source_def del: enqueue_flush_jobs.simps split: option.splits sum.splits)

lemma traffic_action_config:
  "a \<in> set (traffic i) \<Longrightarrow> c_config (run_action h a c) = c_config c"
  by (auto simp: traffic_def Let_def put_config cache_get_def cache_contains_def unless_closed_def read_section_def on_shard_def
      case_prod_beta split: option.splits)

lemma merged_set: "a \<in> set (merged schedule rest) \<Longrightarrow> \<exists>i. a \<in> set (rest i)"
proof (induction schedule arbitrary: rest)
  case (Cons i "is")
  show ?case
  proof (cases "rest i")
    case Nil
    with Cons show ?thesis by simp
  next
    case (Cons op ops)
    then consider "a = op" | "a \<in> set (merged is (rest(i := ops)))" using Cons.prems by auto
    then show ?thesis
    proof cases
      case 1
      with Cons show ?thesis by (intro exI [of _ i]) simp
    next
      case 2
      from Cons.IH [OF this] obtain j where "a \<in> set ((rest(i := ops)) j)" ..
      with Cons show ?thesis by (intro exI [of _ j]) (cases "j = i"; simp)
    qed
  qed
qed simp

lemma run_config: "\<forall>a \<in> set acts. \<forall>c. c_config (run_action h a c) = c_config c \<Longrightarrow> c_config (Coherence.run h acts c) = c_config c"
  unfolding run_def by (induction acts arbitrary: c) simp_all

text \<open>However the eight threads are scheduled, the sharded cache ends within its capacity.\<close>

lemma sharding_within_capacity: "sharding_run h schedule = Inr c \<Longrightarrow> total_size c \<le> 200"
proof -
  assume run: "sharding_run h schedule = Inr c"
  let ?a = "init_args_unset\<lparr>ia_capacity := Some 200, ia_shard_count := Some 8\<rparr>"
  obtain c0 :: "(string, nat) cache" where c0: "cache_init None ?a None (fake_clock_init 0) = Inr c0"
    and c: "c = Coherence.run h (merged schedule (\<lambda>i. if i < 8 then traffic i else [])) c0"
    using run by (cases "cache_init None ?a None (fake_clock_init 0) :: cache_error + (string, nat) cache") (auto simp: sharding_run_def)
  have inv: "cache_inv h c" unfolding c by (rule run_inv [OF cache_init_inv [OF c0]]) simp
  have "c_config c = c_config c0" unfolding c
  proof (rule run_config, intro ballI allI)
    fix a :: "(string, nat) action" and d :: "(string, nat) cache"
    assume "a \<in> set (merged schedule (\<lambda>i. if i < 8 then traffic i else []))"
    from merged_set [OF this] obtain i where "a \<in> set (if i < 8 then traffic i else [])" ..
    then have "a \<in> set (traffic i)" by (cases "i < 8") simp_all
    then show "c_config (run_action h a d) = c_config d" by (rule traffic_action_config)
  qed
  moreover have "cfg_capacity (c_config c0) = 200" using c0
    by (auto simp: cache_init_def init_config_def config_post_init_def init_args_unset_def arg_or_def split: sum.splits if_splits)
  ultimately show ?thesis using total_size_bounded [OF inv] by simp
qed

lemma unknown_demo:
  assumes "name \<notin> set (map fst demos)" and "name \<noteq> ''all''"
  shows "run_demo demos bench name = Inl ValueError"
proof -
  have "dict_get demos name = None" using assms(1) by (simp add: dict_get_None)
  with assms(2) show ?thesis by (simp add: run_demo_def run_named_demo_def)
qed

end
