(* ===== verification/Arg_Parser.thy ===== *)
theory Arg_Parser
  imports Demos "HOL-Library.Monad_Syntax"
begin

text \<open>
  \<open>cli/parser.py\<close>: the options, sub-commands, types, choices and defaults that
  \<open>build_parser\<close> declares, and how \<open>argparse\<close> (of Python 3.11, the version the
  project targets) turns a command line into the namespace that \<open>main\<close> dispatches on:
  classification of every argument, abbreviations of long options, \<open>--option=value\<close>,
  negative numbers, the separator \<open>--\<close>, options between positional arguments, and the
  copying of a sub-command's namespace over the outer one. What is printed on an error
  is left out; the exit code is kept. The conversion of \<open>float\<close> is a parameter.
\<close>

section \<open>Declarations\<close>

datatype arg_type = StrArg | IntArg | FloatArg

datatype arg_value = NoneValue | StrValue string | IntValue int | FloatValue time | BoolValue bool | EmptyListValue

datatype arg_action =
    Store arg_type "string list option" arg_value
  | StoreTrue
  | ShowVersion
  | ShowHelp

record arg_parser =
  ap_options :: "(string, string \<times> arg_action) dict"
  ap_positionals :: "(string \<times> string list option) list"

type_synonym namespace = "(string, arg_value) dict"

definition dest_of :: "string \<Rightarrow> string" where
  "dest_of flag = map (\<lambda>c. if c = CHR ''-'' then CHR ''_'' else c) (dropWhile (\<lambda>c. c = CHR ''-'') flag)"

definition argument_parser :: arg_parser where
  "argument_parser = \<lparr>ap_options = [(''-h'', ''help'', ShowHelp), (''--help'', ''help'', ShowHelp)], ap_positionals = []\<rparr>"

definition add_option :: "string \<Rightarrow> arg_action \<Rightarrow> arg_parser \<Rightarrow> arg_parser" where
  "add_option flag action p = p\<lparr>ap_options := ap_options p @ [(flag, dest_of flag, action)]\<rparr>"

definition add_positional :: "string \<Rightarrow> string list option \<Rightarrow> arg_parser \<Rightarrow> arg_parser" where
  "add_positional dest choices p = p\<lparr>ap_positionals := ap_positionals p @ [(dest, choices)]\<rparr>"

definition add_key_flags :: "arg_parser \<Rightarrow> arg_parser" where
  "add_key_flags = add_option ''--key-json'' StoreTrue"

definition policy_choices :: "string list" where
  "policy_choices = [''lru'', ''lfu'', ''fifo'']"

definition patterns :: "string list" where
  "patterns = [''uniform'', ''zipfian'', ''hotspot'', ''sequential'', ''looping'', ''mixed'']"

definition demo_names :: "string list" where
  "demo_names =
     [''ttl-lazy'', ''ttl-active'', ''single-flight'', ''sharding'', ''worker-queue'', ''backpressure'',
      ''write-through-vs-write-back'', ''write-back-retry'', ''unsafe-race'', ''unsafe-single-flight'',
      ''unsafe-write-back-resurrection'', ''wall-clock-ttl-bug'', ''all'']"

definition top_parser :: arg_parser where
  "top_parser =
     (add_option ''--config'' (Store StrArg None NoneValue) \<circ>
      add_option ''--state'' (Store StrArg None (StrValue ''.cachelab_state.json'')) \<circ>
      add_option ''--default-ttl'' (Store FloatArg None NoneValue) \<circ>
      add_option ''--shards'' (Store IntArg None (IntValue 1)) \<circ>
      add_option ''--policy'' (Store StrArg (Some policy_choices) (StrValue ''lru'')) \<circ>
      add_option ''--capacity'' (Store IntArg None (IntValue 128)) \<circ>
      add_option ''--version'' ShowVersion) argument_parser"

definition keyed_parser :: arg_parser where
  "keyed_parser = add_key_flags (add_positional ''key'' None argument_parser)"

definition put_parser :: arg_parser where
  "put_parser =
     (add_key_flags \<circ>
      add_option ''--value-json'' StoreTrue \<circ>
      add_option ''--no-ttl'' StoreTrue \<circ>
      add_option ''--ttl'' (Store FloatArg None NoneValue) \<circ>
      add_positional ''value'' None \<circ>
      add_positional ''key'' None) argument_parser"

definition simulate_parser :: arg_parser where
  "simulate_parser =
     (add_option ''--shards'' (Store IntArg None (IntValue 1)) \<circ>
      add_option ''--seed'' (Store IntArg None (IntValue 1)) \<circ>
      add_option ''--requests'' (Store IntArg None (IntValue 10000)) \<circ>
      add_option ''--capacity'' (Store IntArg None (IntValue 100)) \<circ>
      add_option ''--pattern'' (Store StrArg (Some patterns) (StrValue ''hotspot'')) \<circ>
      add_option ''--policy'' (Store StrArg (Some policy_choices) (StrValue ''lru''))) argument_parser"

definition benchmark_parser :: arg_parser where
  "benchmark_parser =
     (add_option ''--shards'' (Store IntArg None (IntValue 1)) \<circ>
      add_option ''--seed'' (Store IntArg None (IntValue 1)) \<circ>
      add_option ''--requests'' (Store IntArg None (IntValue 50000)) \<circ>
      add_option ''--capacity'' (Store IntArg None (IntValue 100)) \<circ>
      add_option ''--pattern'' (Store StrArg (Some patterns) (StrValue ''looping'')) \<circ>
      add_option ''--policies'' (Store StrArg None (StrValue ''lru,lfu,fifo''))) argument_parser"

definition sub_parsers :: "(string, arg_parser) dict" where
  "sub_parsers =
     [(''put'', put_parser),
      (''get'', keyed_parser),
      (''delete'', keyed_parser),
      (''contains'', keyed_parser),
      (''inspect'', keyed_parser),
      (''dump'', add_option ''--limit'' (Store IntArg None NoneValue) argument_parser),
      (''clear'', argument_parser),
      (''stats'', argument_parser),
      (''simulate'', simulate_parser),
      (''benchmark'', benchmark_parser),
      (''demo'', add_positional ''name'' (Some demo_names) argument_parser)]"

section \<open>Numbers\<close>

definition is_digit :: "char \<Rightarrow> bool" where
  "is_digit c \<longleftrightarrow> (let n = (of_char c :: nat) in 48 \<le> n \<and> n \<le> 57)"

text \<open>\<open>int(text)\<close>: surrounding space, a sign, digits with single underscores between them.\<close>

fun digits_ok :: "string \<Rightarrow> bool" where
  "digits_ok [] = False"
| "digits_ok [c] = is_digit c"
| "digits_ok (c # d # cs) = (is_digit c \<and> (if d = CHR ''_'' then digits_ok cs else digits_ok (d # cs)))"

definition py_nat :: "string \<Rightarrow> int option" where
  "py_nat s = (if digits_ok s then Some (int (num_of (filter (\<lambda>c. c \<noteq> CHR ''_'') s))) else None)"

definition py_int :: "string \<Rightarrow> int option" where
  "py_int text =
     (case strip text of
        [] \<Rightarrow> None
      | c # cs \<Rightarrow> if c = CHR ''-'' then map_option uminus (py_nat cs)
                  else if c = CHR ''+'' then py_nat cs else py_nat (c # cs))"

text \<open>\<open>-5\<close>, \<open>-1.5\<close>, \<open>-.5\<close>, also before a final newline: arguments that are negative numbers.\<close>

definition chomp :: "string \<Rightarrow> string" where
  "chomp s = (if s \<noteq> [] \<and> last s = CHR 0x0A then butlast s else s)"

definition negative_number_like :: "string \<Rightarrow> bool" where
  "negative_number_like s =
     (case chomp s of
        [] \<Rightarrow> False
      | c # cs \<Rightarrow> c = CHR ''-'' \<and>
          (case dropWhile is_digit cs of
             [] \<Rightarrow> cs \<noteq> []
           | d # ds \<Rightarrow> d = CHR ''.'' \<and> ds \<noteq> [] \<and> list_all is_digit ds))"

section \<open>Classification of the arguments\<close>

text \<open>The value written in the option's own argument: none, after a \<open>=\<close>, or glued to a short option.\<close>

datatype explicit_arg = NoArg | AfterEq string | Glued string

datatype arg_class =
    Plain
  | Separator
  | Known string string arg_action explicit_arg
  | Unknown

type_synonym classified = "string \<times> arg_class"

definition before_eq :: "string \<Rightarrow> string" where
  "before_eq s = takeWhile (\<lambda>c. c \<noteq> CHR ''='') s"

definition after_eq :: "string \<Rightarrow> explicit_arg" where
  "after_eq s = (case dropWhile (\<lambda>c. c \<noteq> CHR ''='') s of [] \<Rightarrow> NoArg | c # cs \<Rightarrow> AfterEq cs)"

text \<open>\<open>_get_option_tuples\<close>: the options an argument may abbreviate.\<close>

definition option_tuples :: "arg_parser \<Rightarrow> string \<Rightarrow> arg_class list" where
  "option_tuples p s =
     (if starts_with ''--'' s
      then map (\<lambda>(flag, dest, action). Known flag dest action (after_eq s))
             (filter (\<lambda>(flag, dest, action). starts_with (before_eq s) flag) (ap_options p))
      else map (\<lambda>(flag, dest, action). Known flag dest action (if flag = take 2 s then Glued (drop 2 s) else NoArg))
             (filter (\<lambda>(flag, dest, action). flag = take 2 s \<or> starts_with s flag) (ap_options p)))"

text \<open>\<open>_parse_optional\<close>: an ambiguous abbreviation is a usage error, exit code 2.\<close>

definition classify :: "arg_parser \<Rightarrow> string \<Rightarrow> nat + arg_class" where
  "classify p s =
     (if s = [] \<or> hd s \<noteq> CHR ''-'' then Inr Plain
      else case dict_get (ap_options p) s of
        Some (dest, action) \<Rightarrow> Inr (Known s dest action NoArg)
      | None \<Rightarrow>
          if length s = 1 then Inr Plain
          else case (if after_eq s = NoArg then None else dict_get (ap_options p) (before_eq s)) of
            Some (dest, action) \<Rightarrow> Inr (Known (before_eq s) dest action (after_eq s))
          | None \<Rightarrow>
              (case option_tuples p s of
                 [known] \<Rightarrow> Inr known
               | [] \<Rightarrow> Inr (if negative_number_like s \<or> CHR '' '' \<in> set s then Plain else Unknown)
               | _ \<Rightarrow> Inl 2))"

fun classify_args :: "arg_parser \<Rightarrow> string list \<Rightarrow> nat + classified list" where
  "classify_args p [] = Inr []"
| "classify_args p (s # ss) =
     (if s = ''--'' then Inr ((s, Separator) # map (\<lambda>a. (a, Plain)) ss)
      else case classify p s of
        Inl code \<Rightarrow> Inl code
      | Inr cls \<Rightarrow> map_sum id (\<lambda>xs. (s, cls) # xs) (classify_args p ss))"

section \<open>Consuming the arguments\<close>

definition convert :: "(string \<Rightarrow> time option) \<Rightarrow> arg_type \<Rightarrow> string \<Rightarrow> arg_value option" where
  "convert float_of ty v =
     (case ty of
        StrArg \<Rightarrow> Some (StrValue v)
      | IntArg \<Rightarrow> map_option IntValue (py_int v)
      | FloatArg \<Rightarrow> map_option FloatValue (float_of v))"

text \<open>\<open>_get_value\<close> and \<open>_check_value\<close>.\<close>

definition get_value :: "(string \<Rightarrow> time option) \<Rightarrow> arg_type \<Rightarrow> string list option \<Rightarrow> string \<Rightarrow> nat + arg_value" where
  "get_value float_of ty choices v =
     (case convert float_of ty v of
        None \<Rightarrow> Inl 2
      | Some x \<Rightarrow> if (case choices of None \<Rightarrow> True | Some cs \<Rightarrow> v \<in> set cs) then Inr x else Inl 2)"

text \<open>\<open>_get_values\<close> for a positional: the first \<open>--\<close> is removed, and an empty rest gives an empty list.\<close>

definition get_values :: "(string \<Rightarrow> time option) \<Rightarrow> string list option \<Rightarrow> string list \<Rightarrow> nat + arg_value" where
  "get_values float_of choices strings =
     (case remove1 ''--'' strings of
        [v] \<Rightarrow> get_value float_of StrArg choices v
      | _ \<Rightarrow> Inr EmptyListValue)"

text \<open>Letters glued to \<open>-h\<close>, the only short option: the exit code.\<close>

fun glued_code :: "string \<Rightarrow> nat" where
  "glued_code [] = 2"
| "glued_code (c # cs) =
     (if c = CHR ''-'' then 2
      else if c \<noteq> CHR ''h'' then 0
      else (case cs of [] \<Rightarrow> 0 | d # ds \<Rightarrow> if d = CHR ''='' then 2 else glued_code cs))"

text \<open>\<open>consume_optional\<close>: how many of the following arguments the option takes, and the namespace.\<close>

definition consume_optional ::
  "(string \<Rightarrow> time option) \<Rightarrow> string \<Rightarrow> arg_action \<Rightarrow> explicit_arg \<Rightarrow> classified list \<Rightarrow> namespace \<Rightarrow>
     nat + nat \<times> namespace" where
  "consume_optional float_of dest action explicit xs ns =
     (case action of
        Store ty choices dflt \<Rightarrow>
          (let store = (\<lambda>taken v. map_sum id (\<lambda>x. (taken, dict_set dest x ns)) (get_value float_of ty choices v))
           in case explicit of
                NoArg \<Rightarrow> (case xs of (v, Plain) # rest \<Rightarrow> store 1 v | _ \<Rightarrow> Inl 2)
              | AfterEq v \<Rightarrow> store 0 v
              | Glued v \<Rightarrow> store 0 v)
      | _ \<Rightarrow>
          (case explicit of
             NoArg \<Rightarrow> if action = StoreTrue then Inr (0, dict_set dest (BoolValue True) ns) else Inl 0
           | AfterEq e \<Rightarrow> Inl 2
           | Glued e \<Rightarrow> Inl (glued_code e)))"

text \<open>The arguments the next positional matches: one plain argument and the separators around it.\<close>

definition is_separator :: "classified \<Rightarrow> bool" where
  "is_separator x \<longleftrightarrow> snd x = Separator"

definition take_positional :: "classified list \<Rightarrow> (string list \<times> classified list) option" where
  "take_positional xs =
     (case dropWhile is_separator xs of
        (s, Plain) # ys \<Rightarrow>
          Some (map fst (takeWhile is_separator xs) @ s # map fst (takeWhile is_separator ys), dropWhile is_separator ys)
      | _ \<Rightarrow> None)"

lemma take_positional_shorter: "take_positional xs = Some (strs, rest) \<Longrightarrow> length rest < length xs"
  using length_dropWhile_le [of is_separator xs] length_dropWhile_le [of is_separator "tl (dropWhile is_separator xs)"]
  by (auto simp: take_positional_def split: list.splits prod.splits arg_class.splits)

text \<open>The loop of \<open>parse_known_args\<close> for a parser without sub-commands.\<close>

function consume ::
  "(string \<Rightarrow> time option) \<Rightarrow> (string \<times> string list option) list \<Rightarrow> classified list \<Rightarrow> namespace \<Rightarrow> string list \<Rightarrow>
     nat + (string \<times> string list option) list \<times> namespace \<times> string list" where
  "consume float_of ps [] ns extras = Inr (ps, ns, extras)"
| "consume float_of ps ((s, cls) # xs) ns extras =
     (case cls of
        Known flag dest action explicit \<Rightarrow>
          (case consume_optional float_of dest action explicit xs ns of
             Inl code \<Rightarrow> Inl code
           | Inr (taken, ns1) \<Rightarrow> consume float_of ps (drop taken xs) ns1 extras)
      | Unknown \<Rightarrow> consume float_of ps xs ns (extras @ [s])
      | _ \<Rightarrow>
          (case (ps, take_positional ((s, cls) # xs)) of
             ((dest, choices) # ps1, Some (strs, rest)) \<Rightarrow>
               (case get_values float_of choices strs of
                  Inl code \<Rightarrow> Inl code
                | Inr v \<Rightarrow> consume float_of ps1 rest (dict_set dest v ns) extras)
           | _ \<Rightarrow> consume float_of ps xs ns (extras @ [s])))"
  by pat_completeness auto
termination
  by (relation "measure (\<lambda>(float_of, ps, xs, ns, extras). length xs)") (auto dest!: take_positional_shorter [OF sym])

definition init_namespace :: "arg_parser \<Rightarrow> namespace" where
  "init_namespace p =
     List.map_filter (\<lambda>(flag, dest, action). case action of
         Store ty choices dflt \<Rightarrow> Some (dest, dflt) | StoreTrue \<Rightarrow> Some (dest, BoolValue False) | _ \<Rightarrow> None) (ap_options p) @
     map (\<lambda>(dest, choices). (dest, NoneValue)) (ap_positionals p)"

definition parse_known :: "(string \<Rightarrow> time option) \<Rightarrow> arg_parser \<Rightarrow> string list \<Rightarrow> nat + namespace \<times> string list" where
  "parse_known float_of p args =
     (case classify_args p args of
        Inl code \<Rightarrow> Inl code
      | Inr xs \<Rightarrow>
          (case consume float_of (ap_positionals p) xs (init_namespace p) [] of
             Inl code \<Rightarrow> Inl code
           | Inr (left, ns, extras) \<Rightarrow> if left = [] then Inr (ns, extras) else Inl 2))"

text \<open>The sub-command: its namespace, defaults included, is copied over the outer one.\<close>

definition merge_namespace :: "namespace \<Rightarrow> namespace \<Rightarrow> namespace" where
  "merge_namespace outer sub = fold (\<lambda>(dest, v). dict_set dest v) sub outer"

definition parse_sub :: "(string \<Rightarrow> time option) \<Rightarrow> string list \<Rightarrow> namespace \<Rightarrow> nat + namespace \<times> string list" where
  "parse_sub float_of strings ns =
     (case strings of
        [] \<Rightarrow> Inl 2
      | name # args \<Rightarrow>
          (case dict_get sub_parsers name of
             None \<Rightarrow> Inl 2
           | Some p \<Rightarrow>
               map_sum id (\<lambda>(sub, extras). (merge_namespace (dict_set ''command'' (StrValue name) ns) sub, extras))
                 (parse_known float_of p args)))"

function consume_top ::
  "(string \<Rightarrow> time option) \<Rightarrow> classified list \<Rightarrow> namespace \<Rightarrow> string list \<Rightarrow> nat + namespace \<times> string list" where
  "consume_top float_of [] ns extras = Inl 2"
| "consume_top float_of ((s, cls) # xs) ns extras =
     (case cls of
        Known flag dest action explicit \<Rightarrow>
          (case consume_optional float_of dest action explicit xs ns of
             Inl code \<Rightarrow> Inl code
           | Inr (taken, ns1) \<Rightarrow> consume_top float_of (drop taken xs) ns1 extras)
      | Unknown \<Rightarrow> consume_top float_of xs ns (extras @ [s])
      | _ \<Rightarrow>
          (case take_positional ((s, cls) # xs) of
             None \<Rightarrow> consume_top float_of xs ns (extras @ [s])
           | Some taken \<Rightarrow>
               map_sum id (\<lambda>(ns1, more). (ns1, extras @ more)) (parse_sub float_of (s # map fst xs) ns)))"
  by pat_completeness auto
termination
  by (relation "measure (\<lambda>(float_of, xs, ns, extras). length xs)") auto

definition parse_args :: "(string \<Rightarrow> time option) \<Rightarrow> string list \<Rightarrow> nat + namespace" where
  "parse_args float_of argv =
     (case classify_args top_parser argv of
        Inl code \<Rightarrow> Inl code
      | Inr xs \<Rightarrow>
          (case consume_top float_of xs (dict_set ''command'' NoneValue (init_namespace top_parser)) [] of
             Inl code \<Rightarrow> Inl code
           | Inr (ns, extras) \<Rightarrow> if extras = [] then Inr ns else Inl 2))"

section \<open>What is dispatched\<close>

fun str_value :: "arg_value \<Rightarrow> string option" where
  "str_value (StrValue s) = Some s"
| "str_value v = None"

fun int_value :: "arg_value \<Rightarrow> int option" where
  "int_value (IntValue n) = Some n"
| "int_value v = None"

fun bool_value :: "arg_value \<Rightarrow> bool option" where
  "bool_value (BoolValue b) = Some b"
| "bool_value v = None"

fun float_value :: "arg_value \<Rightarrow> time option" where
  "float_value (FloatValue t) = Some t"
| "float_value v = None"

text \<open>A value that may also be \<open>None\<close>.\<close>

definition optional :: "(arg_value \<Rightarrow> 'a option) \<Rightarrow> arg_value \<Rightarrow> 'a option option" where
  "optional f v = (if v = NoneValue then Some None else map_option Some (f v))"

definition attr :: "(arg_value \<Rightarrow> 'a option) \<Rightarrow> namespace \<Rightarrow> string \<Rightarrow> 'a option" where
  "attr f ns dest = dict_get ns dest \<bind> f"

text \<open>
  The sizing flags as \<open>_config_from_args\<close> reads them: an empty \<open>--config\<close> counts as none, any
  other is loaded by \<open>load_config\<close>, the \<open>CacheConfig.from_file\<close> of the given path.
\<close>

definition args_of :: "(string \<Rightarrow> cache_error + cache_config) \<Rightarrow> namespace \<Rightarrow> cli_args option" where
  "args_of load_config ns =
     do {
       config \<leftarrow> attr (optional str_value) ns ''config'';
       capacity \<leftarrow> attr int_value ns ''capacity'';
       policy \<leftarrow> attr str_value ns ''policy'';
       shards \<leftarrow> attr int_value ns ''shards'';
       default_ttl \<leftarrow> attr (optional float_value) ns ''default_ttl'';
       Some \<lparr>a_config = (case config of None \<Rightarrow> None | Some path \<Rightarrow> if path = [] then None else Some (load_config path)),
             a_capacity = capacity, a_policy = policy, a_shards = shards, a_default_ttl = default_ttl\<rparr>
     }"

definition command_of :: "namespace \<Rightarrow> string \<Rightarrow> command option" where
  "command_of ns name =
     (let keyed = (\<lambda>make. do { key \<leftarrow> attr str_value ns ''key''; kjson \<leftarrow> attr bool_value ns ''key_json''; Some (make key kjson) }) in
      if name = ''put''
      then do {
        key \<leftarrow> attr str_value ns ''key'';
        v \<leftarrow> attr str_value ns ''value'';
        ttl \<leftarrow> attr (optional float_value) ns ''ttl'';
        no_ttl \<leftarrow> attr bool_value ns ''no_ttl'';
        vjson \<leftarrow> attr bool_value ns ''value_json'';
        kjson \<leftarrow> attr bool_value ns ''key_json'';
        Some (CmdPut key v ttl no_ttl vjson kjson)
      }
      else if name = ''get'' then keyed CmdGet
      else if name = ''delete'' then keyed CmdDelete
      else if name = ''contains'' then keyed CmdContains
      else if name = ''inspect'' then keyed CmdInspect
      else if name = ''dump'' then map_option CmdDump (attr (optional int_value) ns ''limit'')
      else if name = ''clear'' then Some CmdClear
      else if name = ''stats'' then Some CmdStats
      else None)"

definition basic_commands :: "string list" where
  "basic_commands = [''put'', ''get'', ''delete'', ''contains'', ''inspect'', ''dump'', ''clear'', ''stats'']"

text \<open>
  The namespace as a request of \<open>_dispatch\<close>; \<open>None\<close> where an attribute does not have its declared
  type, which only a second \<open>--\<close> can bring about. The seed of the random generator is part of the environment.
\<close>

definition request_of :: "(string \<Rightarrow> cache_error + cache_config) \<Rightarrow> namespace \<Rightarrow> request option" where
  "request_of load_config ns =
     do {
       name \<leftarrow> attr str_value ns ''command'';
       if name \<in> set basic_commands
       then do { a \<leftarrow> args_of load_config ns; cmd \<leftarrow> command_of ns name; Some (BasicRequest a cmd) }
       else if name = ''simulate''
       then do {
         policy \<leftarrow> attr str_value ns ''policy'';
         pattern \<leftarrow> attr str_value ns ''pattern'';
         capacity \<leftarrow> attr int_value ns ''capacity'';
         requests \<leftarrow> attr int_value ns ''requests'';
         shards \<leftarrow> attr int_value ns ''shards'';
         Some (SimulateRequest policy pattern capacity requests shards)
       }
       else if name = ''benchmark''
       then do {
         policies \<leftarrow> attr str_value ns ''policies'';
         pattern \<leftarrow> attr str_value ns ''pattern'';
         capacity \<leftarrow> attr int_value ns ''capacity'';
         requests \<leftarrow> attr int_value ns ''requests'';
         shards \<leftarrow> attr int_value ns ''shards'';
         Some (BenchmarkRequest policies pattern capacity requests shards)
       }
       else if name = ''demo'' then map_option DemoRequest (attr str_value ns ''name'')
       else Some (UnknownRequest name)
     }"

text \<open>\<open>main\<close>: exit code and state file; an error of \<open>parse_args\<close> ends the program before anything is run.\<close>

definition main_program ::
  "(string \<Rightarrow> cache_error + cache_config) \<Rightarrow> program_env \<Rightarrow> string list \<Rightarrow> state_file \<Rightarrow> (nat \<times> state_file) option" where
  "main_program load_config pe argv f =
     (case parse_args (env_float_of (pe_env pe)) argv of
        Inl code \<Rightarrow> Some (code, f)
      | Inr ns \<Rightarrow> map_option (\<lambda>r. (main_exit_code pe r f, snd (dispatch pe r f))) (request_of load_config ns))"

section \<open>Declared types and choices\<close>

fun fits :: "arg_type \<Rightarrow> string list option \<Rightarrow> arg_value \<Rightarrow> bool" where
  "fits StrArg choices (StrValue s) = (case choices of None \<Rightarrow> True | Some cs \<Rightarrow> s \<in> set cs)"
| "fits IntArg choices (IntValue n) = True"
| "fits FloatArg choices (FloatValue t) = True"
| "fits ty choices v = False"

fun allows :: "arg_action \<Rightarrow> arg_value \<Rightarrow> bool" where
  "allows (Store ty choices dflt) v = (v = dflt \<or> fits ty choices v)"
| "allows StoreTrue v = (v = BoolValue True \<or> v = BoolValue False)"
| "allows a v = True"

fun has_dest :: "arg_action \<Rightarrow> bool" where
  "has_dest (Store ty choices dflt) = True"
| "has_dest StoreTrue = True"
| "has_dest a = False"

definition holds :: "namespace \<Rightarrow> string \<Rightarrow> (arg_value \<Rightarrow> bool) \<Rightarrow> bool" where
  "holds ns dest P = (case dict_get ns dest of None \<Rightarrow> False | Some v \<Rightarrow> P v)"

definition typed :: "arg_parser \<Rightarrow> namespace \<Rightarrow> bool" where
  "typed p ns = list_all (\<lambda>(flag, dest, action). has_dest action \<longrightarrow> holds ns dest (allows action)) (ap_options p)"

definition filled :: "(string \<times> string list option) list \<Rightarrow> namespace \<Rightarrow> bool" where
  "filled ps ns = list_all (\<lambda>(dest, choices). holds ns dest (fits StrArg choices)) ps"

text \<open>A destination belongs to one action.\<close>

definition parser_ok :: "arg_parser \<Rightarrow> bool" where
  "parser_ok p \<longleftrightarrow> distinct (map fst (ap_positionals p)) \<and> dict_wf (init_namespace p) \<and> typed p (init_namespace p) \<and>
     list_all (\<lambda>(flag, dest, action). dest \<notin> fst ` set (ap_positionals p) \<and>
       list_all (\<lambda>(flag', dest', action'). dest = dest' \<longrightarrow> action = action') (ap_options p)) (ap_options p)"

lemma parsers_ok: "list_all parser_ok (top_parser # map snd sub_parsers)"
  by code_simp

lemma sub_parser_ok: "dict_get sub_parsers name = Some p \<Longrightarrow> parser_ok p"
  using parsers_ok by (auto simp: list_all_iff dest!: map_of_SomeD)

lemma fits_iff [simp]:
  "fits StrArg choices v \<longleftrightarrow> (\<exists>s. v = StrValue s \<and> (case choices of None \<Rightarrow> True | Some cs \<Rightarrow> s \<in> set cs))"
  "fits IntArg choices v \<longleftrightarrow> (\<exists>n. v = IntValue n)"
  "fits FloatArg choices v \<longleftrightarrow> (\<exists>t. v = FloatValue t)"
  by (cases v; simp)+

lemma holds_set [simp]: "holds (dict_set d v ns) dest P \<longleftrightarrow> (if dest = d then P v else holds ns dest P)"
  by (simp add: holds_def)

lemma get_value_fits: "get_value float_of ty choices s = Inr v \<Longrightarrow> fits ty choices v"
  by (cases ty) (auto simp: get_value_def convert_def split: option.splits if_splits)

lemma typedD: "typed p ns \<Longrightarrow> (flag, dest, action) \<in> set (ap_options p) \<Longrightarrow> has_dest action \<Longrightarrow> holds ns dest (allows action)"
  by (auto simp: typed_def list_all_iff)

lemma typedI:
  "(\<And>flag dest action. (flag, dest, action) \<in> set (ap_options p) \<Longrightarrow> has_dest action \<Longrightarrow> holds ns dest (allows action)) \<Longrightarrow> typed p ns"
  by (auto simp: typed_def list_all_iff)

lemma parser_okD:
  assumes "parser_ok p" and "(flag, dest, action) \<in> set (ap_options p)"
  shows "dest \<notin> fst ` set (ap_positionals p)"
    and "(flag', dest, action') \<in> set (ap_options p) \<Longrightarrow> action' = action"
  using assms by (auto simp: parser_ok_def list_all_iff split: prod.splits)

lemma typed_set:
  assumes ok: "parser_ok p" and decl: "(flag, dest, action) \<in> set (ap_options p)" and "typed p ns" and "allows action v"
  shows "typed p (dict_set dest v ns)"
  using assms(3,4) parser_okD(2) [OF ok decl] by (auto intro!: typedI dest: typedD)

lemma typed_set_other:
  "typed p ns \<Longrightarrow> (\<And>flag action. (flag, dest, action) \<notin> set (ap_options p)) \<Longrightarrow> typed p (dict_set dest v ns)"
  by (rule typedI) (auto dest: typedD)

lemma filled_set: "filled ps ns \<Longrightarrow> (\<And>choices. (dest, choices) \<notin> set ps) \<Longrightarrow> filled ps (dict_set dest v ns)"
  by (auto simp: filled_def list_all_iff)

text \<open>What classification finds is declared.\<close>

definition declared :: "arg_parser \<Rightarrow> classified \<Rightarrow> bool" where
  "declared p x = (case snd x of
     Known flag dest action explicit \<Rightarrow> (flag, dest, action) \<in> set (ap_options p) | Separator \<Rightarrow> False | _ \<Rightarrow> True)"

lemma option_tuples_declared: "cls \<in> set (option_tuples p s) \<Longrightarrow> declared p (s, cls)"
  by (auto simp: option_tuples_def declared_def split: if_splits)

lemma classify_declared: "classify p s = Inr cls \<Longrightarrow> declared p (s, cls)"
  using option_tuples_declared [of cls p s]
  by (auto simp: classify_def declared_def split: if_splits option.splits list.splits dest!: map_of_SomeD)

lemma classify_args_declared:
  "classify_args p args = Inr xs \<Longrightarrow> ''--'' \<notin> set args \<Longrightarrow> list_all (declared p) xs \<and> map fst xs = args"
proof (induction args arbitrary: xs)
  case (Cons s args)
  then obtain cls ys where cls: "classify p s = Inr cls" and ys: "classify_args p args = Inr ys" and xs: "xs = (s, cls) # ys"
    by (cases "classify p s"; cases "classify_args p args") auto
  from Cons.IH [OF ys] Cons.prems(2) classify_declared [OF cls] xs show ?case by simp
qed simp

lemma map_sum_eq_Inr: "map_sum f g x = Inr y \<longleftrightarrow> (\<exists>z. x = Inr z \<and> y = g z)"
  by (cases x) auto

lemma consume_optional_sets:
  assumes "consume_optional float_of dest action explicit xs ns = Inr (taken, ns')"
  shows "\<exists>v. ns' = dict_set dest v ns \<and> allows action v \<and> has_dest action"
proof (cases action)
  case (Store ty choices dflt)
  then obtain s v where "get_value float_of ty choices s = Inr v" and "ns' = dict_set dest v ns"
    using assms by (auto simp: consume_optional_def Let_def map_sum_eq_Inr split: explicit_arg.splits list.splits arg_class.splits)
  then show ?thesis using Store get_value_fits by auto
qed (use assms in \<open>auto simp: consume_optional_def split: explicit_arg.splits\<close>)

lemma consume_optional_typed:
  assumes ok: "parser_ok p" and decl: "(flag, dest, action) \<in> set (ap_options p)" and ty: "typed p ns" and fill: "filled ps ns"
    and sub: "set ps \<subseteq> set (ap_positionals p)"
    and r: "consume_optional float_of dest action explicit xs ns = Inr (taken, ns')"
  shows "typed p ns'" and "filled ps ns'" and "map fst ns' = map fst ns"
proof -
  obtain v where ns': "ns' = dict_set dest v ns" and v: "allows action v" and "has_dest action"
    using consume_optional_sets [OF r] by blast
  show "typed p ns'" unfolding ns' by (rule typed_set [OF ok decl ty v])
  have "(dest, choices) \<notin> set ps" for choices using parser_okD(1) [OF ok decl] sub by force
  then show "filled ps ns'" unfolding ns' by (rule filled_set [OF fill])
  have "dict_get ns dest \<noteq> None" using typedD [OF ty decl \<open>has_dest action\<close>] by (auto simp: holds_def split: option.splits)
  then have "dest \<in> fst ` set ns" by (simp add: dict_get_None)
  then show "map fst ns' = map fst ns" by (simp add: ns' AList.update_keys)
qed

lemma take_positional_plain:
  assumes "list_all (declared p) ((s, Plain) # xs)"
  shows "take_positional ((s, Plain) # xs) = Some ([s], xs)"
proof -
  have "\<not> is_separator x" if "x \<in> set xs" for x
    using assms that by (auto simp: list_all_iff declared_def is_separator_def split: arg_class.splits)
  then have "dropWhile is_separator xs = xs" and "takeWhile is_separator xs = []"
    by (cases xs; auto)+
  then show ?thesis by (simp add: take_positional_def is_separator_def)
qed

lemma store_positional:
  assumes ok: "parser_ok p" and ps: "ap_positionals p = filled_ps @ (dest, choices) # ps" and ty: "typed p ns" and fill: "filled filled_ps ns"
    and keys: "map fst ns = map fst (init_namespace p)" and v: "fits StrArg choices v"
  shows "typed p (dict_set dest v ns)" and "filled (filled_ps @ [(dest, choices)]) (dict_set dest v ns)"
    and "map fst (dict_set dest v ns) = map fst (init_namespace p)"
proof -
  have "dest \<in> fst ` set (ap_positionals p)" by (simp add: ps)
  then show "typed p (dict_set dest v ns)" using parser_okD(1) [OF ok] by (intro typed_set_other [OF ty]) blast
  have "dest \<notin> fst ` set filled_ps" using ok by (simp add: parser_ok_def ps)
  then have "(dest, ch) \<notin> set filled_ps" for ch by force
  from filled_set [OF fill this] v show "filled (filled_ps @ [(dest, choices)]) (dict_set dest v ns)"
    by (simp add: filled_def del: fits_iff)
  have "dest \<in> set (map fst (init_namespace p))" by (simp add: init_namespace_def ps)
  then show "map fst (dict_set dest v ns) = map fst (init_namespace p)" by (simp add: AList.update_keys keys [symmetric])
qed

text \<open>The invariant of the loop: the positionals consumed so far and all options have values of their types.\<close>

lemma consume_typed:
  assumes "parser_ok p" and "ap_positionals p = filled_ps @ ps" and "typed p ns" and "filled filled_ps ns"
    and "map fst ns = map fst (init_namespace p)"
    and "list_all (declared p) xs" and "''--'' \<notin> fst ` set xs"
    and "consume float_of ps xs ns extras = Inr (left, ns', extras')"
  shows "\<exists>done. ap_positionals p = done @ left \<and> typed p ns' \<and> filled done ns' \<and> map fst ns' = map fst (init_namespace p)"
  using assms(2-)
proof (induction float_of ps xs ns extras arbitrary: filled_ps rule: consume.induct)
  case (1 float_of ps ns extras)
  then show ?case by auto
next
  case (2 float_of ps s cls xs ns extras)
  note ok = assms(1)
  have rest: "list_all (declared p) xs" "''--'' \<notin> fst ` set xs" "s \<noteq> ''--''" and decl: "declared p (s, cls)"
    using "2.prems" by auto
  show ?case
  proof (cases cls)
    case (Known flag dest action explicit)
    then have d: "(flag, dest, action) \<in> set (ap_options p)" using decl by (simp add: declared_def)
    obtain taken ns1 where c: "consume_optional float_of dest action explicit xs ns = Inr (taken, ns1)"
      using 2 Known by (auto split: sum.splits)
    have sub: "set filled_ps \<subseteq> set (ap_positionals p)" using 2 by simp
    note T = consume_optional_typed [OF ok d _ _ sub c]
    have "list_all (declared p) (drop taken xs)" "''--'' \<notin> fst ` set (drop taken xs)"
      using rest by (auto simp: list_all_iff dest: in_set_dropD)
    with 2 Known c T show ?thesis by simp
  next
    case Unknown
    with 2 rest show ?thesis by simp
  next
    case Separator
    with decl show ?thesis by (simp add: declared_def)
  next
    case Plain
    note tp = take_positional_plain [of p s xs]
    show ?thesis
    proof (cases ps)
      case Nil
      with 2 Plain rest show ?thesis by simp
    next
      case (Cons q ps1)
      obtain dest choices where q: "q = (dest, choices)" by fastforce
      have t: "take_positional ((s, Plain) # xs) = Some ([s], xs)" using tp 2 Plain by simp
      obtain v where v: "get_values float_of choices [s] = Inr v"
        using 2 Plain Cons q t by (auto split: sum.splits)
      then have gv: "get_value float_of StrArg choices s = Inr v" using rest(3) by (simp add: get_values_def)
      note N = store_positional [OF ok _ _ _ _ get_value_fits [OF gv], of filled_ps dest ps1 ns]
      show ?thesis using 2 Plain Cons q t v rest N by simp
    qed
  qed
qed

lemma parse_known_typed:
  assumes ok: "parser_ok p" and sep: "''--'' \<notin> set args" and r: "parse_known float_of p args = Inr (ns, extras)"
  shows "typed p ns" and "filled (ap_positionals p) ns" and "map fst ns = map fst (init_namespace p)"
proof -
  obtain xs where xs: "classify_args p args = Inr xs"
    and c: "consume float_of (ap_positionals p) xs (init_namespace p) [] = Inr ([], ns, extras)"
    using r by (auto simp: parse_known_def split: sum.splits if_splits prod.splits)
  have "typed p (init_namespace p)" using ok by (simp add: parser_ok_def)
  then show "typed p ns" and "filled (ap_positionals p) ns" and "map fst ns = map fst (init_namespace p)"
    using consume_typed [OF ok _ _ _ refl _ _ c, of "[]"] classify_args_declared [OF xs sep] sep
    by (auto simp: filled_def simp flip: set_map)
qed

section \<open>The sub-command\<close>

lemma merge_get:
  assumes "dict_wf sub"
  shows "dict_get (merge_namespace outer sub) d = (case dict_get sub d of Some v \<Rightarrow> Some v | None \<Rightarrow> dict_get outer d)"
  using assms
proof (induction sub arbitrary: outer)
  case Nil
  then show ?case by (simp add: merge_namespace_def)
next
  case (Cons x sub)
  then show ?case by (cases x) (auto simp: merge_namespace_def dict_get_None [symmetric] split: option.splits)
qed

lemma consume_top_result:
  assumes "consume_top float_of xs ns extras = Inr (ns', extras')" and "list_all (declared top_parser) xs"
    and "''--'' \<notin> fst ` set xs" and "typed top_parser ns"
  shows "\<exists>outer name p args sub more. typed top_parser outer \<and> dict_get sub_parsers name = Some p \<and> ''--'' \<notin> set args \<and>
    parse_known float_of p args = Inr (sub, more) \<and> ns' = merge_namespace (dict_set ''command'' (StrValue name) outer) sub"
  using assms
proof (induction float_of xs ns extras rule: consume_top.induct)
  case (1 float_of ns extras)
  then show ?case by simp
next
  case (2 float_of s cls xs ns extras)
  have ok: "parser_ok top_parser" using parsers_ok by simp
  have rest: "list_all (declared top_parser) xs" "''--'' \<notin> fst ` set xs" and decl: "declared top_parser (s, cls)" using 2 by auto
  show ?case
  proof (cases cls)
    case (Known flag dest action explicit)
    then have d: "(flag, dest, action) \<in> set (ap_options top_parser)" using decl by (simp add: declared_def)
    obtain taken ns1 where c: "consume_optional float_of dest action explicit xs ns = Inr (taken, ns1)"
      using "2.prems"(1) Known by (auto split: sum.splits)
    note T = consume_optional_typed(1) [OF ok d "2.prems"(4) _ _ c, of "[]"]
    have "list_all (declared top_parser) (drop taken xs)" "''--'' \<notin> fst ` set (drop taken xs)"
      using rest by (auto simp: list_all_iff dest: in_set_dropD)
    with 2 Known c T show ?thesis by (simp add: filled_def)
  next
    case Unknown
    with 2 rest show ?thesis by simp
  next
    case Separator
    with decl show ?thesis by (simp add: declared_def)
  next
    case Plain
    with "2.prems"(1) take_positional_plain [of top_parser s xs] rest decl obtain more where
      "parse_sub float_of (s # map fst xs) ns = Inr (ns', more)" by (auto simp: map_sum_eq_Inr)
    then obtain p sub where "dict_get sub_parsers s = Some p" "parse_known float_of p (map fst xs) = Inr (sub, more)"
      "ns' = merge_namespace (dict_set ''command'' (StrValue s) ns) sub"
      by (auto simp: parse_sub_def map_sum_eq_Inr split: option.splits)
    moreover have "''--'' \<notin> set (map fst xs)" using rest(2) by simp
    ultimately show ?thesis using "2.prems"(4) by blast
  qed
qed

lemma parse_args_result:
  assumes sep: "''--'' \<notin> set argv" and r: "parse_args float_of argv = Inr ns"
  obtains outer name p args sub more where "typed top_parser outer" "dict_get sub_parsers name = Some p" "typed p sub"
    "filled (ap_positionals p) sub" "map fst sub = map fst (init_namespace p)"
    "ns = merge_namespace (dict_set ''command'' (StrValue name) outer) sub"
proof -
  obtain xs where xs: "classify_args top_parser argv = Inr xs"
    and c: "consume_top float_of xs (dict_set ''command'' NoneValue (init_namespace top_parser)) [] = Inr (ns, [])"
    using r by (auto simp: parse_args_def split: sum.splits if_splits prod.splits)
  have "typed top_parser (dict_set ''command'' NoneValue (init_namespace top_parser))" by code_simp
  with consume_top_result [OF c] classify_args_declared [OF xs sep] sep
  obtain outer name p args sub more where *: "typed top_parser outer" "dict_get sub_parsers name = Some p" "''--'' \<notin> set args"
    "parse_known float_of p args = Inr (sub, more)" "ns = merge_namespace (dict_set ''command'' (StrValue name) outer) sub"
    by (auto simp flip: set_map)
  from parse_known_typed [OF sub_parser_ok [OF *(2)] *(3,4)] * that show thesis by blast
qed

lemmas parser_defs = top_parser_def put_parser_def keyed_parser_def simulate_parser_def benchmark_parser_def
  argument_parser_def add_option_def add_positional_def add_key_flags_def dest_of_def

lemma holds_iff: "holds ns d P \<longleftrightarrow> (\<exists>v. dict_get ns d = Some v \<and> P v)"
  by (simp add: holds_def split: option.splits)

lemma default_choices: "''lru'' \<in> set policy_choices" "''hotspot'' \<in> set patterns" "''looping'' \<in> set patterns"
  by code_simp+

text \<open>The attributes the sizing flags leave in the namespace.\<close>

lemma top_attributes:
  assumes "typed top_parser ns"
  obtains capacity policy shards where "attr int_value ns ''capacity'' = Some capacity"
    "attr str_value ns ''policy'' = Some policy" "policy \<in> set policy_choices" "attr int_value ns ''shards'' = Some shards"
    "\<exists>t. attr (optional float_value) ns ''default_ttl'' = Some t" "\<exists>c. attr (optional str_value) ns ''config'' = Some c"
  using assms
  by (auto simp: typed_def parser_defs holds_iff attr_def optional_def default_choices)

lemma merged_get:
  assumes "parser_ok p" and "map fst sub = map fst (init_namespace p)"
  shows "dict_get (merge_namespace (dict_set ''command'' (StrValue name) outer) sub) d =
    (if d \<in> set (map fst (init_namespace p)) then dict_get sub d
     else if d = ''command'' then Some (StrValue name) else dict_get outer d)"
proof -
  have "dict_wf sub" using assms by (simp add: parser_ok_def)
  moreover have "d \<in> set (map fst (init_namespace p)) \<longleftrightarrow> dict_get sub d \<noteq> None"
    by (simp add: assms(2) [symmetric] dict_get_None)
  ultimately show ?thesis by (cases "dict_get sub d") (simp_all add: merge_get)
qed

lemma merged_attr:
  assumes "parser_ok p" and "map fst sub = map fst (init_namespace p)" and "ns = merge_namespace (dict_set ''command'' (StrValue name) outer) sub"
    and "map fst (init_namespace p) = dests"
  shows "attr f ns d = (if d \<in> set dests then attr f sub d else if d = ''command'' then f (StrValue name) else attr f outer d)"
  unfolding attr_def assms(3) merged_get [OF assms(1,2)] assms(4) by simp

lemma put_attributes:
  assumes "typed put_parser ns" and "filled (ap_positionals put_parser) ns"
  shows "\<exists>key. attr str_value ns ''key'' = Some key" and "\<exists>v. attr str_value ns ''value'' = Some v"
    and "\<exists>ttl. attr (optional float_value) ns ''ttl'' = Some ttl" and "\<exists>b. attr bool_value ns ''no_ttl'' = Some b"
    and "\<exists>b. attr bool_value ns ''value_json'' = Some b" and "\<exists>b. attr bool_value ns ''key_json'' = Some b"
  using assms by (auto simp: typed_def filled_def parser_defs holds_iff attr_def optional_def)

lemma keyed_attributes:
  assumes "typed keyed_parser ns" and "filled (ap_positionals keyed_parser) ns"
  shows "\<exists>key. attr str_value ns ''key'' = Some key" and "\<exists>b. attr bool_value ns ''key_json'' = Some b"
  using assms by (auto simp: typed_def filled_def parser_defs holds_iff attr_def)

lemma simulate_attributes:
  assumes "typed simulate_parser ns"
  obtains policy pattern capacity requests shards where "attr str_value ns ''policy'' = Some policy" "policy \<in> set policy_choices"
    "attr str_value ns ''pattern'' = Some pattern" "pattern \<in> set patterns" "attr int_value ns ''capacity'' = Some capacity"
    "attr int_value ns ''requests'' = Some requests" "attr int_value ns ''shards'' = Some shards"
  using assms by (auto simp: typed_def parser_defs holds_iff attr_def default_choices)

lemma benchmark_attributes:
  assumes "typed benchmark_parser ns"
  obtains policies pattern capacity requests shards where "attr str_value ns ''policies'' = Some policies"
    "attr str_value ns ''pattern'' = Some pattern" "pattern \<in> set patterns" "attr int_value ns ''capacity'' = Some capacity"
    "attr int_value ns ''requests'' = Some requests" "attr int_value ns ''shards'' = Some shards"
  using assms by (auto simp: typed_def parser_defs holds_iff attr_def default_choices)

lemma init_dests:
  "map fst (init_namespace put_parser) = [''ttl'', ''no_ttl'', ''value_json'', ''key_json'', ''key'', ''value'']"
  "map fst (init_namespace keyed_parser) = [''key_json'', ''key'']"
  "map fst (init_namespace (add_option ''--limit'' (Store IntArg None NoneValue) argument_parser)) = [''limit'']"
  "map fst (init_namespace argument_parser) = []"
  "map fst (init_namespace simulate_parser) = [''policy'', ''pattern'', ''capacity'', ''requests'', ''seed'', ''shards'']"
  "map fst (init_namespace benchmark_parser) = [''policies'', ''pattern'', ''capacity'', ''requests'', ''seed'', ''shards'']"
  "map fst (init_namespace (add_positional ''name'' (Some demo_names) argument_parser)) = [''name'']"
  by code_simp+

text \<open>A request that names handlers, policies, patterns and demonstrations the program has.\<close>

fun known_request :: "request \<Rightarrow> bool" where
  "known_request (BasicRequest a cmd) = (str_lower (a_policy a) \<in> set supported_policies)"
| "known_request (SimulateRequest policy pattern capacity requests shards) =
     (str_lower policy \<in> set supported_policies \<and> (\<forall>r. stream_key r pattern capacity \<noteq> None))"
| "known_request (BenchmarkRequest policies pattern capacity requests shards) = (\<forall>r. stream_key r pattern capacity \<noteq> None)"
| "known_request (DemoRequest name) = (name = ''all'' \<or> name \<in> set all_demos)"
| "known_request (UnknownRequest name) = False"

lemma choices_known:
  "policy \<in> set policy_choices \<Longrightarrow> str_lower policy \<in> set supported_policies"
  "pattern \<in> set patterns \<Longrightarrow> stream_key r pattern n \<noteq> None"
  "name \<in> set demo_names \<Longrightarrow> name = ''all'' \<or> name \<in> set all_demos"
proof -
  have "list_all (\<lambda>p. str_lower p \<in> set supported_policies) policy_choices" by code_simp
  then show "policy \<in> set policy_choices \<Longrightarrow> str_lower policy \<in> set supported_policies" by (simp add: list_all_iff)
  have "list_all (\<lambda>p. normalize_pattern p = p) patterns" by code_simp
  then show "pattern \<in> set patterns \<Longrightarrow> stream_key r pattern n \<noteq> None"
    by (auto simp: list_all_iff stream_key_def patterns_def)
  have "list_all (\<lambda>n. n = ''all'' \<or> n \<in> set all_demos) demo_names" by code_simp
  then show "name \<in> set demo_names \<Longrightarrow> name = ''all'' \<or> name \<in> set all_demos" by (auto simp: list_all_iff)
qed

lemma sub_cases:
  assumes "dict_get sub_parsers name = Some p"
  obtains (put) "name = ''put''" "p = put_parser"
  | (keyed) "name \<in> {''get'', ''delete'', ''contains'', ''inspect''}" "p = keyed_parser"
  | (dump) "name = ''dump''" "p = add_option ''--limit'' (Store IntArg None NoneValue) argument_parser"
  | (bare) "name \<in> {''clear'', ''stats''}" "p = argument_parser"
  | (simulate) "name = ''simulate''" "p = simulate_parser"
  | (benchmark) "name = ''benchmark''" "p = benchmark_parser"
  | (demo) "name = ''demo''" "p = add_positional ''name'' (Some demo_names) argument_parser"
  using assms by (simp add: sub_parsers_def split: if_splits)



end
