(* ===== verification/Arg_Roundtrip.thy ===== *)
theory Arg_Roundtrip
  imports Arg_Parser
begin

text \<open>
  Writing a request as a command line and parsing it back. Options are written as
  \<open>--option=value\<close> and keys and values after the separator \<open>--\<close>, so that they may be any
  string: empty, negative numbers, or the name of an option.
\<close>

section \<open>Numerals\<close>

lemma digits_ok_digits: "s \<noteq> [] \<Longrightarrow> list_all is_digit s \<Longrightarrow> digits_ok s"
  by (induction s rule: digits_ok.induct) (auto simp: is_digit_def)

lemma str_nat_all_digits: "list_all is_digit (str_nat n)"
  using str_nat_digits [of _ n] by (auto simp: list_all_iff is_digit_def Let_def)

lemma digit_not [simp]: "is_digit c \<Longrightarrow> c \<noteq> CHR ''_''" "is_digit c \<Longrightarrow> c \<noteq> CHR ''-''" "is_digit c \<Longrightarrow> c \<noteq> CHR ''+''" "is_digit c \<Longrightarrow> \<not> is_space c"
  by (auto simp: is_digit_def is_space_def Let_def)

lemma py_nat_str: "py_nat (str_nat n) = Some (int n)"
proof -
  have "filter (\<lambda>c. c \<noteq> CHR ''_'') (str_nat n) = str_nat n"
    using str_nat_all_digits [of n] by (auto simp: filter_id_conv list_all_iff)
  then show ?thesis using str_nat_all_digits [of n] by (simp add: py_nat_def digits_ok_digits)
qed

lemma strip_no_space:
  assumes "list_all (\<lambda>c. \<not> is_space c) s"
  shows "strip s = s"
proof -
  have "dropWhile is_space t = t" if "list_all (\<lambda>c. \<not> is_space c) t" for t using that by (cases t) auto
  from this [OF assms] this [of "rev s"] assms show ?thesis by (simp add: strip_def list_all_rev)
qed

lemma py_int_str: "py_int (str_int n) = Some n"
proof -
  obtain c cs where c: "str_nat (nat \<bar>n\<bar>) = c # cs" by (cases "str_nat (nat \<bar>n\<bar>)") auto
  have all: "list_all is_digit (c # cs)" using str_nat_all_digits [of "nat \<bar>n\<bar>"] c by simp
  then have "list_all (\<lambda>c. \<not> is_space c) (c # cs)" by (auto simp: list_all_iff)
  then have strips: "strip (c # cs) = c # cs" "strip (CHR ''-'' # c # cs) = CHR ''-'' # c # cs"
    by (simp_all add: strip_no_space is_space_def)
  have "py_nat (c # cs) = Some \<bar>n\<bar>" using py_nat_str [of "nat \<bar>n\<bar>"] c by simp
  then show ?thesis using strips all c by (cases "n < 0") (auto simp: py_int_def str_int_def)
qed

section \<open>Classification of written options\<close>

text \<open>No declared option contains \<open>=\<close>, and those that store something are long.\<close>

definition plain_flags :: "arg_parser \<Rightarrow> bool" where
  "plain_flags p = list_all (\<lambda>(flag, dest, action). CHR ''='' \<notin> set flag \<and> flag \<noteq> ''--'' \<and>
     (has_dest action \<longrightarrow> starts_with ''--'' flag)) (ap_options p)"

text \<open>A flag that abbreviates at most one option of the parser.\<close>

definition harmless :: "arg_parser \<Rightarrow> string \<Rightarrow> bool" where
  "harmless p flag \<longleftrightarrow> starts_with ''--'' flag \<and> CHR ''='' \<notin> set flag \<and> flag \<noteq> ''--'' \<and>
     length (filter (\<lambda>(f, dest, action). starts_with flag f) (ap_options p)) \<le> 1"

lemma flags_ok:
  "plain_flags top_parser"
  "list_all (\<lambda>(name, p). plain_flags p \<and> list_all (\<lambda>(flag, dest, action). has_dest action \<longrightarrow> harmless top_parser flag) (ap_options p))
     sub_parsers"
  by code_simp+

lemma plain_flagsD:
  assumes "plain_flags p" and "dict_get (ap_options p) flag = Some (dest, action)"
  shows "CHR ''='' \<notin> set flag" and "flag \<noteq> ''--''" and "has_dest action \<Longrightarrow> starts_with ''--'' flag"
  using assms by (auto simp: plain_flags_def list_all_iff dest!: map_of_SomeD dest: bspec)

lemma eq_parts:
  assumes "CHR ''='' \<notin> set flag"
  shows "before_eq (flag @ CHR ''='' # v) = flag" and "after_eq (flag @ CHR ''='' # v) = AfterEq v"
proof -
  have "takeWhile (\<lambda>c. c \<noteq> CHR ''='') (flag @ CHR ''='' # v) = flag" "dropWhile (\<lambda>c. c \<noteq> CHR ''='') (flag @ CHR ''='' # v) = CHR ''='' # v"
    using assms by (induction flag) auto
  then show "before_eq (flag @ CHR ''='' # v) = flag" and "after_eq (flag @ CHR ''='' # v) = AfterEq v"
    by (simp_all add: before_eq_def after_eq_def)
qed

lemma no_eq_option: "plain_flags p \<Longrightarrow> dict_get (ap_options p) (flag @ CHR ''='' # v) = None"
  using plain_flagsD(1) [of p "flag @ CHR ''='' # v"] by (cases "dict_get (ap_options p) (flag @ CHR ''='' # v)") auto

lemma long_flag: "starts_with ''--'' flag \<Longrightarrow> \<exists>rest. flag = ''--'' @ rest"
  by (auto elim!: starts_with.elims)

text \<open>A written_option option: a flag, or a flag and its value.\<close>

type_synonym cli_setting = "string \<times> string option"

fun written_option :: "cli_setting \<Rightarrow> string" where
  "written_option (flag, None) = flag"
| "written_option (flag, Some v) = flag @ CHR ''='' # v"

fun effect :: "(string \<Rightarrow> time option) \<Rightarrow> arg_parser \<Rightarrow> cli_setting \<Rightarrow> (string \<times> arg_value) option" where
  "effect float_of p (flag, v) =
     (case (dict_get (ap_options p) flag, v) of
        (Some (dest, StoreTrue), None) \<Rightarrow> Some (dest, BoolValue True)
      | (Some (dest, Store ty choices dflt), Some s) \<Rightarrow>
          (case get_value float_of ty choices s of Inr x \<Rightarrow> Some (dest, x) | Inl code \<Rightarrow> None)
      | _ \<Rightarrow> None)"

fun class_of :: "arg_parser \<Rightarrow> cli_setting \<Rightarrow> arg_class" where
  "class_of p (flag, v) =
     (case dict_get (ap_options p) flag of
        Some (dest, action) \<Rightarrow> Known flag dest action (case v of None \<Rightarrow> NoArg | Some s \<Rightarrow> AfterEq s)
      | None \<Rightarrow> Unknown)"

lemma classify_setting:
  assumes pf: "plain_flags p" and e: "effect float_of p st = Some dx"
  shows "classify p (written_option st) = Inr (class_of p st)" and "written_option st \<noteq> ''--''"
proof -
  obtain flag v where st: "st = (flag, v)" by fastforce
  with e obtain dest action where d: "dict_get (ap_options p) flag = Some (dest, action)" and "has_dest action"
    by (cases "dict_get (ap_options p) flag") (auto split: option.splits prod.splits arg_action.splits)
  note F = plain_flagsD [OF pf d]
  obtain rest where "flag = ''--'' @ rest" using long_flag [OF F(3)] \<open>has_dest action\<close> by blast
  then show "classify p (written_option st) = Inr (class_of p st)" and "written_option st \<noteq> ''--''"
    using st d F(2) no_eq_option [OF pf, of flag] eq_parts [OF F(1)] by (cases v; simp add: classify_def)+
qed

lemma classify_foreign:
  assumes pf: "plain_flags p" and h: "harmless p flag"
  shows "\<exists>cls. classify p (written_option (flag, v)) = Inr cls" and "written_option (flag, v) \<noteq> ''--''"
proof -
  let ?s = "written_option (flag, v)"
  have eq: "CHR ''='' \<notin> set flag" and ne: "flag \<noteq> ''--''" using h by (simp_all add: harmless_def)
  obtain rest where rest: "flag = ''--'' @ rest" using long_flag [of flag] h by (auto simp: harmless_def)
  then show "?s \<noteq> ''--''" using ne by (cases v) auto
  have "before_eq ?s = flag" using eq eq_parts(1) [OF eq] by (cases v) (auto simp: before_eq_def takeWhile_eq_all_conv)
  moreover have "starts_with ''--'' ?s" using rest by (cases v) auto
  ultimately have "length (option_tuples p ?s) \<le> 1" using h by (simp add: option_tuples_def harmless_def)
  moreover have "?s \<noteq> []" "hd ?s = CHR ''-''" "length ?s \<noteq> 1" using rest by (cases v; simp)+
  ultimately show "\<exists>cls. classify p ?s = Inr cls"
    by (auto simp: classify_def split: option.splits list.splits)
qed

section \<open>Parsing written options\<close>

definition apply_settings :: "(string \<Rightarrow> time option) \<Rightarrow> arg_parser \<Rightarrow> cli_setting list \<Rightarrow> namespace \<Rightarrow> namespace" where
  "apply_settings float_of p sts ns = fold (\<lambda>st ns. case effect float_of p st of Some (d, x) \<Rightarrow> dict_set d x ns | None \<Rightarrow> ns) sts ns"

abbreviation effective :: "(string \<Rightarrow> time option) \<Rightarrow> arg_parser \<Rightarrow> cli_setting list \<Rightarrow> bool" where
  "effective float_of p sts \<equiv> list_all (\<lambda>st. effect float_of p st \<noteq> None) sts"

lemma classify_settings:
  assumes "plain_flags p" and "effective float_of p sts" and "classify_args p args = Inr xs"
  shows "classify_args p (map written_option sts @ args) = Inr (map (\<lambda>st. (written_option st, class_of p st)) sts @ xs)"
  using assms(2)
proof (induction sts)
  case (Cons st sts)
  then obtain dx where "effect float_of p st = Some dx" by auto
  from classify_setting [OF assms(1) this] Cons show ?case by simp
qed (simp add: assms(3))

lemma consume_setting:
  assumes "effect float_of p st = Some (d, x)"
  shows "\<exists>flag dest action explicit. class_of p st = Known flag dest action explicit \<and>
    consume_optional float_of dest action explicit xs ns = Inr (0, dict_set d x ns)"
proof -
  obtain flag v where st: "st = (flag, v)" by fastforce
  with assms obtain action where act: "dict_get (ap_options p) flag = Some (d, action)"
    by (auto split: option.splits prod.splits arg_action.splits sum.splits)
  show ?thesis
    using assms st act by (cases action; cases v) (auto simp: consume_optional_def split: sum.splits)
qed

lemma consume_settings:
  assumes "effective float_of p sts"
  shows "consume float_of ps (map (\<lambda>st. (written_option st, class_of p st)) sts @ xs) ns extras =
      consume float_of ps xs (apply_settings float_of p sts ns) extras"
    and "consume_top float_of (map (\<lambda>st. (written_option st, class_of p st)) sts @ xs) ns extras =
      consume_top float_of xs (apply_settings float_of p sts ns) extras"
proof -
  have "consume float_of ps (map (\<lambda>st. (written_option st, class_of p st)) sts @ xs) ns extras =
      consume float_of ps xs (apply_settings float_of p sts ns) extras \<and>
    consume_top float_of (map (\<lambda>st. (written_option st, class_of p st)) sts @ xs) ns extras =
      consume_top float_of xs (apply_settings float_of p sts ns) extras"
    using assms
  proof (induction sts arbitrary: ns)
    case (Cons st sts)
    then obtain d x where e: "effect float_of p st = Some (d, x)" by auto
    from consume_setting [OF e, of "map (\<lambda>st. (written_option st, class_of p st)) sts @ xs" ns] Cons e
    show ?case by (auto simp: apply_settings_def)
  qed (simp add: apply_settings_def)
  then show "consume float_of ps (map (\<lambda>st. (written_option st, class_of p st)) sts @ xs) ns extras =
      consume float_of ps xs (apply_settings float_of p sts ns) extras"
    and "consume_top float_of (map (\<lambda>st. (written_option st, class_of p st)) sts @ xs) ns extras =
      consume_top float_of xs (apply_settings float_of p sts ns) extras" by blast+
qed

lemma parse_settings:
  assumes "plain_flags p" and "effective float_of p sts" and "classify_args p args = Inr xs"
    and "consume float_of (ap_positionals p) xs (apply_settings float_of p sts (init_namespace p)) [] = Inr ([], ns, [])"
  shows "parse_known float_of p (map written_option sts @ args) = Inr (ns, [])"
  by (simp add: parse_known_def classify_settings [OF assms(1-3)] consume_settings(1) [OF assms(2)] assms(4))

lemma classify_rest:
  assumes "list_all (\<lambda>st. harmless p (fst st)) sts" and "plain_flags p" and "classify_args p args = Inr xs" and "map fst xs = args"
  shows "\<exists>ys. classify_args p (map written_option sts @ args) = Inr ys \<and> map fst ys = map written_option sts @ args"
  using assms(1)
proof (induction sts)
  case (Cons st sts)
  obtain flag v where st: "st = (flag, v)" by fastforce
  have h: "harmless p flag" using Cons.prems st by simp
  from Cons obtain ys where "classify_args p (map written_option sts @ args) = Inr ys" "map fst ys = map written_option sts @ args" by auto
  with classify_foreign [OF assms(2) h, of v] st show ?case by auto
qed (simp add: assms)

lemma parse_line:
  assumes "effective float_of top_parser outer" and "dict_get sub_parsers name = Some p"
    and "list_all (\<lambda>st. harmless top_parser (fst st)) sts" and "classify_args top_parser args = Inr xs" and "map fst xs = args"
    and "parse_known float_of p (map written_option sts @ args) = Inr (sub, [])"
  shows "parse_args float_of (map written_option outer @ name # map written_option sts @ args) =
    Inr (merge_namespace (dict_set ''command'' (StrValue name)
      (apply_settings float_of top_parser outer (dict_set ''command'' NoneValue (init_namespace top_parser)))) sub)"
proof -
  obtain ys where ys: "classify_args top_parser (map written_option sts @ args) = Inr ys" "map fst ys = map written_option sts @ args"
    using classify_rest [OF assms(3) flags_ok(1) assms(4,5)] by blast
  have "list_all (\<lambda>(name, p). name \<noteq> [] \<and> hd name \<noteq> CHR ''-'') sub_parsers" by code_simp
  then have "name \<noteq> []" "hd name \<noteq> CHR ''-''" using assms(2) by (auto simp: list_all_iff dest!: map_of_SomeD)
  then have "classify_args top_parser (name # map written_option sts @ args) = Inr ((name, Plain) # ys)"
    using ys(1) by (cases name) (auto simp: classify_def)
  note C = classify_settings [OF flags_ok(1) assms(1) this]
  have "take_positional ((name, Plain) # ys) \<noteq> None" by (simp add: take_positional_def is_separator_def)
  then show ?thesis
    using ys(2) assms(2,6) by (auto simp: parse_args_def C consume_settings(2) [OF assms(1)] parse_sub_def)
qed

section \<open>Requests as command lines\<close>

definition args_settings :: "(time \<Rightarrow> string) \<Rightarrow> cli_args \<Rightarrow> cli_setting list" where
  "args_settings repr a =
     [(''--capacity'', Some (str_int (a_capacity a))), (''--policy'', Some (a_policy a)), (''--shards'', Some (str_int (a_shards a)))] @
     (case a_default_ttl a of None \<Rightarrow> [] | Some t \<Rightarrow> [(''--default-ttl'', Some (repr t))])"

definition flag_if :: "bool \<Rightarrow> string \<Rightarrow> cli_setting list" where
  "flag_if b flag = (if b then [(flag, None)] else [])"

fun command_name :: "command \<Rightarrow> string" where
  "command_name (CmdPut key v ttl no_ttl vjson kjson) = ''put''"
| "command_name (CmdGet key kjson) = ''get''"
| "command_name (CmdDelete key kjson) = ''delete''"
| "command_name (CmdContains key kjson) = ''contains''"
| "command_name (CmdInspect key kjson) = ''inspect''"
| "command_name (CmdDump limit) = ''dump''"
| "command_name CmdClear = ''clear''"
| "command_name CmdStats = ''stats''"

fun command_settings :: "(time \<Rightarrow> string) \<Rightarrow> command \<Rightarrow> cli_setting list" where
  "command_settings repr (CmdPut key v ttl no_ttl vjson kjson) =
     (case ttl of None \<Rightarrow> [] | Some t \<Rightarrow> [(''--ttl'', Some (repr t))]) @ flag_if no_ttl ''--no-ttl'' @
     flag_if vjson ''--value-json'' @ flag_if kjson ''--key-json''"
| "command_settings repr (CmdGet key kjson) = flag_if kjson ''--key-json''"
| "command_settings repr (CmdDelete key kjson) = flag_if kjson ''--key-json''"
| "command_settings repr (CmdContains key kjson) = flag_if kjson ''--key-json''"
| "command_settings repr (CmdInspect key kjson) = flag_if kjson ''--key-json''"
| "command_settings repr (CmdDump limit) = (case limit of None \<Rightarrow> [] | Some n \<Rightarrow> [(''--limit'', Some (str_int n))])"
| "command_settings repr CmdClear = []"
| "command_settings repr CmdStats = []"

fun command_words :: "command \<Rightarrow> string list" where
  "command_words (CmdPut key v ttl no_ttl vjson kjson) = [''--'', key, v]"
| "command_words (CmdGet key kjson) = [''--'', key]"
| "command_words (CmdDelete key kjson) = [''--'', key]"
| "command_words (CmdContains key kjson) = [''--'', key]"
| "command_words (CmdInspect key kjson) = [''--'', key]"
| "command_words cmd = []"

definition command_line :: "(time \<Rightarrow> string) \<Rightarrow> cli_args \<Rightarrow> command \<Rightarrow> string list" where
  "command_line repr a cmd =
     map written_option (args_settings repr a) @ command_name cmd # map written_option (command_settings repr cmd) @ command_words cmd"

definition option_value :: "('a \<Rightarrow> arg_value) \<Rightarrow> 'a option \<Rightarrow> arg_value" where
  "option_value f x = (case x of None \<Rightarrow> NoneValue | Some y \<Rightarrow> f y)"

lemmas value_defs = get_value_def convert_def py_int_str option_value_def

definition args_namespace :: "cli_args \<Rightarrow> namespace" where
  "args_namespace a =
     [(''capacity'', IntValue (a_capacity a)), (''policy'', StrValue (a_policy a)), (''shards'', IntValue (a_shards a)),
      (''default_ttl'', option_value FloatValue (a_default_ttl a)), (''state'', StrValue ''.cachelab_state.json''),
      (''config'', NoneValue), (''command'', NoneValue)]"

lemma outer_parsed:
  assumes "a_policy a \<in> set policy_choices" and "\<And>t. a_default_ttl a = Some t \<Longrightarrow> float_of (repr t) = Some t"
  shows "effective float_of top_parser (args_settings repr a)"
    and "apply_settings float_of top_parser (args_settings repr a) (dict_set ''command'' NoneValue (init_namespace top_parser)) =
      args_namespace a"
proof -
  have init: "init_namespace top_parser =
      [(''capacity'', IntValue 128), (''policy'', StrValue ''lru''), (''shards'', IntValue 1), (''default_ttl'', NoneValue),
       (''state'', StrValue ''.cachelab_state.json''), (''config'', NoneValue)]" by code_simp
  have eff: "effect float_of top_parser (''--capacity'', Some (str_int n)) = Some (''capacity'', IntValue n)"
    "effect float_of top_parser (''--shards'', Some (str_int n)) = Some (''shards'', IntValue n)"
    "effect float_of top_parser (''--policy'', Some (a_policy a)) = Some (''policy'', StrValue (a_policy a))"
    "a_default_ttl a = Some t \<Longrightarrow> effect float_of top_parser (''--default-ttl'', Some (repr t)) = Some (''default_ttl'', FloatValue t)"
    for n t using assms by (simp_all add: parser_defs value_defs)
  show "effective float_of top_parser (args_settings repr a)"
    by (simp add: args_settings_def eff del: effect.simps split: option.splits)
  show "apply_settings float_of top_parser (args_settings repr a) (dict_set ''command'' NoneValue (init_namespace top_parser)) =
      args_namespace a"
    by (cases "a_default_ttl a") (simp_all add: args_namespace_def args_settings_def apply_settings_def eff init value_defs del: effect.simps)
qed

lemma sub_plain: "dict_get sub_parsers name = Some p \<Longrightarrow> plain_flags p"
  using flags_ok(2) by (auto simp: list_all_iff dest!: map_of_SomeD)

lemma separator_words:
  "take_positional ((''--'', Separator) # (k, Plain) # []) = Some ([''--'', k], [])"
  "take_positional ((''--'', Separator) # (k, Plain) # (v, Plain) # []) = Some ([''--'', k], [(v, Plain)])"
  "take_positional [(v, Plain)] = Some ([v], [])"
  "get_values float_of None [''--'', k] = Inr (StrValue k)"
  "v \<noteq> ''--'' \<Longrightarrow> get_values float_of None [v] = Inr (StrValue v)"
  by (simp_all add: take_positional_def is_separator_def get_values_def get_value_def convert_def)

lemma put_parsed:
  assumes "v \<noteq> ''--''" and "\<And>t. ttl = Some t \<Longrightarrow> float_of (repr t) = Some t"
  shows "parse_known float_of put_parser (map written_option (command_settings repr (CmdPut k v ttl no_ttl vjson kjson)) @ [''--'', k, v]) =
    Inr ([(''ttl'', option_value FloatValue ttl), (''no_ttl'', BoolValue no_ttl), (''value_json'', BoolValue vjson),
          (''key_json'', BoolValue kjson), (''key'', StrValue k), (''value'', StrValue v)], [])"
proof (rule parse_settings)
  have init: "init_namespace put_parser = [(''ttl'', NoneValue), (''no_ttl'', BoolValue False), (''value_json'', BoolValue False),
      (''key_json'', BoolValue False), (''key'', NoneValue), (''value'', NoneValue)]"
    and ps: "ap_positionals put_parser = [(''key'', None), (''value'', None)]" by code_simp+
  have eff: "effect float_of put_parser (''--no-ttl'', None) = Some (''no_ttl'', BoolValue True)"
    "effect float_of put_parser (''--value-json'', None) = Some (''value_json'', BoolValue True)"
    "effect float_of put_parser (''--key-json'', None) = Some (''key_json'', BoolValue True)"
    "ttl = Some t \<Longrightarrow> effect float_of put_parser (''--ttl'', Some (repr t)) = Some (''ttl'', FloatValue t)" for t
    using assms(2) by (simp_all add: parser_defs value_defs)
  show "plain_flags put_parser" by code_simp
  show "effective float_of put_parser (command_settings repr (CmdPut k v ttl no_ttl vjson kjson))"
    by (simp add: flag_if_def eff del: effect.simps split: option.splits)
  show "classify_args put_parser [''--'', k, v] = Inr [(''--'', Separator), (k, Plain), (v, Plain)]" by simp
  show "consume float_of (ap_positionals put_parser) [(''--'', Separator), (k, Plain), (v, Plain)]
      (apply_settings float_of put_parser (command_settings repr (CmdPut k v ttl no_ttl vjson kjson)) (init_namespace put_parser)) [] =
    Inr ([], [(''ttl'', option_value FloatValue ttl), (''no_ttl'', BoolValue no_ttl), (''value_json'', BoolValue vjson),
          (''key_json'', BoolValue kjson), (''key'', StrValue k), (''value'', StrValue v)], [])"
    by (cases ttl; cases no_ttl; cases vjson; cases kjson)
       (simp_all add: ps init eff flag_if_def apply_settings_def separator_words assms(1) value_defs del: effect.simps)
qed

lemma keyed_parsed:
  "parse_known float_of keyed_parser (map written_option (flag_if kjson ''--key-json'') @ [''--'', k]) =
     Inr ([(''key_json'', BoolValue kjson), (''key'', StrValue k)], [])"
proof (rule parse_settings)
  have init: "init_namespace keyed_parser = [(''key_json'', BoolValue False), (''key'', NoneValue)]"
    and ps: "ap_positionals keyed_parser = [(''key'', None)]" by code_simp+
  have eff: "effect float_of keyed_parser (''--key-json'', None) = Some (''key_json'', BoolValue True)" by (simp add: parser_defs)
  show "plain_flags keyed_parser" by code_simp
  show "effective float_of keyed_parser (flag_if kjson ''--key-json'')" by (simp add: flag_if_def eff del: effect.simps)
  show "classify_args keyed_parser [''--'', k] = Inr [(''--'', Separator), (k, Plain)]" by simp
  show "consume float_of (ap_positionals keyed_parser) [(''--'', Separator), (k, Plain)]
      (apply_settings float_of keyed_parser (flag_if kjson ''--key-json'') (init_namespace keyed_parser)) [] =
    Inr ([], [(''key_json'', BoolValue kjson), (''key'', StrValue k)], [])"
    by (cases kjson) (simp_all add: ps init eff flag_if_def apply_settings_def separator_words del: effect.simps)
qed

abbreviation dump_parser :: arg_parser where
  "dump_parser \<equiv> add_option ''--limit'' (Store IntArg None NoneValue) argument_parser"

lemma dump_parsed:
  "parse_known float_of dump_parser (map written_option (command_settings repr (CmdDump limit)) @ []) =
     Inr ([(''limit'', option_value IntValue limit)], [])"
proof (rule parse_settings)
  have init: "init_namespace dump_parser = [(''limit'', NoneValue)]" and ps: "ap_positionals dump_parser = []" by code_simp+
  have eff: "effect float_of dump_parser (''--limit'', Some (str_int n)) = Some (''limit'', IntValue n)" for n
    by (simp add: parser_defs value_defs)
  show "plain_flags dump_parser" by code_simp
  show "effective float_of dump_parser (command_settings repr (CmdDump limit))" by (simp add: eff del: effect.simps split: option.splits)
  show "classify_args dump_parser [] = Inr []" by simp
  show "consume float_of (ap_positionals dump_parser) []
      (apply_settings float_of dump_parser (command_settings repr (CmdDump limit)) (init_namespace dump_parser)) [] =
    Inr ([], [(''limit'', option_value IntValue limit)], [])"
    by (cases limit) (simp_all add: ps init eff apply_settings_def value_defs del: effect.simps)
qed

lemma bare_parsed: "parse_known float_of argument_parser [] = Inr ([], [])"
  by (simp add: parse_known_def argument_parser_def init_namespace_def map_filter_simps)

text \<open>The sub-command of a command, and what its parser makes of the rest of the line.\<close>

fun command_namespace :: "command \<Rightarrow> namespace" where
  "command_namespace (CmdPut key v ttl no_ttl vjson kjson) =
     [(''ttl'', option_value FloatValue ttl), (''no_ttl'', BoolValue no_ttl), (''value_json'', BoolValue vjson),
      (''key_json'', BoolValue kjson), (''key'', StrValue key), (''value'', StrValue v)]"
| "command_namespace (CmdGet key kjson) = [(''key_json'', BoolValue kjson), (''key'', StrValue key)]"
| "command_namespace (CmdDelete key kjson) = [(''key_json'', BoolValue kjson), (''key'', StrValue key)]"
| "command_namespace (CmdContains key kjson) = [(''key_json'', BoolValue kjson), (''key'', StrValue key)]"
| "command_namespace (CmdInspect key kjson) = [(''key_json'', BoolValue kjson), (''key'', StrValue key)]"
| "command_namespace (CmdDump limit) = [(''limit'', option_value IntValue limit)]"
| "command_namespace cmd = []"

fun command_writable :: "(time \<Rightarrow> string) \<Rightarrow> (string \<Rightarrow> time option) \<Rightarrow> command \<Rightarrow> bool" where
  "command_writable repr float_of (CmdPut key v ttl no_ttl vjson kjson) =
     (v \<noteq> ''--'' \<and> (case ttl of None \<Rightarrow> True | Some t \<Rightarrow> float_of (repr t) = Some t))"
| "command_writable repr float_of cmd = True"

lemma command_parsed:
  assumes "command_writable repr float_of cmd"
  obtains p xs where "dict_get sub_parsers (command_name cmd) = Some p"
    "parse_known float_of p (map written_option (command_settings repr cmd) @ command_words cmd) = Inr (command_namespace cmd, [])"
    "list_all (\<lambda>st. harmless top_parser (fst st)) (command_settings repr cmd)"
    "classify_args top_parser (command_words cmd) = Inr xs" "map fst xs = command_words cmd"
proof -
  have h: "harmless top_parser ''--ttl''" "harmless top_parser ''--no-ttl''" "harmless top_parser ''--value-json''"
    "harmless top_parser ''--key-json''" "harmless top_parser ''--limit''" by code_simp+
  have "\<exists>p. dict_get sub_parsers (command_name cmd) = Some p \<and>
      parse_known float_of p (map written_option (command_settings repr cmd) @ command_words cmd) = Inr (command_namespace cmd, [])"
  proof (cases cmd)
    case (CmdPut k v ttl no_ttl vjson kjson)
    then have "v \<noteq> ''--''" and "\<And>t. ttl = Some t \<Longrightarrow> float_of (repr t) = Some t" using assms by auto
    from put_parsed [OF this, where k = k and no_ttl = no_ttl and vjson = vjson and kjson = kjson] show ?thesis
      unfolding CmdPut command_name.simps command_words.simps command_namespace.simps
      by (intro exI [of _ put_parser]) (simp add: sub_parsers_def del: command_settings.simps)
  qed (use keyed_parsed dump_parsed [of float_of repr] bare_parsed in \<open>auto simp: sub_parsers_def\<close>)
  moreover have "list_all (\<lambda>st. harmless top_parser (fst st)) (command_settings repr cmd)"
    by (cases cmd) (simp_all add: h flag_if_def split: option.splits)
  moreover have "\<exists>xs. classify_args top_parser (command_words cmd) = Inr xs \<and> map fst xs = command_words cmd"
    by (cases cmd) simp_all
  ultimately show thesis using that by blast
qed

lemma optional_option_value:
  "optional float_value (option_value FloatValue x) = Some x" "optional int_value (option_value IntValue n) = Some n"
  by (simp_all add: optional_def option_value_def split: option.splits)

lemma request_written:
  assumes "a_config a = None"
  shows "request_of load_config
    (merge_namespace (dict_set ''command'' (StrValue (command_name cmd)) (args_namespace a)) (command_namespace cmd)) = Some (BasicRequest a cmd)"
proof -
  let ?ns = "merge_namespace (dict_set ''command'' (StrValue (command_name cmd)) (args_namespace a)) (command_namespace cmd)"
  have wf: "dict_wf (command_namespace cmd)" by (cases cmd) simp_all
  note G = attr_def merge_get [OF wf]
  have "args_of load_config ?ns = Some a"
    unfolding args_of_def G using assms
    by (cases a; cases cmd) (simp_all add: args_namespace_def optional_option_value, simp_all add: optional_def)
  moreover have "command_of ?ns (command_name cmd) = Some cmd"
    unfolding command_of_def G by (cases cmd) (simp_all add: args_namespace_def optional_option_value)
  moreover have "attr str_value ?ns ''command'' = Some (command_name cmd)" unfolding G by (cases cmd) simp_all
  moreover have "command_name cmd \<in> set basic_commands" by (cases cmd) (simp_all add: basic_commands_def)
  ultimately show ?thesis by (simp add: request_of_def)
qed

text \<open>
  C31: Every basic command can be written on the command line, and is read back as
  itself. For any sizing flags with one of the three policies and any command, with any
  strings as key and value (the value \<open>--\<close> aside, which \<open>argparse\<close> swallows), the line
  \<open>--capacity=... --policy=... --shards=... COMMAND OPTIONS -- KEY VALUE\<close> parses to
  exactly those flags and that command, provided \<open>float\<close> reads back the times that are
  written_option.
\<close>

theorem command_line_roundtrip:
  assumes "a_config a = None" and "a_policy a \<in> set policy_choices" and "command_writable repr float_of cmd"
    and "\<And>t. a_default_ttl a = Some t \<Longrightarrow> float_of (repr t) = Some t"
  shows "map_sum id (request_of load_config) (parse_args float_of (command_line repr a cmd)) = Inr (Some (BasicRequest a cmd))"
proof -
  note O = outer_parsed [OF assms(2,4)]
  from assms(3) obtain p xs where c: "dict_get sub_parsers (command_name cmd) = Some p"
    "parse_known float_of p (map written_option (command_settings repr cmd) @ command_words cmd) = Inr (command_namespace cmd, [])"
    "list_all (\<lambda>st. harmless top_parser (fst st)) (command_settings repr cmd)"
    "classify_args top_parser (command_words cmd) = Inr xs" "map fst xs = command_words cmd" by (rule command_parsed)
  have parsed: "parse_args float_of (command_line repr a cmd) =
      Inr (merge_namespace (dict_set ''command'' (StrValue (command_name cmd)) (args_namespace a)) (command_namespace cmd))"
    using parse_line [OF O(1) c(1,3,4,5,2)] by (simp only: command_line_def O(2))
  show ?thesis unfolding parsed using request_written [OF assms(1)] by simp
qed

theorem command_line_roundtrip_witness:
  "map_sum id (request_of (\<lambda>path. Inl ConfigurationError)) (parse_args (\<lambda>s. if s = ''1.5'' then Some (3 / 2) else None)
     [''--capacity=4'', ''--policy=lfu'', ''--shards=-2'', ''put'', ''--ttl=1.5'', ''--key-json'', ''--'', ''-5'', ''--ttl'']) =
   Inr (Some (BasicRequest \<lparr>a_config = None, a_capacity = 4, a_policy = ''lfu'', a_shards = - 2, a_default_ttl = None\<rparr>
     (CmdPut ''-5'' ''--ttl'' (Some (3 / 2)) False False True)))"
proof -
  let ?a = "\<lparr>a_config = None, a_capacity = 4, a_policy = ''lfu'', a_shards = - 2, a_default_ttl = None\<rparr>"
  let ?cmd = "CmdPut ''-5'' ''--ttl'' (Some (3 / 2)) False False True" and ?repr = "\<lambda>t. ''1.5''"
  have "command_line ?repr ?a ?cmd =
      [''--capacity=4'', ''--policy=lfu'', ''--shards=-2'', ''put'', ''--ttl=1.5'', ''--key-json'', ''--'', ''-5'', ''--ttl'']" by code_simp
  moreover have "a_policy ?a \<in> set policy_choices" by (simp add: policy_choices_def)
  ultimately show ?thesis
    using command_line_roundtrip [of ?a ?repr "\<lambda>s. if s = ''1.5'' then Some (3 / 2) else None" ?cmd "\<lambda>path. Inl ConfigurationError"]
    by simp
qed

end
