(* ===== verification/Demo_Table.thy ===== *)
theory Demo_Table
  imports Arg_Parser Single_Flight Cache_Only
begin

text \<open>
  The rest of \<open>cli/commands/demo.py\<close>: the \<open>single-flight\<close> demonstration, whose threads are
  interleaved by a schedule, the demonstrations that print the dictionaries of \<open>teaching/\<close>, and
  the table \<open>_DEMOS\<close>. The single-flight demonstration prints one loader call under every
  schedule, and every name the parser accepts is in the table.
\<close>

section \<open>The single-flight demonstration\<close>

text \<open>
  A turn of thread \<open>p\<close>, numbered in the order in which the threads enter: a number beyond the
  threads that have entered lets the next of the forty enter \<open>get_or_compute\<close>. The first
  component counts the calls of the loader.
\<close>

definition single_flight_turn ::
  "(string \<Rightarrow> nat) \<Rightarrow> nat \<Rightarrow> nat \<times> (string, string) sf_system \<Rightarrow> nat \<times> (string, string) sf_system" where
  "single_flight_turn h p st =
     (case st of (calls, s) \<Rightarrow>
       (let move = (\<lambda>m. case sf_move h m s of None \<Rightarrow> s | Some s1 \<Rightarrow> s1) in
        if p < length (sf_callers s)
        then (case sf_callers s ! p of
                Leading k ttl f \<Rightarrow> (Suc calls, move (Loader p (Inr ''loaded-once'')))
              | _ \<Rightarrow> (calls, move (Continue p)))
        else if length (sf_callers s) < 40 then (calls, move (Call ''same'' TTL_UNSET))
        else (calls, s)))"

definition single_flight_run :: "(string \<Rightarrow> nat) \<Rightarrow> nat list \<Rightarrow> cache_error + (nat \<times> (string, string) sf_system)" where
  "single_flight_run h schedule =
     map_sum id (\<lambda>c. fold (single_flight_turn h) schedule (0, \<lparr>sf_cache = c, sf_callers = []\<rparr>))
       (cache_init None (init_args_unset\<lparr>ia_capacity := Some 4, ia_shard_count := Some 2\<rparr>) None (fake_clock_init 0))"

definition demo_single_flight :: "(string \<Rightarrow> nat) \<Rightarrow> nat list \<Rightarrow> printed" where
  "demo_single_flight h schedule =
     map_sum id (\<lambda>(calls, s). [''loader calls under contention: '' @ str_nat calls]) (single_flight_run h schedule)"

section \<open>The demonstrations of unsafe programs\<close>

definition demo_unsafe_race :: "(time \<Rightarrow> string) \<Rightarrow> nat list \<Rightarrow> printed" where
  "demo_unsafe_race rf schedule =
     Inr [str_json rf (JObj [(''capacity'', JInt 1), (''final_size'', JInt (int (unsafe_race_demo schedule 1))), (''threads'', JInt 25)])]"

definition demo_unsafe_single_flight :: "(time \<Rightarrow> string) \<Rightarrow> nat list \<Rightarrow> printed" where
  "demo_unsafe_single_flight rf schedule =
     Inr [str_json rf (JObj [(''threads'', JInt 50), (''loader_calls'', JInt (int (unsafe_singleflight_demo schedule)))])]"

definition demo_unsafe_write_back_resurrection :: "(time \<Rightarrow> string) \<Rightarrow> printed" where
  "demo_unsafe_write_back_resurrection rf =
     (case unsafe_write_back_resurrection_demo of (source, resurrected) \<Rightarrow>
       Inr [str_json rf (JObj [(''source'', JObj (map (map_prod id (case_option JNull JStr)) source)), (''resurrected'', JBool resurrected)])])"

definition demo_wall_clock_ttl_bug :: "(time \<Rightarrow> string) \<Rightarrow> printed" where
  "demo_wall_clock_ttl_bug rf =
     (case unsafe_wall_clock_ttl_demo of (expired, alive, now) \<Rightarrow>
       Inr [str_json rf (JObj [(''expired_after_forward'', JBool expired), (''incorrectly_alive_after_backward_jump'', JBool alive),
                               (''wall_clock_now'', JFloat now)])])"

section \<open>The table\<close>

text \<open>What the threads and the clock do during each demonstration.\<close>

record demo_env =
  de_hash :: "string \<Rightarrow> nat"
  de_repr_float :: "time \<Rightarrow> string"
  de_turns :: "string \<Rightarrow> nat \<times> nat \<times> nat"
  de_schedule :: "string \<Rightarrow> nat list"
  de_asleep :: "(string, string) action list"
  de_times :: "string \<times> string"

definition demo_table :: "demo_env \<Rightarrow> (string, printed) dict" where
  "demo_table de =
     (let h = de_hash de; rf = de_repr_float de; t0 = (\<lambda>n. fst (de_turns de n)); t1 = (\<lambda>n. fst (snd (de_turns de n)));
          t2 = (\<lambda>n. snd (snd (de_turns de n))) in
      [(''ttl-lazy'', demo_ttl_lazy h),
       (''ttl-active'', demo_ttl_active h (de_asleep de) (t1 ''ttl-active'') (t2 ''ttl-active'')),
       (''worker-queue'', demo_worker_queue h (t1 ''worker-queue'') (t2 ''worker-queue'')),
       (''backpressure'', demo_backpressure),
       (''single-flight'', demo_single_flight h (de_schedule de ''single-flight'')),
       (''sharding'', demo_sharding h (de_schedule de ''sharding'')),
       (''write-through-vs-write-back'', (let n = ''write-through-vs-write-back'' in
          demo_write_modes h (fst (de_times de)) (snd (de_times de)) (t0 n) (t1 n) (t2 n))),
       (''write-back-retry'', (let n = ''write-back-retry'' in demo_write_back_retry h (t0 n) (t1 n) (t2 n))),
       (''unsafe-race'', demo_unsafe_race rf (de_schedule de ''unsafe-race'')),
       (''unsafe-single-flight'', demo_unsafe_single_flight rf (de_schedule de ''unsafe-single-flight'')),
       (''unsafe-write-back-resurrection'', demo_unsafe_write_back_resurrection rf),
       (''wall-clock-ttl-bug'', demo_wall_clock_ttl_bug rf)])"

text \<open>Every name the parser accepts is in the table, and \<open>all\<close> runs each of them.\<close>

lemma demo_table_names:
  "name \<in> set demo_names \<Longrightarrow> name \<noteq> ''all'' \<Longrightarrow> dict_get (demo_table de) name \<noteq> None"
  "set all_demos = fst ` set (demo_table de)"
  by (auto simp: demo_names_def all_demos_def demo_table_def Let_def)

lemma unsafe_demos_print:
  "demo_unsafe_write_back_resurrection rf = Inr [''{'' @ repr_str ''source'' @ '': {'' @ repr_str ''user:1'' @ '': '' @ repr_str ''old-value'' @ ''}, '' @
     repr_str ''resurrected'' @ '': True}'']"
  by (simp add: demo_unsafe_write_back_resurrection_def resurrection_demo_result str_json_def)

section \<open>One loader call\<close>

definition shown :: "('k \<Rightarrow> nat) \<Rightarrow> ('k, 'v) cache \<Rightarrow> 'k \<Rightarrow> ('v \<times> time option) option" where
  "shown h c k = map_option (\<lambda>e. (ce_value e, ce_expires_at e)) (stored h c k)"

lemma shown_cong: "c_shards c' = c_shards c \<Longrightarrow> shown h c' = shown h c"
  by (simp add: fun_eq_iff shown_def stored_def shard_for_def)

text \<open>Entering \<open>get_or_compute\<close>: what is returned, and that nothing a reader can see changes.\<close>

lemma enter_plain:
  assumes pl: "plain h c" and live: "\<forall>v t. shown h c k = Some (v, t) \<longrightarrow> t = None" and g: "goc_enter h k TTL_UNSET c = (r, c')"
  shows "r = Inr (case shown h c k of Some (v, t) \<Rightarrow> Found v
      | None \<Rightarrow> (case registry h c k of Some f \<Rightarrow> Wait f | None \<Rightarrow> Lead (length (c_flights c))))"
    and "plain h c'" and "same_frame c c'" and "shown h c' j = shown h c j" and "fill c' i = fill c i"
proof -
  obtain found c1 where rd: "read_section h True k c = (found, c1)" by fastforce
  have get: "cache_get h k None c = (Inr found, c1)" by (simp add: cache_get_def plain_open [OF pl] rd split: option.splits)
  have live': "\<forall>e. stored h c k = Some e \<longrightarrow> ce_expires_at e = None" using live by (auto simp: shown_def)
  note G = plain_get [OF pl live', of None, unfolded get fst_conv snd_conv]
  have found: "found = map_option fst (shown h c k)" using G(1) by (auto simp: shown_def split: option.splits)
  have "sf_kept c (snd (read_section h True k c))" by (simp add: read_section_def)
  then have kept: "sf_kept c c1" by (simp add: rd)
  have reg: "dict_get (sh_singleflight (c_shards c1 ! shard_for h c1 k)) k = registry h c k"
    using registry_kept [OF kept, of h k] by (simp add: registry_def)
  have fls: "c_flights c1 = c_flights c" using kept by (simp add: sf_kept_def)
  have same: "shown h c1 j = shown h c j" for j using G(5) by (simp add: shown_def)
  let ?i = "shard_for h c1 k" and ?sh = "c_shards c1 ! shard_for h c1 k"
  let ?c2 = "(set_shard ?i (?sh\<lparr>sh_singleflight := dict_set k (length (c_flights c)) (sh_singleflight ?sh)\<rparr>) c1)
      \<lparr>c_flights := c_flights c @ [flight_init]\<rparr>"
  have gr: "goc_enter h k TTL_UNSET c = (Inr (case shown h c k of Some (v, t) \<Rightarrow> Found v
      | None \<Rightarrow> (case registry h c k of Some f \<Rightarrow> Wait f | None \<Rightarrow> Lead (length (c_flights c)))),
      if shown h c k = None \<and> registry h c k = None then ?c2 else c1)"
    using reg found by (auto simp: goc_enter_def plain_open [OF pl] validate_explicit_ttl_def rd Let_def fls split: option.splits)
  then show "r = Inr (case shown h c k of Some (v, t) \<Rightarrow> Found v
      | None \<Rightarrow> (case registry h c k of Some f \<Rightarrow> Wait f | None \<Rightarrow> Lead (length (c_flights c))))" using g by simp
  have "?i < length (c_shards c1)" using shard_for_less [of h c1] G(2) by (simp add: plain_def)
  note V = set_shard_view [OF this, where sh = "?sh\<lparr>sh_singleflight := dict_set k (length (c_flights c)) (sh_singleflight ?sh)\<rparr>"]
  have c2: "shown h ?c2 j = shown h c1 j" "fill ?c2 i = fill c1 i" "same_frame c1 ?c2" for i j
    using V by (auto simp: shown_def stored_def fill_def same_frame_def shard_for_def)
  have c': "c' = ?c2 \<or> c' = c1" using g gr by (simp split: if_splits)
  then show "shown h c' j = shown h c j" "fill c' i = fill c i" using c2 same G(4) by auto
  show frame: "same_frame c c'" using c' c2(3) G(3) same_frame_trans by blast
  have "cache_inv h c" using pl by (simp add: plain_def)
  then have "cache_inv h c'" using g by (rule goc_enter_cases)
  then show "plain h c'" by (rule same_frame_plain [OF frame _ pl])
qed

lemma publish_plain:
  assumes pl: "plain h c"
  shows "plain h (publish_flight h k f v c)" and "same_frame c (publish_flight h k f v c)" and "shown h (publish_flight h k f v c) j = shown h c j"
proof -
  have inv: "cache_inv h c" using pl by (simp add: plain_def)
  let ?sh = "c_shards c ! shard_for h c k"
  note V = set_shard_view [OF shard_for_less [OF inv, of k], where sh = "?sh\<lparr>sh_singleflight := dict_pop k (sh_singleflight ?sh)\<rparr>"]
  show frame: "same_frame c (publish_flight h k f v c)"
    using V(3) by (simp add: publish_flight_def resolve_flight_def Let_def same_frame_def)
  show "plain h (publish_flight h k f v c)"
    by (rule same_frame_plain [OF frame _ pl]) (simp add: publish_flight_def resolve_flight_fields(2) [OF inv])
  show "shown h (publish_flight h k f v c) j = shown h c j"
    using V(1) [of h j] by (auto simp: publish_flight_def resolve_flight_def Let_def shown_def stored_def shard_for_def)
qed

text \<open>
  The phases of the demonstration: nobody has entered; the first caller is about to load or to
  store, and all others wait for its flight; the value is stored and nobody leads.
\<close>

definition loading :: "nat \<Rightarrow> nat \<Rightarrow> (string, string) caller list \<Rightarrow> bool" where
  "loading calls f ws \<longleftrightarrow> ws \<noteq> [] \<and> list_all (\<lambda>w. w = Waiting ''same'' f) (tl ws) \<and>
     (calls = 0 \<and> hd ws = Leading ''same'' TTL_UNSET f \<or> calls = 1 \<and> hd ws = Storing ''same'' TTL_UNSET f ''loaded-once'')"

fun settled :: "(string, string) caller \<Rightarrow> bool" where
  "settled (Waiting k f) = True"
| "settled (Done f r) = True"
| "settled (Publishing k f v) = (k = ''same'')"
| "settled w = False"

definition one_load :: "(string \<Rightarrow> nat) \<Rightarrow> nat \<times> (string, string) sf_system \<Rightarrow> bool" where
  "one_load h st = (case st of (calls, s) \<Rightarrow>
     (let c = sf_cache s; ws = sf_callers s in
      sf_inv h s \<and> plain h c \<and> cfg_default_ttl (c_config c) = None \<and>
      (if shown h c ''same'' = None
       then fill c (shard_for h c ''same'') = 0 \<and>
            (case registry h c ''same'' of None \<Rightarrow> ws = [] \<and> calls = 0 \<and> c_flights c = [] | Some f \<Rightarrow> loading calls f ws)
       else (\<exists>v. shown h c ''same'' = Some (v, None)) \<and> calls = 1 \<and> list_all settled ws)))"

lemma one_load_live: "one_load h (calls, s) \<Longrightarrow> \<forall>v t. shown h (sf_cache s) ''same'' = Some (v, t) \<longrightarrow> t = None"
  by (auto simp: one_load_def Let_def split: if_splits)

lemma one_load_loadingI:
  assumes "sf_inv h s" "plain h (sf_cache s)" "cfg_default_ttl (c_config (sf_cache s)) = None" "shown h (sf_cache s) ''same'' = None"
    "fill (sf_cache s) (shard_for h (sf_cache s) ''same'') = 0" "registry h (sf_cache s) ''same'' = Some f" "loading calls f (sf_callers s)"
  shows "one_load h (calls, s)"
  using assms by (simp add: one_load_def Let_def)

lemma one_load_settledI:
  assumes "sf_inv h s" "plain h (sf_cache s)" "cfg_default_ttl (c_config (sf_cache s)) = None"
    "shown h (sf_cache s) ''same'' = Some (v, None)" "list_all settled (sf_callers s)"
  shows "one_load h (1, s)"
  using assms by (simp add: one_load_def Let_def)

lemma one_load_call:
  assumes inv: "one_load h (calls, s)" and m: "sf_move h (Call ''same'' TTL_UNSET) s = Some s'"
  shows "one_load h (calls, s')"
proof -
  let ?c = "sf_cache s"
  have pl: "plain h ?c" and ci: "cache_inv h ?c" and si: "sf_inv h s" and d: "cfg_default_ttl (c_config ?c) = None"
    using inv by (simp_all add: one_load_def Let_def plain_def)
  obtain r c' where g: "goc_enter h ''same'' TTL_UNSET ?c = (r, c')" by fastforce
  have s': "s' = s\<lparr>sf_cache := c', sf_callers := sf_callers s @ [entered_caller ''same'' TTL_UNSET r]\<rparr>" using m g by simp
  have si': "sf_inv h s'" using sf_step_inv [OF si sf_move_call [OF m]] .
  note E = enter_plain [OF pl one_load_live [OF inv] g]
  have sf: "shard_for h c' = shard_for h ?c" using same_frame_length [OF E(3)] by (simp add: fun_eq_iff shard_for_def)
  have cfg: "c_config c' = c_config ?c" using E(3) by (simp add: same_frame_def)
  have reg: "registry h c' ''same'' = (if shown h ?c ''same'' = None \<and> registry h ?c ''same'' = None then Some (length (c_flights ?c))
      else registry h ?c ''same'')"
    using ci g
  proof (cases rule: goc_enter_cases)
    case 1
    have "\<not> (shown h ?c ''same'' = None \<and> registry h ?c ''same'' = None)"
    proof
      assume "shown h ?c ''same'' = None \<and> registry h ?c ''same'' = None"
      then have "r = Inr (Lead (length (c_flights ?c)))" using E(1) by simp
      then show False using 1(3) by simp
    qed
    then show ?thesis by (simp only: if_not_P registry_kept [OF 1(2)] simp_thms)
  next
    case 2
    have "shown h ?c ''same'' = None"
    proof (cases "shown h ?c ''same''")
      case (Some vt)
      then show ?thesis using E(1) 2(2) by (simp add: case_prod_beta)
    qed
    then show ?thesis using 2(3,5) by simp
  qed
  have c': "sf_cache s' = c'" and ws': "sf_callers s' = sf_callers s @ [entered_caller ''same'' TTL_UNSET r]" using s' by simp_all
  have pl': "plain h (sf_cache s')" and d': "cfg_default_ttl (c_config (sf_cache s')) = None"
    and fill': "fill (sf_cache s') (shard_for h (sf_cache s') ''same'') = fill ?c (shard_for h ?c ''same'')"
    and sh': "shown h (sf_cache s') ''same'' = shown h ?c ''same''"
    using E(2,4,5) cfg d by (simp_all add: c' sf)
  show ?thesis
  proof (cases "shown h ?c ''same''")
    case None
    note I = one_load_loadingI [OF si' pl' d' sh' [unfolded None]]
    have fill0: "fill ?c (shard_for h ?c ''same'') = 0" using inv None by (simp add: one_load_def Let_def)
    show ?thesis
    proof (cases "registry h ?c ''same''")
      case none: None
      have ws: "sf_callers s = []" "calls = 0" "c_flights ?c = []" using inv None none by (simp_all add: one_load_def Let_def)
      have "r = Inr (Lead 0)" using E(1) None none ws(3) by simp
      then have "loading calls 0 (sf_callers s')" by (simp add: ws' ws loading_def entered_caller_def)
      moreover have "registry h (sf_cache s') ''same'' = Some 0" using reg None none ws(3) by (simp add: c')
      ultimately show ?thesis using I fill' fill0 by simp
    next
      case (Some f)
      have l: "loading calls f (sf_callers s)" using inv None Some by (simp add: one_load_def Let_def)
      have "r = Inr (Wait f)" using E(1) None Some by simp
      then have "loading calls f (sf_callers s')" using l by (simp add: ws' loading_def entered_caller_def)
      moreover have "registry h (sf_cache s') ''same'' = Some f" using reg Some by (simp add: c')
      ultimately show ?thesis using I fill' fill0 by simp
    qed
  next
    case (Some vt)
    obtain v where v: "shown h ?c ''same'' = Some (v, None)" and l: "calls = 1" "list_all settled (sf_callers s)"
      using inv Some by (auto simp: one_load_def Let_def)
    have "r = Inr (Found v)" using E(1) v by simp
    then have "list_all settled (sf_callers s')" using l by (simp add: ws' entered_caller_def)
    then show ?thesis using one_load_settledI [OF si' pl' d' sh' [unfolded v]] l by simp
  qed
qed

lemma one_load_load:
  assumes inv: "one_load h (calls, s)" and w: "p < length (sf_callers s)" "sf_callers s ! p = Leading k ttl f"
    and m: "sf_move h (Loader p (Inr ''loaded-once'')) s = Some s'"
  shows "one_load h (Suc calls, s')"
proof -
  have si': "sf_inv h s'" using sf_step_inv [OF _ sf_move_loader [OF m]] inv by (simp add: one_load_def Let_def)
  have not_settled: "\<not> list_all settled (sf_callers s)"
    using w nth_mem [OF w(1)] by (auto simp: list_all_iff) (metis settled.simps(4))
  then obtain g where g: "shown h (sf_cache s) ''same'' = None" "registry h (sf_cache s) ''same'' = Some g" "loading calls g (sf_callers s)"
    using inv w by (auto simp: one_load_def Let_def split: if_splits option.splits)
  have "p = 0"
  proof (rule ccontr)
    assume "p \<noteq> 0"
    then have "sf_callers s ! p \<in> set (tl (sf_callers s))" using w(1) by (cases p; cases "sf_callers s") auto
    then show False using g(3) w(2) by (auto simp: loading_def list_all_iff)
  qed
  then have "loading (Suc calls) g (sf_callers s')" "sf_cache s' = sf_cache s"
    using g(3) w m by (cases "sf_callers s"; auto simp: loading_def)+
  then show ?thesis using inv g si' by (simp add: one_load_def Let_def)
qed

lemma one_load_continue:
  assumes inv: "one_load h (calls, s)" and m: "sf_move h (Continue p) s = Some s'"
  shows "one_load h (calls, s')"
proof -
  let ?c = "sf_cache s" and ?ws = "sf_callers s"
  have pl: "plain h ?c" and ci: "cache_inv h ?c" and si: "sf_inv h s" and d: "cfg_default_ttl (c_config ?c) = None"
    using inv by (simp_all add: one_load_def Let_def plain_def)
  have si': "sf_inv h s'" using sf_step_inv [OF si sf_move_continue [OF m]] .
  from m obtain w c' where p: "p < length ?ws" and w: "continue_caller h (?ws ! p) ?c = Some (w, c')"
    and s': "s' = s\<lparr>sf_cache := c', sf_callers := ?ws[p := w]\<rparr>" by (auto split: if_splits)
  have c': "sf_cache s' = c'" and ws': "sf_callers s' = ?ws[p := w]" using s' by simp_all
  show ?thesis
  proof (cases "shown h ?c ''same''")
    case None
    obtain f where reg: "registry h ?c ''same'' = Some f" and l: "loading calls f ?ws"
      using inv None p by (auto simp: one_load_def Let_def split: option.splits)
    have fill0: "fill ?c (shard_for h ?c ''same'') = 0" using inv None by (simp add: one_load_def Let_def)
    obtain w0 ws where ws: "?ws = w0 # ws" "list_all (\<lambda>w. w = Waiting ''same'' f) ws" using l by (cases ?ws) (auto simp: loading_def)
    have "leads w0 = Some (f, ''same'')" using l ws by (auto simp: loading_def)
    then have lead: "leader_of ?ws 0 f ''same''" using ws by (simp add: leader_of_def)
    show ?thesis
    proof (cases p)
      case 0
      have w0: "w0 = Storing ''same'' TTL_UNSET f ''loaded-once''" "calls = 1"
        using l w ws 0 by (auto simp: loading_def continue_caller_def)
      have new: "stored h ?c ''same'' = None" using None by (simp add: shown_def)
      have room: "fill ?c (shard_for h ?c ''same'') < sh_capacity (c_shards ?c ! shard_for h ?c ''same'')"
        using cache_inv_shard [OF ci shard_for_less [OF ci, of "''same''"]] fill0 by (simp add: shard_inv_def shard_core_def)
      note P = plain_put_new [OF pl _ new room, of TTL_UNSET "''loaded-once''"]
      have put: "w = Publishing ''same'' f ''loaded-once''" "c' = snd (cache_put h ''same'' ''loaded-once'' TTL_UNSET ?c)"
        using w ws 0 w0 P(1) by (auto simp: continue_caller_def took_effect_def validate_explicit_ttl_def split: prod.splits)
      have "shown h c' ''same'' = Some (''loaded-once'', None)" "plain h c'" "cfg_default_ttl (c_config c') = None"
        using P(2-4) d by (auto simp: put shown_def validate_explicit_ttl_def resolve_ttl_def same_frame_def)
      moreover have "list_all settled (sf_callers s')" using ws 0 by (auto simp: ws' put list_all_iff)
      ultimately show ?thesis using one_load_settledI [OF si'] w0(2) by (simp add: c')
    next
      case (Suc q)
      then have "?ws ! p = Waiting ''same'' f" using ws p by (simp add: list_all_length)
      moreover have "\<not> fl_event (c_flights ?c ! f)"
        using si lead ws by (force simp: sf_inv_def sf_ok_def leader_of_def dest: leader_flight)
      ultimately show ?thesis using w by (simp add: continue_caller_def flight_outcome_def)
    qed
  next
    case (Some vt)
    obtain v where v: "shown h ?c ''same'' = Some (v, None)" and l: "calls = 1" "list_all settled ?ws"
      using inv Some by (auto simp: one_load_def Let_def)
    have "settled (?ws ! p)" using l p by (simp add: list_all_length)
    then have "settled w \<and> plain h c' \<and> same_frame ?c c' \<and> shown h c' ''same'' = shown h ?c ''same''"
      using w pl publish_plain [OF pl] by (cases "?ws ! p") (auto simp: continue_caller_def)
    then have step: "settled w" "plain h c'" "shown h c' ''same'' = Some (v, None)" "cfg_default_ttl (c_config c') = None"
      using v d by (simp_all add: same_frame_def)
    have "list_all settled (sf_callers s')" using l(2) step(1) p by (simp add: ws' list_all_length nth_list_update)
    then show ?thesis using one_load_settledI [OF si'] step l(1) by (simp add: c')
  qed
qed

lemma one_load_turn:
  assumes inv: "one_load h st"
  shows "one_load h (single_flight_turn h p st)"
proof -
  obtain calls s where st: "st = (calls, s)" by fastforce
  note I = inv [unfolded st]
  let ?next = "\<lambda>m. case sf_move h m s of None \<Rightarrow> s | Some s1 \<Rightarrow> s1"
  have call: "one_load h (calls, ?next (Call ''same'' TTL_UNSET))"
    using one_load_call [OF I] I by (simp del: sf_move.simps split: option.split)
  have continue: "one_load h (calls, ?next (Continue p))"
    using one_load_continue [OF I, of p] I by (simp del: sf_move.simps split: option.split)
  have load: "one_load h (Suc calls, ?next (Loader p (Inr ''loaded-once'')))"
    if "p < length (sf_callers s)" "sf_callers s ! p = Leading k ttl f" for k ttl f
    using one_load_load [OF I that] that by simp
  show ?thesis
  proof (cases "p < length (sf_callers s)")
    case True
    then show ?thesis using continue load by (cases "sf_callers s ! p") (simp_all add: single_flight_turn_def st)
  next
    case False
    then show ?thesis using call I by (simp add: single_flight_turn_def st)
  qed
qed

lemma one_load_run: "one_load h st \<Longrightarrow> one_load h (fold (single_flight_turn h) schedule st)"
  by (induction schedule arbitrary: st) (simp_all add: one_load_turn)

lemma single_flight_start:
  assumes init: "cache_init None (init_args_unset\<lparr>ia_capacity := Some 4, ia_shard_count := Some 2\<rparr>) None (fake_clock_init 0) =
    Inr (c :: (string, string) cache)"
  shows "one_load h (0, \<lparr>sf_cache = c, sf_callers = []\<rparr>)"
proof -
  have cfg: "cfg_write_mode (c_config c) = ''cache-only''" "cfg_default_ttl (c_config c) = None" "c_flights c = []"
    using init by (auto simp: cache_init_def init_config_def init_args_unset_def arg_or_def config_post_init_iff split: sum.splits)
  note F = cache_init_plain [OF init _ cfg(1)]
  have ci: "cache_inv h c" using F(1) [of h] by (simp add: plain_def)
  obtain cfg' where sh: "make_shards cfg' 0 (shard_capacities (cfg_capacity cfg') (cfg_shard_count cfg')) = Inr (c_shards c)"
    using init by (auto simp: cache_init_def split: sum.splits)
  have reg: "registry h c k = None" for k
    using make_shards_fresh [OF sh nth_mem [OF shard_for_less [OF ci, of k]]] by (simp add: registry_def)
  then have "sf_inv h \<lparr>sf_cache = c, sf_callers = []\<rparr>" using ci cfg(3) by (simp add: sf_inv_def sf_ok_def leader_of_def)
  then show ?thesis
    using F(1) [of h] F(2) [of h "''same''"] F(3) [OF _ shard_for_less [OF ci]] cfg reg by (simp add: one_load_def Let_def shown_def)
qed

text \<open>
  Whatever the schedule, the loader has been called once by the time some thread has returned,
  so the line printed after the joins says one.
\<close>

lemma single_flight_demo_one_call:
  assumes run: "single_flight_run h schedule = Inr (calls, s)" and "Done f r \<in> set (sf_callers s)"
  shows "calls = 1" and "demo_single_flight h schedule = Inr [''loader calls under contention: 1'']"
proof -
  have inv: "one_load h (calls, s)"
    using run one_load_run [OF single_flight_start [of _ h], of _ schedule]
    by (auto simp: single_flight_run_def map_sum_def id_def split: sum.splits)
  show one: "calls = 1"
    using inv assms(2) by (auto simp: one_load_def Let_def loading_def list_all_iff neq_Nil_conv split: if_splits option.splits)
  moreover have "str_nat 1 = ''1''" by code_simp
  ultimately show "demo_single_flight h schedule = Inr [''loader calls under contention: 1'']"
    using run by (simp add: demo_single_flight_def)
qed

text \<open>Forty threads enter, the first of them loads, stores and publishes, the others wake.\<close>

lemma single_flight_demo_sample:
  "case single_flight_run (\<lambda>k. 0) (replicate 40 40 @ [0, 0, 0] @ [1..<40]) of
     Inl e \<Rightarrow> False
   | Inr (calls, s) \<Rightarrow> calls = 1 \<and> map (\<lambda>w. w = Done (Some 0) (Inr (Some ''loaded-once''))) (sf_callers s) = replicate 40 True"
  by code_simp

end
