(* ===== verification/Metered_Lock.thy ===== *)
theory Metered_Lock
  imports Clock
begin

text \<open>
  \<open>concurrency/locks.py\<close>: a re-entrant lock that counts contended acquisitions. The lock of
  \<open>threading\<close> is an owner and a depth; a thread whose non-blocking attempt fails is counted
  and waits until the lock is free. The rest of the library treats a locked section as
  one step of the thread that runs it: \<open>metered_exclusive\<close> is what that rests on.
\<close>

type_synonym thread = nat

record metered_lock =
  ml_owner :: "thread option"
  ml_depth :: nat
  ml_blocked :: "thread list"
  ml_contentions :: nat

definition metered_init :: metered_lock where
  "metered_init = \<lparr>ml_owner = None, ml_depth = 0, ml_blocked = [], ml_contentions = 0\<rparr>"

text \<open>\<open>RLock.acquire(blocking=False)\<close>; \<open>None\<close> is \<open>False\<close>.\<close>

definition try_lock :: "thread \<Rightarrow> metered_lock \<Rightarrow> metered_lock option" where
  "try_lock t l =
     (if ml_owner l = None \<or> ml_owner l = Some t
      then Some (l\<lparr>ml_owner := Some t, ml_depth := ml_depth l + 1\<rparr>) else None)"

definition metered_acquire :: "thread \<Rightarrow> metered_lock \<Rightarrow> metered_lock" where
  "metered_acquire t l =
     (case try_lock t l of
        Some l' \<Rightarrow> l'
      | None \<Rightarrow> l\<lparr>ml_contentions := ml_contentions l + 1, ml_blocked := ml_blocked l @ [t]\<rparr>)"

text \<open>A waiting thread gets the lock once it is free.\<close>

definition metered_wake :: "thread \<Rightarrow> metered_lock \<Rightarrow> metered_lock" where
  "metered_wake t l =
     (if t \<in> set (ml_blocked l) \<and> ml_owner l = None
      then l\<lparr>ml_owner := Some t, ml_depth := 1, ml_blocked := remove1 t (ml_blocked l)\<rparr> else l)"

definition metered_release :: "thread \<Rightarrow> metered_lock \<Rightarrow> (unit, metered_lock) outcome" where
  "metered_release t l =
     (if ml_owner l = Some t
      then (Inr (), l\<lparr>ml_depth := ml_depth l - 1, ml_owner := (if ml_depth l \<le> 1 then None else Some t)\<rparr>)
      else (Inl RuntimeError, l))"

datatype lock_op = Acquire thread | Wake thread | Release thread

fun metered_op :: "lock_op \<Rightarrow> metered_lock \<Rightarrow> metered_lock" where
  "metered_op (Acquire t) l = (if t \<in> set (ml_blocked l) then l else metered_acquire t l)"
| "metered_op (Wake t) l = metered_wake t l"
| "metered_op (Release t) l = (if t \<in> set (ml_blocked l) then l else snd (metered_release t l))"

definition metered_inv :: "metered_lock \<Rightarrow> bool" where
  "metered_inv l \<longleftrightarrow> (ml_owner l = None \<longleftrightarrow> ml_depth l = 0) \<and> distinct (ml_blocked l) \<and>
     (\<forall>t. ml_owner l = Some t \<longrightarrow> t \<notin> set (ml_blocked l)) \<and> length (ml_blocked l) \<le> ml_contentions l"

lemma metered_op_inv: "metered_inv l \<Longrightarrow> metered_inv (metered_op p l)"
  by (cases p) (auto simp: metered_inv_def metered_acquire_def try_lock_def metered_wake_def metered_release_def
      length_remove1 distinct_remove1 split: option.splits)

lemma metered_run_inv: "metered_inv (fold metered_op ops metered_init)"
proof (induction ops rule: rev_induct)
  case Nil
  show ?case by (simp add: metered_inv_def metered_init_def)
next
  case (snoc p ops)
  then show ?case using metered_op_inv by simp
qed

text \<open>Whatever the interleaving, only the owner's release has an effect, and a thread that waits owns nothing.\<close>

lemma metered_exclusive:
  assumes "l = fold metered_op ops metered_init" and "ml_owner l = Some t" and "u \<noteq> t"
  shows "metered_release u l = (Inl RuntimeError, l)" and "try_lock u l = None" and "metered_wake u l = l"
  using assms(2,3) by (auto simp: metered_release_def try_lock_def metered_wake_def)

text \<open>Exactly the acquisitions that find another owner are counted.\<close>

lemma metered_counts:
  assumes "t \<notin> set (ml_blocked l)"
  shows "ml_contentions (metered_op (Acquire t) l) =
    ml_contentions l + (if ml_owner l = None \<or> ml_owner l = Some t then 0 else 1)"
  using assms by (auto simp: metered_acquire_def try_lock_def)

lemma metered_count_others: "\<forall>t. p \<noteq> Acquire t \<Longrightarrow> ml_contentions (metered_op p l) = ml_contentions l"
  by (cases p) (auto simp: metered_wake_def metered_release_def)

end
