(* ===== verification/Spec2Isabelle.thy ===== *)
theory Spec2Isabelle
  imports Write_Through Write_Back_Examples Close Reference_Cache Coalescing Cli_Commands
    State_Lock Observers Construction Arg_Roundtrip Demo_Table Metered_Lock
begin

text \<open>
  CacheLab, a concurrent in-process cache with a command line: a verification library.

  \<^bold>\<open>The program.\<close> \<open>src/src/cachelab\<close> is a cache (\<open>core/cache.py\<close>) split into shards. A shard
  (\<open>concurrency/shards.py\<close>) is an entry store (\<open>storage/memory.py\<close>), an eviction policy
  (\<open>policies/\<close>), counters, version marks, tombstones, outstanding flush counts and
  registered flights, all guarded by one lock. An operation on a key takes the lock of the
  shard its stable hash selects (\<open>concurrency/hashing.py\<close>). In write-through mode a
  write reaches the source of truth (\<open>storage/slow_dict.py\<close>) inside that critical section; in
  write-back mode it registers a flush job that worker threads take from a bounded queue
  (\<open>workers/\<close>) and apply later, unless a newer version makes it stale. A scheduler enqueues
  expiration jobs. Concurrent misses of a key share one flight
  (\<open>concurrency/singleflight.py\<close>). \<open>close\<close> stops the threads and flushes what is dirty. The
  command line (\<open>cli/\<close>) rebuilds a cache-only cache from a locked JSON file for each
  command; \<open>workloads/\<close> drives simulations; \<open>teaching/\<close> holds deliberately unsafe programs.

  \<^bold>\<open>Style of the model.\<close> State is a record, an operation a function that returns its result and
  the new state, an exception \<open>Inl\<close> of \<open>cache_error\<close>. A Python dictionary is an association
  list in insertion order; integers are \<open>int\<close> or \<open>nat\<close> as in the source (they do not overflow),
  times are reals. Everything the code does while it holds a shard lock is one function, and
  an operation is composed of these sections, so that the same functions serve
  histories of whole operations and step relations that interleave threads between the
  sections.

  \<^bold>\<open>Theories and the code they model.\<close>
  \<^item> \<open>Prelude\<close>: dictionaries, ordered dictionaries, exceptions, shared lemmas.
  \<open>Python_Text\<close>: numerals, \<open>join\<close>, \<open>ljust\<close>, rounding.
  \<^item> \<open>Clock\<close>, \<open>Entry\<close>, \<open>Stats\<close>, \<open>Config\<close>: the small files of \<open>core/\<close>.
  \<^item> \<open>Policy_Interface\<close> (the contract of \<open>EvictionPolicy\<close> as a locale), \<open>Ordered_Policies\<close>
  (\<open>fifo.py\<close>, \<open>lru.py\<close>), \<open>Lfu_Policy\<close> (\<open>lfu.py\<close>, with a refinement to a reference LFU),
  \<open>Policy\<close> (dispatch), \<open>Policy_Reference\<close> (victims determined from the access history).
  \<^item> \<open>Storage\<close> (\<open>memory.py\<close>, \<open>slow_dict.py\<close>, their contracts as locales), \<open>Jobs\<close> (messages, the
  queue, staleness).
  \<^item> \<open>Shard\<close>, \<open>Shard_Inv\<close>, \<open>Shard_Ops\<close>, \<open>Shard_Write\<close>: the \<open>*_locked\<close> methods of
  \<open>core/cache.py\<close> and the shard invariant (store, policy and capacity agree; version marks,
  tombstones and outstanding counts fit together).
  \<^item> \<open>Cache\<close>, \<open>Cache_Inv\<close>, \<open>Cache_Ops\<close>: constructor, public operations, the cache invariant and its
  preservation. \<open>Flush\<close>: job handlers and a worker turn. \<open>Lifecycle\<close>, \<open>Shutdown\<close>, \<open>Close\<close>:
  \<open>close\<close> and the flush at shutdown.
  \<^item> \<open>Coherence\<close> (histories of operations), \<open>Operations\<close> (what single operations do),
  \<open>Observers\<close> (reads and expiration are invisible), \<open>Construction\<close> (building a cache, the
  eviction loop), \<open>Write_Through\<close>, \<open>Write_Back\<close>, \<open>Write_Back_Inv\<close>, \<open>Write_Back_Examples\<close>
  (interleavings with flush workers), \<open>Single_Flight\<close>, \<open>Coalescing\<close> (interleavings of
  \<open>get_or_compute\<close>), \<open>Metered_Lock\<close> (\<open>locks.py\<close>).
  \<^item> \<open>Hashing\<close> (\<open>hashing.py\<close>), \<open>Cache_Only\<close> (cache-only puts and gets in terms of stored
  entries), \<open>Reference_Cache\<close> (a cache-only cache simulated by a reference without data
  structures, through a locale for simulations), \<open>Workloads\<close>, \<open>Table\<close> (\<open>observability/tables.py\<close>).
  \<^item> \<open>Cli_State\<close> (loading and saving), \<open>Cli\<close> (commands and rendering), \<open>Cli_Roundtrip\<close>,
  \<open>Cli_Commands\<close>, \<open>State_Lock\<close> (the lock file between processes), \<open>Teaching\<close>, \<open>Demos\<close> (also
  the dispatch of \<open>cli/main.py\<close>), \<open>Arg_Parser\<close> (\<open>cli/parser.py\<close> and how \<open>argparse\<close> reads a command
  line against it), \<open>Arg_Roundtrip\<close> (command lines written and read back),
  \<open>Demo_Table\<close> (the \<open>single-flight\<close> demonstration, which loads once under every schedule, the
  unsafe ones and the table of \<open>cli/commands/demo.py\<close>).
  \<^item> This theory: the properties that span the whole cache.

  \<^bold>\<open>What is shown.\<close> For every history of operations on a validated configuration: the size bound,
  the coherence of reads with the last write, the agreement of write-through entries with
  the source, the invariants of shards and queue, the effect and the refusals of each
  operation. For every interleaving of clients with one worker under FIFO or LRU: no
  write-back write is lost silently, clean entries are durable, and the bookkeeping is
  empty when nothing is outstanding. For every interleaving of \<open>get_or_compute\<close> callers:
  agreement, release of waiters, one loader per key. For the policies: refinement of a
  history-based reference; for a cache-only cache as a whole: the same answers as a
  reference that evicts by exhaustive search, for every sequence of operations. For shutdown: completion, no silent loss without workers, errors
  counted. For the command line: the round trip of the state file and reading back what
  was put; exclusion of the file lock; accepted command lines are dispatched to handlers
  that know their arguments, and every basic command can be written as a line. For hashing, workloads and tables: routing of equal
  keys, injectivity of the encoding, accounting of simulations, layout.
  Negative results are theorems too: two workers can resurrect a deleted key, LFU can lose a
  write-back put, \<open>close\<close> can drop a queued flush or be blocked by a preload, a failing leader can
  unregister another flight, equal tuples can be hashed apart, and a vanished lock
  file can admit two processes.

  \<^bold>\<open>Fuel and bounds.\<close> \<open>enforce_loop\<close> models a \<open>while\<close> loop with fuel; one more than the number of tracked
  keys is always enough on reachable shards, and more fuel gives the same result (theory \<open>Construction\<close>).
  The loops of \<open>parse_known_args\<close> are recursions with termination proofs: each round takes at least one argument.
  The waits of \<open>close\<close> are numbers of worker turns given as arguments; the
  statements hold for all of them. All other recursions are structural.

  \<^bold>\<open>Parameters.\<close> The hash of a key \<open>h\<close> (in \<open>Hashing\<close> it is \<open>stable_hash\<close> over an arbitrary
  digest), the loader of \<open>get_or_compute\<close> and \<open>preload\<close>, the random draws, elapsed times, the text of
  a float, \<open>json.loads\<close> and \<open>float\<close> on text, the configuration a TOML file holds.

  \<^bold>\<open>Not modelled.\<close> Help and error texts of \<open>argparse\<close> (the exit codes are kept), logging, parsing of TOML and
  JSON text, package exports; NaN and
  infinite numbers as TTLs or keys, code points above 255.
  A section under a lock is atomic in the model; the code takes one shard lock at a time, and
  \<open>Metered_Lock\<close> shows the exclusion this rests on.
\<close>

section \<open>Any history of operations\<close>



text \<open>
  C2: A read never returns anything but the last value written. For every history, in every
  write mode and under every policy, if \<open>get\<close> returns a value for a key then that value
  is the one the last \<open>put\<close> or preload of the key that took effect wrote, and no
  \<open>delete\<close> or \<open>clear\<close> has taken effect since.
\<close>

theorem reads_return_last_write:
  assumes "config_post_init cfg = Inr cfg" and "cache_init (Some cfg) init_args_unset source clock = Inr c"
    and "fst (cache_get h k None (run h acts c)) = Inr (Some v)"
  shows "run_written h acts c (\<lambda>k. None) k = Some v"
proof -
  have valid: "config_valid cfg" using assms(1) by (simp add: config_post_init_iff)
  have inv: "cache_inv h c" "cache_inv h (run h acts c)"
    using cache_init_inv [OF assms(2)] init_run_inv [OF assms(1,2)] valid by simp_all
  have co: "coherent (run_written h acts c (\<lambda>k. None)) (run h acts c)"
    using coherent_init [OF assms(2)] valid by (intro coherent_run [OF inv(1)]) simp
  have alive: "c_state (run h acts c) \<notin> {CLOSED, CLOSING}"
    using assms(3) by (auto simp: cache_get_def unless_closed_def require_not_closed_def)
  obtain e where "lookup h (run h acts c) k = Some e" "ce_value e = v"
    using assms(3) cache_get_result [OF alive, of h k None] by (auto split: option.splits)
  then show ?thesis using coherent_lookup [OF inv(2) co] by simp
qed

theorem reads_return_last_write_witness:
  "run_written id [Put 1 10 TTL_UNSET, Put 1 11 TTL_UNSET, Put 2 20 TTL_UNSET, Delete 2] write_back_sample (\<lambda>k. None) 1 = Some 11"
proof -
  have "fst (cache_get id 1 None (run id [Put 1 10 TTL_UNSET, Put 1 11 TTL_UNSET, Put 2 20 TTL_UNSET, Delete 2] write_back_sample)) = Inr (Some 11)"
    by code_simp
  then show ?thesis by (rule reads_return_last_write [OF sample_config_valid(3) sample_cache_init(3)])
qed

text \<open>
  C4: In write-through mode the cache is always coherent with the source of truth: after any
  history, whatever writes the source refused, every value \<open>get\<close> returns is the value
  the source holds for that key.
\<close>

theorem write_through_reads_match_source:
  assumes "config_post_init cfg = Inr cfg" and "cache_init (Some cfg) init_args_unset source clock = Inr c"
    and "c_write_mode c = WRITE_THROUGH" and "fst (cache_get h k None (run h acts c)) = Inr (Some v)"
  shows "sd_contents (c_source (run h acts c)) k = Some v"
proof -
  have valid: "config_valid cfg" using assms(1) by (simp add: config_post_init_iff)
  have inv: "cache_inv h c" "cache_inv h (run h acts c)"
    using cache_init_inv [OF assms(2)] init_run_inv [OF assms(1,2)] valid by simp_all
  have co: "coherent (sd_contents (c_source (run h acts c))) (run h acts c)"
    using wt_run [OF inv(1)] wt_init [OF assms(2) _ assms(3)] valid by (simp add: wt_inv_def)
  have alive: "c_state (run h acts c) \<notin> {CLOSED, CLOSING}"
    using assms(4) by (auto simp: cache_get_def unless_closed_def require_not_closed_def)
  obtain e where "lookup h (run h acts c) k = Some e" "ce_value e = v"
    using assms(4) cache_get_result [OF alive, of h k None] by (auto split: option.splits)
  then show ?thesis using coherent_lookup [OF inv(2) co] by simp
qed

theorem write_through_reads_match_source_witness:
  "sd_contents (c_source (run id [Put 1 10 TTL_UNSET, Put 1 11 TTL_UNSET] write_through_sample)) 1 = Some 11"
proof -
  have pre: "(c_write_mode write_through_sample,
      fst (cache_get id 1 None (run id [Put 1 10 TTL_UNSET, Put 1 11 TTL_UNSET] write_through_sample))) =
      (WRITE_THROUGH, Inr (Some 11))"
    by code_simp
  show ?thesis
    using write_through_reads_match_source [OF sample_config_valid(2) sample_cache_init(2),
      of id 1 "[Put 1 10 TTL_UNSET, Put 1 11 TTL_UNSET]" 11] pre by simp
qed

section \<open>Write-back under interleaving\<close>

text \<open>
  C3: Write-back loses nothing silently. In every interleaving of client operations, clock
  advances and the steps of one worker on a cache with a FIFO or LRU policy, whenever no
  flush job is outstanding (none queued, none held by a client or the worker), the
  source of truth holds for every key exactly what was last written to it, a put value
  or its absence after a delete, except for the keys whose flush was given up or whose
  job was refused by a full queue, which were all reported.
\<close>

theorem write_back_durable_when_quiescent:
  assumes "wb_init h s0" and "(wb_step h)\<^sup>*\<^sup>* s0 s" and "outstanding s = {#}" and "k \<notin> sy_lost s"
  shows "sd_contents (c_source (sy_cache s)) k = sy_spec s k"
  using wb.reachable_inv [OF assms(1,2)] assms(3,4) by (auto simp: wb_inv_def wb_ok_def wb_key_defs)

theorem write_back_durable_when_quiescent_witness:
  "sd_contents (c_source (sy_cache flushed)) 1 = sy_spec flushed 1 \<and> sy_spec flushed 1 = Some 10"
  using write_back_durable_when_quiescent [OF wb_example_init flushed_reachable, of 1] flushed_quiescent
    flushed_summary by (simp add: summary_def)





text \<open>
  C21: Two workers can undo a delete. There is an interleaving of two workers, reachable from
  a fresh write-back cache, after which no flush job is outstanding and no loss has been
  reported, the key was deleted last, and the source of truth still holds its old value:
  the first worker's staleness check and its write to the source are not one atomic step.
\<close>

theorem two_workers_resurrect_deleted_key:
  "(wb_step id)\<^sup>*\<^sup>* (wb_start 2 (wb_cache ''lru'')) raced \<and> outstanding raced = {#} \<and> sy_lost raced = {} \<and>
   sy_spec raced 1 = None \<and> sd_contents (c_source (sy_cache raced)) 1 = Some 10 \<and>
   rt_flush_failures (c_runtime (sy_cache raced)) = 0 \<and> jq_dropped (c_queue (sy_cache raced)) = 0"
  using raced_reachable raced_summary by (simp add: summary_def outstanding_def)


end
